(* ===== verification/H9_Prelude.thy ===== *)
theory H9_Prelude
  imports Main "HOL-Library.Word"
begin

text \<open>
  Shared vocabulary of the development: machine integers, the failures of the C++ code as
  values, the generic lemmas, and the four interfaces (locales) that several components
  have in common:
  \<^item> \<open>codec\<close>: an encoder and a decoder that reads back what the encoder wrote;
  \<^item> \<open>chunked\<close>: a receiver fed with byte chunks of any size;
  \<^item> \<open>registry\<close>: a collection of subscribers with attach and detach;
  \<^item> \<open>step_system\<close>: a transition relation with an invariant.
  Each is interpreted on the model's own definitions in the theory of its provider.
\<close>

unbundle bit_operations_syntax

subsection \<open>Types and collections\<close>

type_synonym u8 = "8 word"
type_synonym u16 = "16 word"
type_synonym u32 = "32 word"
type_synonym u64 = "64 word"
type_synonym i64 = "64 word"

named_theorems h9_defs \<open>definitions that proofs about one component unfold together\<close>

text \<open>
  The failures of the code. The exceptions of the standard library and of the repository
  are constructors; \<open>Undefined_behaviour\<close> marks a read or write outside an array, a use
  of a freed object or another operation to which C++ gives no meaning;
  \<open>Assertion_failed\<close> is a failing \<open>assert\<close>, \<open>Terminate\<close> an exception that reaches the
  end of a \<open>noexcept\<close> function.
\<close>

datatype cxx_error =
    Invalid_argument
  | Out_of_range
  | Invalid_msg string
  | System_error int
  | Runtime_error string
  | Close_socket
  | Assertion_failed
  | Undefined_behaviour
  | Terminate

type_synonym 'a res = "cxx_error + 'a"

definition rbind :: "'a res \<Rightarrow> ('a \<Rightarrow> 'b res) \<Rightarrow> 'b res" where
  "rbind r f = (case r of Inl e \<Rightarrow> Inl e | Inr x \<Rightarrow> f x)"

lemma rbind_simps [simp]:
  "rbind (Inl e) f = Inl e"
  "rbind (Inr x) f = f x"
  by (simp_all add: rbind_def)

lemma rbind_Inr_iff: "rbind r f = Inr y \<longleftrightarrow> (\<exists>x. r = Inr x \<and> f x = Inr y)"
  by (cases r) simp_all

subsection \<open>Generic lemmas\<close>

lemma unat_u8_less: "unat (w :: u8) < 256"
  using unsigned_less [of w] by simp

lemma list_eq_8:
  assumes "length xs = 8"
  shows "xs = [xs!0, xs!1, xs!2, xs!3, xs!4, xs!5, xs!6, xs!7]"
  using assms by (auto simp: numeral_eq_Suc length_Suc_conv)

subsection \<open>Interfaces\<close>

text \<open>
  A codec writes values of the valid domain and reads them back. Its client learns that
  the encoding loses nothing.
\<close>

locale codec =
  fixes enc :: "'a \<Rightarrow> 'b"
    and dec :: "'b \<Rightarrow> 'a res"
    and valid :: "'a \<Rightarrow> bool"
  assumes dec_enc: "valid x \<Longrightarrow> dec (enc x) = Inr x"
begin

lemma enc_inj:
  assumes "valid x" and "valid y" and "enc x = enc y"
  shows "x = y"
proof -
  have "Inr x = dec (enc x)" by (rule dec_enc [OF assms(1), symmetric])
  also have "\<dots> = dec (enc y)" by (simp only: assms(3))
  also have "\<dots> = Inr y" by (rule dec_enc [OF assms(2)])
  finally show ?thesis by simp
qed

lemma dec_map_enc:
  "\<forall>x \<in> set xs. valid x \<Longrightarrow> map (\<lambda>x. dec (enc x)) xs = map Inr xs"
  by (induction xs) (simp_all add: dec_enc)

end

text \<open>
  A receiver takes input in chunks, keeps a state between them and emits a list of events.
  What it emits depends on the bytes and not on how they were cut.
\<close>

fun feed_all :: "('s \<Rightarrow> 'i list \<Rightarrow> 's \<times> 'e list) \<Rightarrow> 's \<Rightarrow> 'i list list \<Rightarrow> 's \<times> 'e list" where
  "feed_all feed s [] = (s, [])"
| "feed_all feed s (c # cs) =
     (let (s1, e1) = feed s c; (s2, e2) = feed_all feed s1 cs in (s2, e1 @ e2))"

locale chunked =
  fixes feed :: "'s \<Rightarrow> 'i list \<Rightarrow> 's \<times> 'e list"
  assumes feed_nil: "feed s [] = (s, [])"
    and feed_append:
      "feed s (xs @ ys) =
        (let (s1, e1) = feed s xs; (s2, e2) = feed s1 ys in (s2, e1 @ e2))"
begin

lemma feed_all_concat: "feed_all feed s cs = feed s (concat cs)"
  by (induction cs arbitrary: s)
     (simp_all add: feed_nil feed_append split: prod.split)

lemma feed_all_chunking:
  "concat cs = concat ds \<Longrightarrow> feed_all feed s cs = feed_all feed s ds"
  by (simp add: feed_all_concat)

end

text \<open>
  A registry of subscribers: \<open>subs r\<close> is the set of (topic, subscriber) pairs, attach adds
  one and detach removes one.
\<close>

locale registry =
  fixes attach :: "'t \<Rightarrow> 'o \<Rightarrow> 'r \<Rightarrow> 'r"
    and detach :: "'t \<Rightarrow> 'o \<Rightarrow> 'r \<Rightarrow> 'r"
    and subs :: "'r \<Rightarrow> ('t \<times> 'o) set"
    and legal :: "'t \<Rightarrow> 'r \<Rightarrow> bool"
  assumes subs_attach: "subs (attach t ob r) \<subseteq> insert (t, ob) (subs r)"
    and subs_attach_legal: "legal t r \<Longrightarrow> subs (attach t ob r) = insert (t, ob) (subs r)"
    and subs_detach: "subs (detach t ob r) = subs r - {(t, ob)}"
begin

lemma detach_all:
  "subs (fold (\<lambda>t r. detach t ob r) ts r) = subs r - {(t, ob') |t ob'. t \<in> set ts \<and> ob' = ob}"
  by (induction ts arbitrary: r) (auto simp: subs_detach)

lemma detach_all_gone:
  assumes "{t. (t, ob) \<in> subs r} \<subseteq> set ts"
  shows "(t, ob) \<notin> subs (fold (\<lambda>t r. detach t ob r) ts r)"
  using assms by (auto simp: detach_all)

lemma detach_all_others:
  "ob' \<noteq> ob \<Longrightarrow>
    (t, ob') \<in> subs (fold (\<lambda>t r. detach t ob r) ts r) \<longleftrightarrow> (t, ob') \<in> subs r"
  by (auto simp: detach_all)

end

text \<open>
  A transition system: whatever holds at the start and is kept by every step holds in
  every reachable state.
\<close>

locale step_system =
  fixes init :: "'s \<Rightarrow> bool"
    and step :: "'s \<Rightarrow> 's \<Rightarrow> bool"
    and inv :: "'s \<Rightarrow> bool"
  assumes inv_init: "init s \<Longrightarrow> inv s"
    and inv_step: "inv s \<Longrightarrow> step s t \<Longrightarrow> inv t"
begin

lemma inv_steps: "step\<^sup>*\<^sup>* s t \<Longrightarrow> inv s \<Longrightarrow> inv t"
  by (induction rule: rtranclp_induct) (auto intro: inv_step)

lemma reachable_inv: "init s \<Longrightarrow> step\<^sup>*\<^sup>* s t \<Longrightarrow> inv t"
  by (blast intro: inv_steps inv_init)

end

end
