(* ===== verification/H9_Text.thy ===== *)
theory H9_Text
  imports H9_Prelude
begin

text \<open>
  The number formatting and parsing of the C++ standard library that the protocol and the
  drivers use: \<open>std::to_string\<close> and \<open>%u\<close>, \<open>std::hex\<close> with \<open>setfill('0')\<close> and
  \<open>setw\<close>, \<open>%02hhX\<close>, \<open>strtol\<close> and \<open>std::stoi\<close>. A \<open>std::string\<close> is a list of
  bytes (\<open>string\<close>).
\<close>

subsection \<open>Digits\<close>

definition digit_char :: "bool \<Rightarrow> nat \<Rightarrow> char" where
  \<comment> \<open>the digit of a value below 16, upper case letters if the flag is set\<close>
  "digit_char up d =
     (if d < 10 then char_of (48 + d) else char_of ((if up then 55 else 87) + d))"

definition digit_val :: "char \<Rightarrow> nat option" where
  "digit_val c = (let n = of_char c :: nat in
     if 48 \<le> n \<and> n \<le> 57 then Some (n - 48)
     else if 65 \<le> n \<and> n \<le> 70 then Some (n - 55)
     else if 97 \<le> n \<and> n \<le> 102 then Some (n - 87)
     else None)"

fun digits_of :: "nat \<Rightarrow> nat \<Rightarrow> nat list" where
  \<comment> \<open>most significant digit first, at least one digit\<close>
  "digits_of b n = (if b < 2 \<or> n < b then [n] else digits_of b (n div b) @ [n mod b])"

declare digits_of.simps [simp del]

definition number_of_digits :: "nat \<Rightarrow> nat list \<Rightarrow> nat" where
  "number_of_digits b ds = foldl (\<lambda>a d. b * a + d) 0 ds"

definition dec_string :: "nat \<Rightarrow> string" where
  "dec_string n = map (digit_char False) (digits_of 10 n)"

definition int_string :: "int \<Rightarrow> string" where
  \<comment> \<open>\<open>std::to_string\<close> of a signed integer\<close>
  "int_string i = (if i < 0 then CHR ''-'' # dec_string (nat (- i)) else dec_string (nat i))"

definition hex_string :: "bool \<Rightarrow> nat \<Rightarrow> string" where
  "hex_string up n = map (digit_char up) (digits_of 16 n)"

definition setw :: "char \<Rightarrow> nat \<Rightarrow> string \<Rightarrow> string" where
  \<comment> \<open>\<open>setfill(c)\<close> and \<open>setw(w)\<close>, right adjusted: never shortens\<close>
  "setw c w s = replicate (w - length s) c @ s"

definition is_space :: "char \<Rightarrow> bool" where
  "is_space c = (let n = of_char c :: nat in n = 32 \<or> (9 \<le> n \<and> n \<le> 13))"

subsection \<open>Parsing\<close>

fun parse_digits :: "nat \<Rightarrow> nat \<Rightarrow> string \<Rightarrow> nat" where
  "parse_digits b acc [] = acc"
| "parse_digits b acc (c # cs) =
     (case digit_val c of
        None \<Rightarrow> acc
      | Some d \<Rightarrow> if d < b then parse_digits b (b * acc + d) cs else acc)"

definition starts_digit :: "nat \<Rightarrow> string \<Rightarrow> bool" where
  "starts_digit b s = (case s of [] \<Rightarrow> False
     | c # _ \<Rightarrow> (case digit_val c of None \<Rightarrow> False | Some d \<Rightarrow> d < b))"

definition skip_0x :: "nat \<Rightarrow> string \<Rightarrow> string" where
  "skip_0x b s = (case s of c0 # c1 # cs \<Rightarrow>
       if b = 16 \<and> c0 = CHR ''0'' \<and> (c1 = CHR ''x'' \<or> c1 = CHR ''X'') \<and> starts_digit b cs
       then cs else s
     | _ \<Rightarrow> s)"

definition split_sign :: "string \<Rightarrow> bool \<times> string" where
  "split_sign s = (case s of [] \<Rightarrow> (False, [])
     | c # cs \<Rightarrow> if c = CHR ''-'' then (True, cs)
                 else if c = CHR ''+'' then (False, cs) else (False, s))"

definition strto :: "nat \<Rightarrow> string \<Rightarrow> int option" where
  \<comment> \<open>the common part of \<open>strtol\<close> and \<open>std::stoi\<close>; \<open>None\<close>: no conversion\<close>
  "strto b s = (let (neg, s1) = split_sign (dropWhile is_space s); s2 = skip_0x b s1 in
     if starts_digit b s2
     then Some (if neg then - int (parse_digits b 0 s2) else int (parse_digits b 0 s2))
     else None)"

definition strtol :: "nat \<Rightarrow> string \<Rightarrow> int" where
  \<comment> \<open>0 without a conversion, clamped to the range of a 64 bit \<open>long\<close>\<close>
  "strtol b s = (case strto b s of None \<Rightarrow> 0
     | Some v \<Rightarrow> max (- (2 ^ 63)) (min (2 ^ 63 - 1) v))"

definition strtoull :: "nat \<Rightarrow> string \<Rightarrow> u64" where
  \<comment> \<open>0 without a conversion, the largest value when out of range\<close>
  "strtoull b s = (case strto b s of None \<Rightarrow> 0
     | Some v \<Rightarrow> if \<bar>v\<bar> < 2 ^ 64 then word_of_int v else - 1)"

definition stoi :: "nat \<Rightarrow> string \<Rightarrow> int res" where
  "stoi b s = (case strto b s of None \<Rightarrow> Inl Invalid_argument
     | Some v \<Rightarrow> if - (2 ^ 31) \<le> v \<and> v < 2 ^ 31 then Inr v else Inl Out_of_range)"

definition substr :: "nat \<Rightarrow> nat \<Rightarrow> string \<Rightarrow> string res" where
  \<comment> \<open>\<open>s.substr(pos, n)\<close> throws when \<open>pos > s.size()\<close>\<close>
  "substr pos n s = (if pos \<le> length s then Inr (take n (drop pos s)) else Inl Out_of_range)"

subsection \<open>Printing and reading back\<close>

lemma less_16_cases:
  assumes "d < (16::nat)"
  obtains "d = 0" | "d = 1" | "d = 2" | "d = 3" | "d = 4" | "d = 5" | "d = 6" | "d = 7"
    | "d = 8" | "d = 9" | "d = 10" | "d = 11" | "d = 12" | "d = 13" | "d = 14" | "d = 15"
proof -
  have "d = 0 \<or> d = 1 \<or> d = 2 \<or> d = 3 \<or> d = 4 \<or> d = 5 \<or> d = 6 \<or> d = 7
      \<or> d = 8 \<or> d = 9 \<or> d = 10 \<or> d = 11 \<or> d = 12 \<or> d = 13 \<or> d = 14 \<or> d = 15"
    using assms by presburger
  with that show ?thesis by blast
qed

lemma digit_val_char [simp]: "d < 16 \<Longrightarrow> digit_val (digit_char up d) = Some d"
  by (erule less_16_cases; cases up; simp add: digit_char_def digit_val_def)

lemma digit_char_no_space [simp]: "d < 16 \<Longrightarrow> \<not> is_space (digit_char up d)"
  by (erule less_16_cases; cases up; simp add: digit_char_def is_space_def)

lemma digit_char_neq:
  "d < 16 \<Longrightarrow> digit_char up d \<noteq> CHR ''-''"
  "d < 16 \<Longrightarrow> digit_char up d \<noteq> CHR ''+''"
  "d < 16 \<Longrightarrow> digit_char up d \<noteq> CHR ''x''"
  "d < 16 \<Longrightarrow> digit_char up d \<noteq> CHR ''X''"
  by (erule less_16_cases; cases up; simp add: digit_char_def char_of_def bit_simps)+

lemma parse_digits_chars:
  "\<forall>d \<in> set ds. d < b \<Longrightarrow> b \<le> 16 \<Longrightarrow>
    parse_digits b acc (map (digit_char up) ds) = foldl (\<lambda>a d. b * a + d) acc ds"
  by (induction ds arbitrary: acc) auto

lemma starts_digit_chars [simp]:
  "\<forall>d \<in> set ds. d < b \<Longrightarrow> b \<le> 16 \<Longrightarrow> ds \<noteq> [] \<Longrightarrow>
    starts_digit b (map (digit_char up) ds)"
  by (cases ds) (auto simp: starts_digit_def)

lemma skip_0x_chars:
  assumes "\<forall>d \<in> set ds. d < 16"
  shows "skip_0x b (map (digit_char up) ds) = map (digit_char up) ds"
  using assms
  by (cases ds; cases "tl ds") (auto simp: skip_0x_def digit_char_neq)

lemma split_sign_chars:
  assumes "\<forall>d \<in> set ds. d < 16"
  shows "split_sign (dropWhile is_space (map (digit_char up) ds)) = (False, map (digit_char up) ds)"
  using assms by (cases ds) (auto simp: split_sign_def digit_char_neq)

lemma strto_chars:
  assumes "\<forall>d \<in> set ds. d < b" and "b \<le> 16" and "ds \<noteq> []"
  shows "strto b (map (digit_char up) ds) = Some (int (number_of_digits b ds))"
proof -
  have "\<forall>d \<in> set ds. d < 16" using assms by auto
  with assms show ?thesis
    by (simp add: strto_def split_sign_chars skip_0x_chars parse_digits_chars
        number_of_digits_def)
qed

lemma digits_of_nonempty [simp]: "digits_of b n \<noteq> []"
  by (subst digits_of.simps) simp

lemma digits_of_less: "2 \<le> b \<Longrightarrow> d \<in> set (digits_of b n) \<Longrightarrow> d < b"
proof (induction b n rule: digits_of.induct)
  case (1 b n)
  then show ?case
    by (cases "n < b") (auto simp: digits_of.simps [of b n])
qed

lemma number_of_digits_of: "2 \<le> b \<Longrightarrow> number_of_digits b (digits_of b n) = n"
proof (induction b n rule: digits_of.induct)
  case (1 b n)
  then show ?case
    by (cases "n < b") (auto simp: digits_of.simps [of b n] number_of_digits_def)
qed

lemma number_of_digits_zeros: "number_of_digits b (replicate k 0 @ ds) = number_of_digits b ds"
proof -
  have "foldl (\<lambda>a d. b * a + d) 0 (replicate k 0) = 0" by (induction k) simp_all
  then show ?thesis by (simp add: number_of_digits_def)
qed

lemma length_digits_of: "2 \<le> b \<Longrightarrow> n < b ^ k \<Longrightarrow> 0 < k \<Longrightarrow> length (digits_of b n) \<le> k"
proof (induction b n arbitrary: k rule: digits_of.induct)
  case (1 b n)
  show ?case
  proof (cases "n < b")
    case True
    with "1.prems" show ?thesis by (simp add: digits_of.simps [of b n])
  next
    case False
    with "1.prems" obtain j where k: "k = Suc j" and "0 < j"
      by (cases k; cases "k - 1") auto
    with "1.prems" have "n div b < b ^ j" by (simp add: less_mult_imp_div_less mult.commute)
    with "1.IH" "1.prems" False \<open>0 < j\<close> have "length (digits_of b (n div b)) \<le> j" by simp
    with False k "1.prems" show ?thesis by (simp add: digits_of.simps [of b n])
  qed
qed

lemma strto_dec_string [simp]: "strto 10 (dec_string n) = Some (int n)"
  by (simp add: dec_string_def strto_chars digits_of_less number_of_digits_of)

lemma strtol_dec_string [simp]: "n < 2 ^ 63 \<Longrightarrow> strtol 10 (dec_string n) = int n"
  by (simp add: strtol_def)

lemma strtoull_dec_string [simp]: "strtoull 10 (dec_string (unat w)) = w"
proof -
  have "int (unat w) < 2 ^ 64" using uint_bounded [of w] by simp
  then show ?thesis by (simp add: strtoull_def)
qed

lemma dec_string_chars: "c \<in> set (dec_string n) \<Longrightarrow> \<exists>d < 10. c = digit_char False d"
  by (auto simp: dec_string_def dest: digits_of_less [rotated])

lemma dec_string_nonempty [simp]: "dec_string n \<noteq> []"
  by (simp add: dec_string_def)

lemma strto_int_string [simp]: "strto 10 (int_string i) = Some i"
proof (cases "i < 0")
  case True
  let ?ds = "digits_of 10 (nat (- i))"
  have ds: "\<forall>d \<in> set ?ds. d < 10" by (auto dest: digits_of_less [rotated])
  have "\<not> is_space (CHR ''-'')" by (simp add: is_space_def)
  then have "split_sign (dropWhile is_space (int_string i)) = (True, dec_string (nat (- i)))"
    using True by (simp add: int_string_def split_sign_def)
  moreover have "skip_0x 10 (dec_string n) = dec_string n" for n
    unfolding dec_string_def by (rule skip_0x_chars) (auto dest: digits_of_less [rotated])
  moreover have "starts_digit 10 (dec_string (nat (- i)))"
    using ds by (simp add: dec_string_def)
  moreover have "parse_digits 10 0 (dec_string (nat (- i))) = nat (- i)"
    using ds number_of_digits_of [of 10 "nat (- i)"]
    by (simp add: dec_string_def parse_digits_chars number_of_digits_def)
  ultimately show ?thesis using True by (simp add: strto_def)
next
  case False
  then show ?thesis by (simp add: int_string_def)
qed

lemma int_string_nonempty [simp]: "int_string i \<noteq> []"
  by (simp add: int_string_def)

lemma digit_char_zero: "digit_char up 0 = CHR ''0''"
proof -
  have "(char_of (48 :: nat) :: char) = CHR ''0''" by code_simp
  then show ?thesis by (simp add: digit_char_def)
qed

lemma setw_hex_chars:
  "setw (CHR ''0'') w (hex_string up n) =
    map (digit_char up) (replicate (w - length (digits_of 16 n)) 0 @ digits_of 16 n)"
  by (simp add: setw_def hex_string_def digit_char_zero)

lemma strto_setw_hex [simp]:
  "strto 16 (setw (CHR ''0'') w (hex_string up n)) = Some (int n)"
  unfolding setw_hex_chars
  by (subst strto_chars) (auto simp: digits_of_less number_of_digits_zeros number_of_digits_of)

lemma strtol_setw_hex [simp]:
  "n < 2 ^ 63 \<Longrightarrow> strtol 16 (setw (CHR ''0'') w (hex_string up n)) = int n"
  by (simp add: strtol_def)

lemma stoi_setw_hex [simp]:
  "n < 2 ^ 31 \<Longrightarrow> stoi 16 (setw (CHR ''0'') w (hex_string up n)) = Inr (int n)"
  by (simp add: stoi_def)

lemma length_setw_hex:
  "0 < w \<Longrightarrow> n < 16 ^ w \<Longrightarrow> length (setw (CHR ''0'') w (hex_string up n)) = w"
  using length_digits_of [of 16 n w] by (simp add: setw_def hex_string_def)

lemma set_setw_hex:
  assumes "c \<in> set (setw (CHR ''0'') w (hex_string up n))"
  shows "\<exists>d < 16. c = digit_char up d"
proof -
  from assms obtain d
    where "d \<in> set (replicate (w - length (digits_of 16 n)) 0 @ digits_of 16 n)"
      and c: "c = digit_char up d"
    unfolding setw_hex_chars by auto
  then have "d < 16" by (auto dest: digits_of_less [of 16, rotated])
  with c show ?thesis by blast
qed

end
