(* ===== verification/H9_Frame.thy ===== *)
theory H9_Frame
  imports H9_Text
begin

text \<open>
  \<open>bus/h9frame.{h,cc}\<close>: the frame of the H9 bus, its bit fields at their width, and its
  textual form. \<open>H9frame::Type\<close> is an enum with the fixed underlying type \<open>uint8_t\<close>,
  so every byte is one of its values (\<open>static_cast\<close> never fails); it is modelled as that
  byte, with the enumerators as constants. \<open>Priority\<close> is only ever built from one bit and
  is a datatype.
\<close>

subsection \<open>Enumerations\<close>

datatype priority = HIGH | LOW

primrec priority_num :: "priority \<Rightarrow> nat" where
  "priority_num HIGH = 0"
| "priority_num LOW = 1"

definition priority_of_bit :: "bool \<Rightarrow> priority" where
  \<comment> \<open>\<open>from_underlying\<Priority>(b & 1)\<close>\<close>
  "priority_of_bit b = (if b then LOW else HIGH)"

instantiation priority :: linorder
begin

definition less_eq_priority :: "priority \<Rightarrow> priority \<Rightarrow> bool" where
  "less_eq_priority p q \<longleftrightarrow> priority_num p \<le> priority_num q"

definition less_priority :: "priority \<Rightarrow> priority \<Rightarrow> bool" where
  "less_priority p q \<longleftrightarrow> priority_num p < priority_num q"

instance
proof
  fix p q r :: priority
  show "(p < q) = (p \<le> q \<and> \<not> q \<le> p)"
    by (auto simp: less_eq_priority_def less_priority_def)
  show "p \<le> p" by (simp add: less_eq_priority_def)
  show "p \<le> q \<Longrightarrow> q \<le> r \<Longrightarrow> p \<le> r" by (simp add: less_eq_priority_def)
  show "p \<le> q \<Longrightarrow> q \<le> p \<Longrightarrow> p = q"
    by (cases p; cases q; simp add: less_eq_priority_def)
  show "p \<le> q \<or> q \<le> p" by (auto simp: less_eq_priority_def)
qed

end

lemma HIGH_less_LOW [simp]: "HIGH < LOW" "HIGH \<le> p" "p \<le> LOW"
  by (cases p; simp add: less_priority_def less_eq_priority_def)+

abbreviation NOP :: u8 where "NOP \<equiv> 0"
abbreviation PAGE_START :: u8 where "PAGE_START \<equiv> 1"
abbreviation QUIT_BOOTLOADER :: u8 where "QUIT_BOOTLOADER \<equiv> 2"
abbreviation PAGE_FILL :: u8 where "PAGE_FILL \<equiv> 3"
abbreviation BOOTLOADER_TURNED_ON :: u8 where "BOOTLOADER_TURNED_ON \<equiv> 4"
abbreviation PAGE_FILL_NEXT :: u8 where "PAGE_FILL_NEXT \<equiv> 5"
abbreviation PAGE_WRITED :: u8 where "PAGE_WRITED \<equiv> 6"
abbreviation PAGE_FILL_BREAK :: u8 where "PAGE_FILL_BREAK \<equiv> 7"
abbreviation SET_REG :: u8 where "SET_REG \<equiv> 8"
abbreviation GET_REG :: u8 where "GET_REG \<equiv> 9"
abbreviation SET_BIT :: u8 where "SET_BIT \<equiv> 10"
abbreviation CLEAR_BIT :: u8 where "CLEAR_BIT \<equiv> 11"
abbreviation TOGGLE_BIT :: u8 where "TOGGLE_BIT \<equiv> 12"
abbreviation NODE_UPGRADE :: u8 where "NODE_UPGRADE \<equiv> 13"
abbreviation NODE_RESET :: u8 where "NODE_RESET \<equiv> 14"
abbreviation DISCOVER :: u8 where "DISCOVER \<equiv> 15"
abbreviation REG_EXTERNALLY_CHANGED :: u8 where "REG_EXTERNALLY_CHANGED \<equiv> 16"
abbreviation REG_INTERNALLY_CHANGED :: u8 where "REG_INTERNALLY_CHANGED \<equiv> 17"
abbreviation REG_VALUE_BROADCAST :: u8 where "REG_VALUE_BROADCAST \<equiv> 18"
abbreviation REG_VALUE :: u8 where "REG_VALUE \<equiv> 19"
abbreviation ERROR :: u8 where "ERROR \<equiv> 20"
abbreviation NODE_HEARTBEAT :: u8 where "NODE_HEARTBEAT \<equiv> 21"
abbreviation NODE_INFO :: u8 where "NODE_INFO \<equiv> 22"
abbreviation NODE_TURNED_ON :: u8 where "NODE_TURNED_ON \<equiv> 23"

definition type_to_string :: "u8 \<Rightarrow> string option" where
  \<comment> \<open>the switch; \<open>None\<close> is the final \<open>return nullptr\<close>\<close>
  "type_to_string t = map_of
     [(NOP, ''NOP''), (PAGE_START, ''PAGE_START''), (QUIT_BOOTLOADER, ''QUIT_BOOTLOADER''),
      (PAGE_FILL, ''PAGE_FILL''), (BOOTLOADER_TURNED_ON, ''BOOTLOADER_TURNED_ON''),
      (PAGE_FILL_NEXT, ''PAGE_FILL_NEXT''), (PAGE_WRITED, ''PAGE_WRITED''),
      (PAGE_FILL_BREAK, ''PAGE_FILL_BREAK''), (SET_REG, ''SET_REG''), (GET_REG, ''GET_REG''),
      (SET_BIT, ''SET_BIT''), (CLEAR_BIT, ''CLEAR_BIT''), (TOGGLE_BIT, ''TOGGLE_BIT''),
      (NODE_UPGRADE, ''NODE_UPGRADE''), (NODE_RESET, ''NODE_RESET''), (DISCOVER, ''DISCOVER''),
      (REG_EXTERNALLY_CHANGED, ''REG_EXTERNALLY_CHANGED''),
      (REG_INTERNALLY_CHANGED, ''REG_INTERNALLY_CHANGED''),
      (REG_VALUE_BROADCAST, ''REG_VALUE_BROADCAST''), (REG_VALUE, ''REG_VALUE''),
      (ERROR, ''ERROR''), (NODE_HEARTBEAT, ''NODE_HEARTBEAT''), (NODE_INFO, ''NODE_INFO''),
      (NODE_TURNED_ON, ''NODE_TURNED_ON''), (24, ''NODE_SPECIFIC_BULK0''),
      (25, ''NODE_SPECIFIC_BULK1''), (26, ''NODE_SPECIFIC_BULK2''), (27, ''NODE_SPECIFIC_BULK3''),
      (28, ''NODE_SPECIFIC_BULK4''), (29, ''NODE_SPECIFIC_BULK5''), (30, ''NODE_SPECIFIC_BULK6''),
      (31, ''NODE_SPECIFIC_BULK7'')] t"

definition error_to_string :: "u8 \<Rightarrow> string" where
  "error_to_string e = (case map_of
       [(1, ''INVALID_MSG''), (2, ''UNSUPPORTED_BOOTLOADER''), (3, ''INVALID_REGISTER''),
        (255, ''NODE_SPECIFIC_ERROR'')] e of
     Some s \<Rightarrow> s | None \<Rightarrow> ''UNKNOWN'')"

subsection \<open>The frame\<close>

record h9frame =
  priority :: priority
  ftype :: u8
  seqnum :: "5 word"
  destination_id :: "9 word"
  source_id :: "9 word"
  dlc :: u8
  data :: "u8 list"

definition BROADCAST_ID :: nat where "BROADCAST_ID = 0x1ff"

definition new_frame :: "5 word \<Rightarrow> 9 word \<Rightarrow> 9 word \<Rightarrow> h9frame" where
  \<comment> \<open>the constructor initialises priority, type, dlc and data only: the three bit fields keep
      whatever the memory held, which the arguments stand for\<close>
  "new_frame sq dst src =
     \<lparr>priority = LOW, ftype = NOP, seqnum = sq, destination_id = dst, source_id = src,
      dlc = 0, data = replicate 8 0\<rparr>"

definition set_type_from_underlying :: "u8 \<Rightarrow> h9frame \<Rightarrow> h9frame res" where
  \<comment> \<open>\<open>assert(int_type < (2 << 5))\<close>\<close>
  "set_type_from_underlying t f =
     (if unat t < 64 then Inr (f\<lparr>ftype := t\<rparr>) else Inl Assertion_failed)"

definition frame_bytes :: "h9frame \<Rightarrow> u8 list res" where
  \<comment> \<open>what the loops \<open>for (i = 0; i < frame.dlc; ++i)\<close> over \<open>frame.data[i]\<close> read\<close>
  "frame_bytes f = (if unat (dlc f) \<le> length (data f)
     then Inr (take (unat (dlc f)) (data f)) else Inl Undefined_behaviour)"

definition priority_char :: "h9frame \<Rightarrow> char" where
  "priority_char f = (if priority f = HIGH then CHR ''H'' else CHR ''L'')"

definition hex_byte :: "bool \<Rightarrow> u8 \<Rightarrow> string" where
  "hex_byte up b = setw (CHR ''0'') 2 (hex_string up (unat b))"

definition print_frame :: "h9frame \<Rightarrow> string res" where
  \<comment> \<open>\<open>operator<<(std::ostream&, const H9frame&)\<close>\<close>
  "print_frame f = rbind (frame_bytes f) (\<lambda>bs. Inr (
     dec_string (unat (source_id f)) @ '' -> '' @ dec_string (unat (destination_id f))
     @ '' priority: '' @ [priority_char f]
     @ '' type: '' @ setw (CHR '' '') 2 (dec_string (unat (ftype f)))
     @ '' seqnum: '' @ setw (CHR '' '') 2 (dec_string (unat (seqnum f)))
     @ '' dlc: '' @ dec_string (unat (dlc f))
     @ '' data:'' @ concat (map (\<lambda>b. CHR '' '' # hex_byte False b) bs)))"

definition wf_frame :: "h9frame \<Rightarrow> bool" where
  \<comment> \<open>the array has its declared size\<close>
  "wf_frame f \<longleftrightarrow> length (data f) = 8"

definition valid_frame :: "h9frame \<Rightarrow> bool" where
  \<comment> \<open>what the bus can carry: at most eight data bytes, a type of five bits\<close>
  "valid_frame f \<longleftrightarrow> wf_frame f \<and> unat (dlc f) \<le> 8 \<and> unat (ftype f) < 32"

definition clear_tail :: "h9frame \<Rightarrow> h9frame" where
  \<comment> \<open>the frame with the data bytes past dlc zeroed\<close>
  "clear_tail f =
     f\<lparr>data := take (unat (dlc f)) (data f) @ replicate (8 - unat (dlc f)) 0\<rparr>"

subsection \<open>Lemmas\<close>

lemma frame_bytes_valid:
  "wf_frame f \<Longrightarrow> unat (dlc f) \<le> 8 \<Longrightarrow> frame_bytes f = Inr (take (unat (dlc f)) (data f))"
  by (simp add: frame_bytes_def wf_frame_def)

lemma valid_frameD:
  assumes "valid_frame f"
  shows "length (data f) = 8" and "unat (dlc f) \<le> 8" and "unat (ftype f) < 32"
  using assms by (simp_all add: valid_frame_def wf_frame_def)

lemma valid_clear_tail: "valid_frame f \<Longrightarrow> valid_frame (clear_tail f)"
  by (auto simp: valid_frame_def wf_frame_def clear_tail_def)

lemma clear_tail_fields [simp]:
  "priority (clear_tail f) = priority f" "ftype (clear_tail f) = ftype f"
  "seqnum (clear_tail f) = seqnum f" "destination_id (clear_tail f) = destination_id f"
  "source_id (clear_tail f) = source_id f" "dlc (clear_tail f) = dlc f"
  by (simp_all add: clear_tail_def)

lemma clear_tail_bytes:
  "valid_frame f \<Longrightarrow> frame_bytes (clear_tail f) = frame_bytes f"
  by (auto simp: frame_bytes_def clear_tail_def valid_frame_def wf_frame_def)

lemma clear_tail_idem: "valid_frame f \<Longrightarrow> clear_tail (clear_tail f) = clear_tail f"
  by (cases f) (simp add: clear_tail_def valid_frame_def wf_frame_def)

lemma hex_byte_length [simp]: "length (hex_byte up b) = 2"
  by (simp add: hex_byte_def length_setw_hex unat_u8_less)

lemma hex_byte_stoi [simp]: "stoi 16 (hex_byte up b) = Inr (int (unat b))"
  using unat_u8_less [of b] by (simp add: hex_byte_def)

lemma hex_byte_strtol [simp]: "strtol 16 (hex_byte up b) = int (unat b)"
  using unat_u8_less [of b] by (simp add: hex_byte_def)

lemma hex_byte_set: "c \<in> set (hex_byte up b) \<Longrightarrow> \<exists>d < 16. c = digit_char up d"
  unfolding hex_byte_def by (rule set_setw_hex)

end
