(* ===== verification/H9_Wire.thy ===== *)
theory H9_Wire
  imports H9_Frame
begin

text \<open>
  The two wire formats of a frame: the 29 bit CAN identifier with eight data bytes
  (\<open>drivers/socketcan.cc\<close>) and the text lines of the serial line CAN protocol
  (\<open>drivers/slcan.cc\<close>). The identifier packs priority, type, sequence number,
  destination and source from the most significant bit down.
\<close>

subsection \<open>The identifier\<close>

definition frame_id :: "h9frame \<Rightarrow> u32" where
  "frame_id f =
    (let id0 = 0 OR (of_nat (priority_num (priority f)) AND 1);
         id1 = push_bit 5 id0 OR (ucast (ftype f) AND 31);
         id2 = push_bit 5 id1 OR (ucast (seqnum f) AND 31);
         id3 = push_bit 9 id2 OR (ucast (destination_id f) AND 511)
     in push_bit 9 id3 OR (ucast (source_id f) AND 511))"

definition set_id_fields :: "u32 \<Rightarrow> h9frame \<Rightarrow> h9frame" where
  \<comment> \<open>the five masked shifts of the receiving side\<close>
  "set_id_fields i f = f\<lparr>
     priority := priority_of_bit (drop_bit 28 i AND 1 \<noteq> 0),
     ftype := ucast (drop_bit 23 i AND 31),
     seqnum := ucast (drop_bit 18 i AND 31),
     destination_id := ucast (drop_bit 9 i AND 511),
     source_id := ucast (i AND 511)\<rparr>"

subsection \<open>SocketCAN\<close>

record can_frame =
  can_id :: u32
  can_dlc :: u8
  can_data :: "u8 list"

definition CAN_EFF_FLAG :: u32 where "CAN_EFF_FLAG = 0x80000000"

definition socketcan_send :: "h9frame \<Rightarrow> can_frame res" where
  \<comment> \<open>the structure handed to \<open>write\<close>: \<open>memset\<close>, identifier, flag, length and the copy of
      eight bytes\<close>
  "socketcan_send f = (if length (data f) < 8 then Inl Undefined_behaviour else Inr
     \<lparr>can_id = frame_id f OR CAN_EFF_FLAG, can_dlc = dlc f, can_data = take 8 (data f)\<rparr>)"

definition socketcan_recv :: "can_frame \<Rightarrow> h9frame res" where
  \<comment> \<open>the frame passed to \<open>on_frame_recv\<close>\<close>
  "socketcan_recv c = (if length (can_data c) < 8 then Inl Undefined_behaviour else Inr
     ((set_id_fields (can_id c) (new_frame 0 0 0))\<lparr>dlc := can_dlc c, data := take 8 (can_data c)\<rparr>))"

definition socketcan_recv_data :: "int \<Rightarrow> can_frame \<Rightarrow> h9frame res" where
  \<comment> \<open>\<open>recv_data\<close>: the value of \<open>read\<close> is stored in a \<open>size_t\<close> before it is compared with 0;
      the second argument is the content of \<open>can_msg\<close> after the call\<close>
  "socketcan_recv_data nbyte c = (let n = (word_of_int nbyte :: u64) in
     if unat n \<le> 0 then Inl Close_socket else socketcan_recv c)"

subsection \<open>Serial line CAN\<close>

definition build_slcan_msg :: "h9frame \<Rightarrow> string res" where
  "build_slcan_msg f = rbind (frame_bytes f) (\<lambda>bs. Inr (
     CHR ''T'' # setw (CHR ''0'') 8 (hex_string False (unat (frame_id f)))
     @ setw (CHR ''0'') 1 (hex_string False (unat (dlc f)))
     @ concat (map (hex_byte False) bs)
     @ [CHR 0x0D]))"

fun parse_slcan_data :: "string \<Rightarrow> nat \<Rightarrow> nat \<Rightarrow> u8 list \<Rightarrow> u8 list res" where
  \<comment> \<open>the loop: index, iterations left, \<open>res.data\<close>; a store past the array is undefined\<close>
  "parse_slcan_data s i 0 d = Inr d"
| "parse_slcan_data s i (Suc n) d =
     rbind (substr (10 + i * 2) 2 s) (\<lambda>t.
     rbind (stoi 16 t) (\<lambda>v.
       if i < length d then parse_slcan_data s (Suc i) n (d[i := word_of_int v])
       else Inl Undefined_behaviour))"

definition parse_slcan_msg :: "string \<Rightarrow> h9frame res" where
  "parse_slcan_msg s =
     rbind (substr 1 8 s) (\<lambda>t. rbind (stoi 16 t) (\<lambda>i.
     rbind (substr 9 1 s) (\<lambda>u. rbind (stoi 16 u) (\<lambda>n.
       let f = set_id_fields (word_of_int i) (new_frame 0 0 0) in
       rbind (parse_slcan_data s 0 (nat n) (data f)) (\<lambda>d.
         Inr (f\<lparr>dlc := word_of_int n, data := d\<rparr>))))))"

definition is_line_end :: "char \<Rightarrow> bool" where
  "is_line_end c \<longleftrightarrow> c = CHR 0x0D \<or> c = CHR 0x07"

fun slcan_feed :: "string \<Rightarrow> string \<Rightarrow> string \<times> string list" where
  \<comment> \<open>\<open>Slcan::recv_data\<close>: \<open>recv_buf\<close> and the bytes just read; the lines are the calls of
      \<open>parse_response\<close>\<close>
  "slcan_feed buf [] = (buf, [])"
| "slcan_feed buf (c # cs) =
     (if is_line_end c
      then (let (buf', ls) = slcan_feed [] cs in (buf', (buf @ [c]) # ls))
      else slcan_feed (buf @ [c]) cs)"

datatype read_result = Read_bytes string | Read_eof | Read_error int

definition ENXIO :: int where "ENXIO = 6"

definition slcan_recv_data :: "string \<Rightarrow> read_result \<Rightarrow> (string \<times> string list) res" where
  "slcan_recv_data buf r = (case r of
       Read_eof \<Rightarrow> Inl Close_socket
     | Read_error e \<Rightarrow> Inl (if e = ENXIO then Close_socket else System_error e)
     | Read_bytes bs \<Rightarrow> Inr (slcan_feed buf bs))"

datatype slcan_event = Frame_sent | Frame_received h9frame | Nothing

definition slcan_parse_response :: "bool \<Rightarrow> string \<Rightarrow> (bool \<times> slcan_event) res" where
  \<comment> \<open>the flag is \<open>last_send != nullptr\<close>; the event is the callback made\<close>
  "slcan_parse_response last_send r = (case r of
       [] \<Rightarrow> Inr (last_send, Nothing)
     | c # _ \<Rightarrow>
         if c = CHR 0x0D then Inr (False, if last_send then Frame_sent else Nothing)
         else if c = CHR ''T'' \<and> 10 \<le> length r
         then rbind (parse_slcan_msg r) (\<lambda>f. Inr (last_send, Frame_received f))
         else Inr (last_send, Nothing))"

subsection \<open>The identifier: lemmas\<close>

lemma mask_numerals:
  "(511 :: u32) = mask 9" "(31 :: u32) = mask 5" "(1 :: u32) = mask (Suc 0)"
  by (simp_all add: mask_eq_exp_minus_1)

lemma bit_pack:
  fixes a :: u32 and w :: "'b::len word"
  assumes "k \<le> 32"
  shows "bit (push_bit k a OR (ucast w AND mask k)) n \<longleftrightarrow>
    (n < k \<and> bit w n) \<or> (k \<le> n \<and> n < 32 \<and> bit a (n - k))"
  using assms by (auto simp: bit_simps)

lemma CAN_EFF_FLAG_bit: "bit CAN_EFF_FLAG k \<longleftrightarrow> k = 31"
proof -
  have "CAN_EFF_FLAG = 2 ^ 31" by (simp add: CAN_EFF_FLAG_def)
  then have "bit CAN_EFF_FLAG k = bit (2 ^ 31 :: u32) k" by (rule arg_cong)
  then show ?thesis unfolding bit_exp_iff by auto
qed

lemma frame_id_bit:
  "bit (frame_id f) n \<longleftrightarrow>
     (n < 9 \<and> bit (source_id f) n)
   \<or> (9 \<le> n \<and> n < 18 \<and> bit (destination_id f) (n - 9))
   \<or> (18 \<le> n \<and> n < 23 \<and> bit (seqnum f) (n - 18))
   \<or> (23 \<le> n \<and> n < 28 \<and> bit (ftype f) (n - 23))
   \<or> (n = 28 \<and> priority f = LOW)"
proof -
  define a0 :: u32 where "a0 = 0 OR (of_nat (priority_num (priority f)) AND mask (Suc 0))"
  define a1 where "a1 = push_bit 5 a0 OR (ucast (ftype f) AND mask 5)"
  define a2 where "a2 = push_bit 5 a1 OR (ucast (seqnum f) AND mask 5)"
  define a3 where "a3 = push_bit 9 a2 OR (ucast (destination_id f) AND mask 9)"
  have b0: "bit a0 k \<longleftrightarrow> k = 0 \<and> priority f = LOW" for k
    unfolding a0_def by (cases "priority f") (auto simp: bit_simps)
  have b1: "bit a1 k \<longleftrightarrow> (k < 5 \<and> bit (ftype f) k) \<or> (k = 5 \<and> priority f = LOW)" for k
    unfolding a1_def by (subst bit_pack) (auto simp: b0)
  have b2: "bit a2 k \<longleftrightarrow> (k < 5 \<and> bit (seqnum f) k) \<or>
      (5 \<le> k \<and> k < 10 \<and> bit (ftype f) (k - 5)) \<or> (k = 10 \<and> priority f = LOW)" for k
    unfolding a2_def
    by (subst bit_pack, simp) (cases "k < 5"; cases "k < 10"; cases "k < 11"; simp add: b1; arith)
  have b3: "bit a3 k \<longleftrightarrow> (k < 9 \<and> bit (destination_id f) k) \<or>
      (9 \<le> k \<and> k < 14 \<and> bit (seqnum f) (k - 9)) \<or>
      (14 \<le> k \<and> k < 19 \<and> bit (ftype f) (k - 14)) \<or> (k = 19 \<and> priority f = LOW)" for k
    unfolding a3_def
    by (subst bit_pack, simp)
       (cases "k < 9"; cases "k < 14"; cases "k < 19"; cases "k = 19"; simp add: b2; arith)
  have "frame_id f = push_bit 9 a3 OR (ucast (source_id f) AND mask 9)"
    unfolding a3_def a2_def a1_def a0_def frame_id_def Let_def mask_numerals by (rule refl)
  then show ?thesis 
    by (simp only:) (subst bit_pack, simp,
        cases "n < 9"; cases "n < 18"; cases "n < 23"; cases "n < 28"; cases "n = 28"; simp add: b3; arith)
qed

lemma frame_id_29: "unat (frame_id f) < 2 ^ 29"
proof -
  have "take_bit 29 (frame_id f) = frame_id f"
    by (intro bit_word_eqI) (auto simp: bit_simps frame_id_bit)
  then have "take_bit 29 (unat (frame_id f)) = unat (frame_id f)"
    by (metis unsigned_take_bit_eq)
  then show ?thesis by (simp add: take_bit_nat_eq_self_iff)
qed

lemma set_id_fields_frame_id:
  assumes "unat (ftype f) < 32"
  shows "set_id_fields (frame_id f OR (if e then CAN_EFF_FLAG else 0)) g =
    g\<lparr>priority := priority f, ftype := ftype f, seqnum := seqnum f,
      destination_id := destination_id f, source_id := source_id f\<rparr>"
proof -
  let ?i = "frame_id f OR (if e then CAN_EFF_FLAG else 0)"
  have flag: "bit (if e then CAN_EFF_FLAG else 0) k \<longleftrightarrow> e \<and> k = 31" for k
    by (simp add: CAN_EFF_FLAG_bit)
  have t5: "k < 5" if "bit (ftype f) k" for k
  proof -
    have "take_bit 5 (ftype f) = ftype f"
      using assms by (simp add: word_unat_eq_iff unsigned_take_bit_eq take_bit_nat_eq_self)
    with that have "bit (take_bit 5 (ftype f)) k" by simp
    then show ?thesis by (simp add: bit_simps)
  qed
  have "bit (drop_bit 28 ?i AND 1) 0 \<longleftrightarrow> priority f = LOW"
    by (simp add: bit_simps frame_id_bit flag)
  moreover have "drop_bit 28 ?i AND 1 \<noteq> 0 \<longleftrightarrow> bit (drop_bit 28 ?i AND 1) 0"
    by (simp add: and_one_eq bit_0 mod_2_eq_odd)
  ultimately have 1: "priority_of_bit (drop_bit 28 ?i AND 1 \<noteq> 0) = priority f"
    by (cases "priority f") (simp_all add: priority_of_bit_def)
  have 2: "ucast (drop_bit 23 ?i AND 31) = ftype f"
    unfolding mask_numerals
    by (intro bit_word_eqI) (auto simp: bit_simps frame_id_bit flag dest: t5)
  have 3: "ucast (drop_bit 18 ?i AND 31) = seqnum f"
    unfolding mask_numerals
    by (intro bit_word_eqI) (auto simp: bit_simps frame_id_bit flag)
  have 4: "ucast (drop_bit 9 ?i AND 511) = destination_id f"
    unfolding mask_numerals
    by (intro bit_word_eqI) (auto simp: bit_simps frame_id_bit flag)
  have 5: "ucast (?i AND 511) = source_id f"
    unfolding mask_numerals
    by (intro bit_word_eqI) (auto simp: bit_simps frame_id_bit flag)
  show ?thesis unfolding set_id_fields_def 1 2 3 4 5 by simp
qed

lemmas set_id_fields_plain = set_id_fields_frame_id [where e = False, simplified]
lemmas set_id_fields_eff = set_id_fields_frame_id [where e = True, simplified]

lemma socketcan_roundtrip_rbind:
  assumes "valid_frame f"
  shows "rbind (socketcan_send f) socketcan_recv = Inr f"
proof -
  note v = valid_frameD [OF assms]
  show ?thesis
    using v by (simp add: socketcan_send_def socketcan_recv_def set_id_fields_eff new_frame_def)
qed

subsection \<open>Serial lines: lemmas\<close>

lemma take_drop_hex_bytes:
  "i < length bs \<Longrightarrow>
    take 2 (drop (2 * i) (concat (map (hex_byte up) bs) @ r)) = hex_byte up (bs ! i)"
proof (induction bs arbitrary: i)
  case Nil
  then show ?case by simp
next
  case (Cons b bs)
  show ?case
  proof (cases i)
    case 0
    then show ?thesis by simp
  next
    case (Suc j)
    with Cons show ?thesis by simp
  qed
qed

lemma length_hex_bytes: "length (concat (map (hex_byte up) bs)) = 2 * length bs"
  by (induction bs) simp_all

lemma parse_slcan_data_bytes:
  assumes "\<And>j. j < length bs \<Longrightarrow> substr (10 + j * 2) 2 s = Inr (hex_byte up (bs ! j))"
    and "length bs \<le> length d" and "i + n = length bs"
  shows "parse_slcan_data s i n d = Inr (take i d @ drop i bs @ drop (length bs) d)"
  using assms(2,3)
proof (induction n arbitrary: i d)
  case 0
  then show ?case by simp
next
  case (Suc n)
  then have i: "i < length bs" and l: "i < length d" by simp_all
  let ?d = "d[i := bs ! i]"
  have "parse_slcan_data s i (Suc n) d = parse_slcan_data s (Suc i) n ?d"
    using i l by (simp add: assms(1))
  also have "\<dots> = Inr (take (Suc i) ?d @ drop (Suc i) bs @ drop (length bs) ?d)"
    using Suc by (intro Suc.IH) simp_all
  also have "take (Suc i) ?d @ drop (Suc i) bs @ drop (length bs) ?d
      = take i d @ drop i bs @ drop (length bs) d"
    using i l by (simp add: take_Suc_conv_app_nth flip: Cons_nth_drop_Suc)
  finally show ?case .
qed

lemma slcan_roundtrip_rbind:
  assumes "valid_frame f"
  shows "rbind (build_slcan_msg f) parse_slcan_msg = Inr (clear_tail f)"
proof -
  note v = valid_frameD [OF assms]
  define bs where "bs = take (unat (dlc f)) (data f)"
  define H where "H = setw (CHR ''0'') 8 (hex_string False (unat (frame_id f)))"
  define D where "D = setw (CHR ''0'') 1 (hex_string False (unat (dlc f)))"
  define s where "s = CHR ''T'' # H @ D @ concat (map (hex_byte False) bs) @ [CHR 0x0D]"
  have build: "build_slcan_msg f = Inr s"
    using assms by (simp add: build_slcan_msg_def frame_bytes_valid valid_frame_def s_def H_def D_def bs_def)
  have lbs: "length bs = unat (dlc f)" and lH: "length H = 8" and lD: "length D = 1"
    using v frame_id_29 [of f] by (simp_all add: bs_def H_def D_def length_setw_hex)
  have "stoi 16 H = Inr (int (unat (frame_id f)))" and "stoi 16 D = Inr (int (unat (dlc f)))"
    using v frame_id_29 [of f] by (simp_all add: H_def D_def)
  moreover have "substr 1 8 s = Inr H" and "substr 9 1 s = Inr D"
    using lH lD by (simp_all add: substr_def s_def)
  moreover have "parse_slcan_data s 0 (unat (dlc f)) (replicate 8 0)
      = Inr (bs @ replicate (8 - unat (dlc f)) 0)"
  proof -
    have "substr (10 + j * 2) 2 s = Inr (hex_byte False (bs ! j))" if "j < length bs" for j
    proof -
      define P where "P = CHR ''T'' # H @ D"
      have "s = P @ concat (map (hex_byte False) bs) @ [CHR 0x0D]" and "length P = 10"
        using lH lD by (simp_all add: s_def P_def)
      then have "drop (10 + j * 2) s = drop (2 * j) (concat (map (hex_byte False) bs) @ [CHR 0x0D])"
        by (simp add: mult.commute)
      then show ?thesis
        using take_drop_hex_bytes [OF that, of False "[CHR 0x0D]"] that lH lD
        by (simp add: substr_def s_def length_hex_bytes)
    qed
    then show ?thesis
      using v lbs by (subst parse_slcan_data_bytes [of bs]) simp_all
  qed
  ultimately show ?thesis
    using v by (simp add: build parse_slcan_msg_def set_id_fields_plain new_frame_def clear_tail_def
        bs_def Let_def)
qed

lemma slcan_feed_append:
  "slcan_feed buf (xs @ ys) =
    (let (b1, l1) = slcan_feed buf xs; (b2, l2) = slcan_feed b1 ys in (b2, l1 @ l2))"
  by (induction buf xs rule: slcan_feed.induct) (simp_all split: prod.splits)

interpretation slcan: chunked slcan_feed
  by unfold_locales (simp_all only: slcan_feed.simps slcan_feed_append)

lemma slcan_feed_line:
  "\<forall>c \<in> set l. \<not> is_line_end c \<Longrightarrow> is_line_end e \<Longrightarrow>
    slcan_feed buf (l @ [e]) = ([], [buf @ l @ [e]])"
  by (induction l arbitrary: buf) simp_all

lemma slcan_feed_lines:
  assumes "\<And>l. l \<in> set ls \<Longrightarrow> \<exists>b e. l = b @ [e] \<and> is_line_end e \<and> (\<forall>c \<in> set b. \<not> is_line_end c)"
  shows "slcan_feed [] (concat ls) = ([], ls)"
  using assms
proof (induction ls)
  case Nil
  then show ?case by simp
next
  case (Cons l ls)
  from Cons.prems [of l] obtain b e
    where l: "l = b @ [e]" "is_line_end e" "\<forall>c \<in> set b. \<not> is_line_end c" by auto
  then have "slcan_feed [] l = ([], [l])" by (simp add: slcan_feed_line)
  moreover have "slcan_feed [] (concat ls) = ([], ls)" by (rule Cons.IH) (simp add: Cons.prems)
  ultimately show ?case by (simp add: slcan_feed_append)
qed

lemma digit_char_not_end [simp]: "d < 16 \<Longrightarrow> \<not> is_line_end (digit_char up d)"
  by (erule less_16_cases; cases up; simp add: digit_char_def is_line_end_def char_of_def bit_simps)

lemma build_slcan_line:
  assumes "build_slcan_msg f = Inr l"
  shows "\<exists>b e. l = b @ [e] \<and> is_line_end e \<and> (\<forall>c \<in> set b. \<not> is_line_end c)"
proof -
  from assms obtain bs where l: "l = (CHR ''T'' # setw (CHR ''0'') 8 (hex_string False (unat (frame_id f)))
     @ setw (CHR ''0'') 1 (hex_string False (unat (dlc f)))
     @ concat (map (hex_byte False) bs)) @ [CHR 0x0D]" (is "l = ?b @ [?e]")
    by (auto simp: build_slcan_msg_def rbind_Inr_iff)
  have 1: "\<not> is_line_end c" if "c \<in> set (setw (CHR ''0'') w (hex_string up n))" for c w up n
    using set_setw_hex [OF that] by auto
  have 2: "\<not> is_line_end c" if "c \<in> set (hex_byte up b)" for c up b
    using hex_byte_set [OF that] by auto
  have "is_line_end ?e" and "\<not> is_line_end (CHR ''T'')"
    by (simp_all add: is_line_end_def)
  moreover from this have "\<forall>c \<in> set ?b. \<not> is_line_end c"
    by (auto dest: 1 2)
  ultimately show ?thesis using l by blast
qed

subsection \<open>The identifier as a number\<close>

lemma unat_pack:
  fixes a :: u32 and w :: "'b::len word"
  assumes "k < 32" and "unat a * 2 ^ k + 2 ^ k \<le> 2 ^ 32" and "unat w < 2 ^ k"
  shows "unat (push_bit k a OR (ucast w AND mask k)) = unat a * 2 ^ k + unat w"
proof -
  have "unat (ucast w AND mask k :: u32) = unat w"
  proof -
    have "unat (ucast w AND mask k :: u32) = take_bit k (take_bit 32 (unat w))"
      by (simp add: take_bit_eq_mask [symmetric] unsigned_take_bit_eq unsigned_ucast_eq)
    also have "\<dots> = unat w"
      using assms(1,3) by (simp add: take_bit_nat_eq_self min_def)
    finally show ?thesis .
  qed
  moreover have "unat (push_bit k a) = unat a * 2 ^ k"
  proof -
    have "unat (push_bit k a) = take_bit 32 (unat a * 2 ^ k)"
      by (subst unsigned_push_bit_eq) (simp add: push_bit_eq_mult)
    moreover have "unat a * 2 ^ k < 2 ^ 32"
      using assms(2) zero_less_power [of "2::nat" k] by linarith
    ultimately show ?thesis by (simp only: take_bit_nat_eq_self)
  qed
  moreover have "push_bit k a OR (ucast w AND mask k) = push_bit k a + (ucast w AND mask k)"
    by (rule disjunctive_add [symmetric]) (auto simp: bit_simps)
  moreover have "unat a * 2 ^ k + unat w < 2 ^ 32" using assms(2,3) by linarith
  ultimately show ?thesis by (simp only: unat_word_ariths) simp
qed

lemma unat_frame_id:
  assumes "unat (ftype f) < 32"
  shows "unat (frame_id f) = priority_num (priority f) * 2 ^ 28 + unat (ftype f) * 2 ^ 23
    + unat (seqnum f) * 2 ^ 18 + unat (destination_id f) * 2 ^ 9 + unat (source_id f)"
proof -
  define a0 :: u32 where "a0 = 0 OR (of_nat (priority_num (priority f)) AND mask (Suc 0))"
  define a1 where "a1 = push_bit 5 a0 OR (ucast (ftype f) AND mask 5)"
  define a2 where "a2 = push_bit 5 a1 OR (ucast (seqnum f) AND mask 5)"
  define a3 where "a3 = push_bit 9 a2 OR (ucast (destination_id f) AND mask 9)"
  have 0: "unat a0 = priority_num (priority f)" "priority_num (priority f) \<le> 1"
    unfolding a0_def by (cases "priority f"; simp)+
  have s: "unat (seqnum f) < 32" and d: "unat (destination_id f) < 512"
    and r: "unat (source_id f) < 512"
    using unsigned_less [of "seqnum f"] unsigned_less [of "destination_id f"]
      unsigned_less [of "source_id f"] by simp_all
  have 1: "unat a1 = unat a0 * 32 + unat (ftype f)"
    unfolding a1_def using 0 assms by (subst unat_pack) simp_all
  have 2: "unat a2 = unat a1 * 32 + unat (seqnum f)"
    unfolding a2_def using 0 1 s assms by (subst unat_pack) simp_all
  have 3: "unat a3 = unat a2 * 512 + unat (destination_id f)"
    unfolding a3_def using 0 1 2 s d assms by (subst unat_pack) simp_all
  have "frame_id f = push_bit 9 a3 OR (ucast (source_id f) AND mask 9)"
    unfolding a3_def a2_def a1_def a0_def frame_id_def Let_def mask_numerals by (rule refl)
  then have "unat (frame_id f) = unat a3 * 512 + unat (source_id f)"
    using 0 1 2 3 s d r assms by (simp only:) (subst unat_pack, simp_all)
  then show ?thesis by (simp add: 0 1 2 3)
qed

subsection \<open>What the parser accepts: lemmas\<close>

lemma parse_digits_take1: "starts_digit b [c] \<Longrightarrow> parse_digits b 0 [c] < b"
  by (auto simp: starts_digit_def split: option.splits if_splits)

lemma stoi_single:
  assumes "stoi 16 t = Inr n" and "length t \<le> 1"
  shows "0 \<le> n \<and> n < 16"
proof -
  obtain c where t: "t = [c]"
    using assms by (cases t) (simp_all add: stoi_def strto_def split_sign_def skip_0x_def starts_digit_def)
  consider "is_space c" | "\<not> is_space c" "c = CHR ''-'' \<or> c = CHR ''+''"
    | "\<not> is_space c" "c \<noteq> CHR ''-''" "c \<noteq> CHR ''+''" by blast
  then have "strto 16 [c] = None \<or> strto 16 [c] = Some (int (parse_digits 16 0 [c])) \<and> starts_digit 16 [c]"
    by cases (auto simp add: strto_def split_sign_def skip_0x_def starts_digit_def Let_def)
  then show ?thesis
    using assms(1) parse_digits_take1 [of 16 c]
    by (auto simp add: t stoi_def simp del: parse_digits.simps split: if_splits)
qed

lemma parse_slcan_data_Inr:
  "parse_slcan_data s i n d = Inr d' \<Longrightarrow> 0 < n \<Longrightarrow> length d' = length d \<and> i + n \<le> length d"
proof (induction n arbitrary: i d)
  case 0
  then show ?case by simp
next
  case (Suc n)
  then show ?case
    by (cases "n = 0") (fastforce simp: rbind_Inr_iff split: if_splits)+
qed

lemma parse_slcan_data_UB:
  assumes "\<And>j. i \<le> j \<Longrightarrow> j \<le> length d \<Longrightarrow>
      \<exists>t v. substr (10 + j * 2) 2 s = Inr t \<and> stoi 16 t = Inr v"
    and "i \<le> length d" and "length d < i + n"
  shows "parse_slcan_data s i n d = Inl Undefined_behaviour"
  using assms
proof (induction n arbitrary: i d)
  case 0
  then show ?case by simp
next
  case (Suc n)
  from Suc.prems(1) [of i] Suc.prems(2) obtain t v
    where tv: "substr (10 + i * 2) 2 s = Inr t" "stoi 16 t = Inr v" by auto
  show ?case
  proof (cases "i < length d")
    case True
    then have "parse_slcan_data s (Suc i) n (d[i := word_of_int v]) = Inl Undefined_behaviour"
      using Suc.prems by (intro Suc.IH) simp_all
    with True tv show ?thesis by simp
  next
    case False
    with tv show ?thesis by simp
  qed
qed

lemma length_parse_slcan_data: "parse_slcan_data s i n d = Inr d' \<Longrightarrow> length d' = length d"
  by (induction s i n d rule: parse_slcan_data.induct) (auto simp: rbind_Inr_iff split: if_splits)

lemma ucast_mask5: "unat (ucast (w AND 31) :: u8) < 32" for w :: u32
proof -
  have "w AND 31 = take_bit 5 w" by (simp add: take_bit_eq_mask mask_numerals)
  then have "unat (ucast (w AND 31) :: u8) = take_bit 8 (take_bit 5 (unat w))"
    by (simp only: unsigned_ucast_eq unsigned_take_bit_eq) simp
  also have "\<dots> = take_bit 5 (unat w)" by (simp add: take_bit_take_bit)
  also have "\<dots> < 2 ^ 5" by (rule take_bit_nat_less_exp)
  finally show ?thesis by simp
qed

subsection \<open>Properties\<close>

text \<open>
  C17. A frame sent on the serial line is read back: for every frame the bus can carry the
  driver builds a line, and parsing the line gives the same frame (data bytes beyond the
  data length code come back as zero).
\<close>

theorem slcan_roundtrip:
  assumes "valid_frame f"
  shows "\<exists>l. build_slcan_msg f = Inr l \<and> parse_slcan_msg l = Inr (clear_tail f)"
  using slcan_roundtrip_rbind [OF assms] by (auto simp: rbind_Inr_iff)

text \<open>
  C21. The serial receiver does not depend on how the bytes arrive: whatever chunks \<open>read\<close>
  returns, a stream of built lines is cut back into exactly these lines, in order, nothing
  stays in the buffer, and each line parses to its frame.
\<close>

theorem slcan_stream:
  assumes "\<forall>f \<in> set fs. valid_frame f"
    and "map build_slcan_msg fs = map Inr ls"
    and "concat chunks = concat ls"
  shows "feed_all slcan_feed [] chunks = ([], ls) \<and>
    map parse_slcan_msg ls = map (\<lambda>f. Inr (clear_tail f)) fs"
proof
  have "\<exists>f. build_slcan_msg f = Inr l" if "l \<in> set ls" for l
  proof -
    from that have "Inr l \<in> set (map build_slcan_msg fs)" by (simp add: assms(2))
    then show ?thesis by auto
  qed
  then have "slcan_feed [] (concat ls) = ([], ls)"
    by (intro slcan_feed_lines) (blast intro: build_slcan_line)
  then show "feed_all slcan_feed [] chunks = ([], ls)"
    by (simp add: slcan.feed_all_concat assms(3))
  have "parse_slcan_msg (ls ! i) = Inr (clear_tail (fs ! i))" if "i < length fs" for i
  proof -
    have len: "length ls = length fs" using arg_cong [OF assms(2), of length] by simp
    have "build_slcan_msg (fs ! i) = Inr (ls ! i)"
      using arg_cong [OF assms(2), of "\<lambda>xs. xs ! i"] that len by simp
    with slcan_roundtrip_rbind [of "fs ! i"] assms(1) that show ?thesis by simp
  qed
  moreover have "length ls = length fs" using arg_cong [OF assms(2), of length] by simp
  ultimately show "map parse_slcan_msg ls = map (\<lambda>f. Inr (clear_tail f)) fs"
    by (intro nth_equalityI) simp_all
qed

text \<open>
  C23. SocketCAN carries a frame exactly: the structure written to the socket has the
  extended-frame flag and is read back as the same frame, all eight data bytes included.
\<close>

theorem socketcan_roundtrip:
  assumes "valid_frame f"
  shows "\<exists>c. socketcan_send f = Inr c \<and> bit (can_id c) 31 \<and> socketcan_recv c = Inr f"
  using socketcan_roundtrip_rbind [OF assms] valid_frameD [OF assms]
  by (auto simp: socketcan_send_def bit_simps CAN_EFF_FLAG_bit split: if_splits)

text \<open>
  C25. The identifier fits the 29 bits of an extended CAN frame, distinguishes any two frames
  whose header fields differ, and orders the bus arbitration: a HIGH frame always has a
  smaller identifier than a LOW one, and among equal priorities a smaller type wins.
\<close>

theorem frame_id_arbitration:
  assumes "valid_frame f" and "valid_frame g"
  shows "unat (frame_id f) < 2 ^ 29
    \<and> (frame_id f = frame_id g \<longleftrightarrow>
        priority f = priority g \<and> ftype f = ftype g \<and> seqnum f = seqnum g
        \<and> destination_id f = destination_id g \<and> source_id f = source_id g)
    \<and> (priority f < priority g \<longrightarrow> frame_id f < frame_id g)
    \<and> (priority f = priority g \<and> ftype f < ftype g \<longrightarrow> frame_id f < frame_id g)"
proof -
  note v = valid_frameD(3) [OF assms(1)] valid_frameD(3) [OF assms(2)]
  note u = unat_frame_id [OF v(1)] unat_frame_id [OF v(2)]
  have b: "unat (seqnum h) < 32 \<and> unat (destination_id h) < 512 \<and> unat (source_id h) < 512" for h
    using unsigned_less [of "seqnum h"] unsigned_less [of "destination_id h"]
      unsigned_less [of "source_id h"] by simp
  have p: "priority_num (priority h) \<le> 1" for h by (cases "priority h") simp_all
  have inj: "priority f = priority g \<and> ftype f = ftype g \<and> seqnum f = seqnum g
      \<and> destination_id f = destination_id g \<and> source_id f = source_id g"
    if "frame_id f = frame_id g"
  proof -
    have "set_id_fields (frame_id f) f = set_id_fields (frame_id g) f" using that by simp
    then have "f\<lparr>priority := priority f, ftype := ftype f, seqnum := seqnum f,
        destination_id := destination_id f, source_id := source_id f\<rparr>
      = f\<lparr>priority := priority g, ftype := ftype g, seqnum := seqnum g,
        destination_id := destination_id g, source_id := source_id g\<rparr>"
      by (simp only: set_id_fields_plain v)
    then show ?thesis by (cases f) simp
  qed
  have "frame_id f = frame_id g" if "priority f = priority g \<and> ftype f = ftype g
      \<and> seqnum f = seqnum g \<and> destination_id f = destination_id g \<and> source_id f = source_id g"
    using that by (simp add: frame_id_def)
  moreover have "frame_id f < frame_id g" if "priority f < priority g"
    using that u b [of f] b [of g] v p [of f] p [of g]
    by (simp add: word_less_nat_alt less_priority_def)
  moreover have "frame_id f < frame_id g" if "priority f = priority g" "ftype f < ftype g"
    using that u b [of f] b [of g] by (simp add: word_less_nat_alt)
  ultimately show ?thesis using inj frame_id_29 [of f] by blast
qed

text \<open>
  What the parser lets through is a frame the bus can carry: at most eight data bytes
  and a type of five bits, whatever the bytes of the line.
\<close>

theorem parse_slcan_valid:
  assumes "parse_slcan_msg s = Inr f"
  shows "valid_frame f"
proof -
  from assms obtain i n u d where n: "substr 9 1 s = Inr u" "stoi 16 u = Inr n"
    and d: "parse_slcan_data s 0 (nat n) (replicate 8 0) = Inr d"
    and f: "f = (set_id_fields i (new_frame 0 0 0))\<lparr>dlc := word_of_int n, data := d\<rparr>"
    by (auto simp: parse_slcan_msg_def rbind_Inr_iff Let_def new_frame_def set_id_fields_def)
  have "length u \<le> 1" using n(1) by (auto simp: substr_def split: if_splits)
  with n(2) have b: "0 \<le> n \<and> n < 16" by (rule stoi_single)
  have "length d = 8 \<and> nat n \<le> 8"
    using parse_slcan_data_Inr [OF d] length_parse_slcan_data [OF d] by (cases "nat n = 0") auto
  moreover have "unat (word_of_int n :: u8) = nat n"
    using b by (simp add: unat_eq_nat_uint uint_word_of_int)
  ultimately show ?thesis
    using ucast_mask5 [of "drop_bit 23 i"]
    by (simp add: f valid_frame_def wf_frame_def set_id_fields_def)
qed

text \<open>
  A length digit above 8 makes the parser write past the end of the frame: a line whose
  length digit is 9 to F and that carries the announced data bytes (nine are enough) is
  undefined behaviour, although the length check of \<open>parse_response\<close> lets it pass.
\<close>

theorem slcan_overlong_undefined:
  assumes "length h = 8" and "stoi 16 h = Inr i"
    and "8 < n" and "n < 16" and "8 < length bs"
  shows "slcan_parse_response ls
      (CHR ''T'' # h @ digit_char up n # concat (map (hex_byte up) bs) @ r)
    = Inl Undefined_behaviour"
proof -
  define s where "s = CHR ''T'' # h @ digit_char up n # concat (map (hex_byte up) bs) @ r"
  have 1: "substr 1 8 s = Inr h" using assms(1) by (simp add: substr_def s_def)
  have 2: "substr 9 1 s = Inr [digit_char up n]" using assms(1) by (simp add: substr_def s_def)
  have "digits_of 16 n = [n]" using assms(4) by (simp add: digits_of.simps)
  then have 3: "stoi 16 [digit_char up n] = Inr (int n)"
    using stoi_setw_hex [of n 0 up] assms(4) by (simp add: setw_def hex_string_def)
  have "\<exists>t v. substr (10 + j * 2) 2 s = Inr t \<and> stoi 16 t = Inr v" if "j \<le> 8" for j
  proof -
    define P where "P = CHR ''T'' # h @ [digit_char up n]"
    have "s = P @ concat (map (hex_byte up) bs) @ r" and "length P = 10"
      using assms(1) by (simp_all add: s_def P_def)
    then have "drop (10 + j * 2) s = drop (2 * j) (concat (map (hex_byte up) bs) @ r)"
      by (simp add: mult.commute)
    moreover have "j < length bs" using that assms(5) by simp
    ultimately have "substr (10 + j * 2) 2 s = Inr (hex_byte up (bs ! j))"
      using take_drop_hex_bytes [of j bs up r] assms(1)
      by (simp add: substr_def s_def length_hex_bytes)
    then show ?thesis by auto
  qed
  then have "parse_slcan_data s 0 n (replicate 8 0) = Inl Undefined_behaviour"
    using assms(3) by (intro parse_slcan_data_UB) simp_all
  then have "parse_slcan_msg s = Inl Undefined_behaviour"
    by (simp add: parse_slcan_msg_def 1 [simplified] 2 [simplified] 3 assms(2) Let_def new_frame_def set_id_fields_def)
  moreover have "10 \<le> length s" using assms(1) by (simp add: s_def)
  ultimately show ?thesis by (simp add: slcan_parse_response_def s_def)
qed

text \<open>
  A failing \<open>read\<close> on the CAN socket is not noticed: the error value -1 becomes a large
  unsigned number, so whatever the memory of \<open>can_msg\<close> holds is delivered as a received frame.
\<close>

theorem socketcan_read_error_delivers:
  assumes "length (can_data c) = 8"
  shows "socketcan_recv_data 0 c = Inl Close_socket \<and>
    (\<exists>f. socketcan_recv_data (- 1) c = Inr f \<and> source_id f = ucast (can_id c AND 511))"
  using assms by (simp add: socketcan_recv_data_def socketcan_recv_def set_id_fields_def unat_gt_0)

subsection \<open>Witnesses\<close>

definition frame_a :: h9frame where
  "frame_a = \<lparr>priority = HIGH, ftype = SET_REG, seqnum = 3, destination_id = 16, source_id = 5,
     dlc = 2, data = [10, 1, 0, 0, 0, 0, 0, 0]\<rparr>"

definition frame_b :: h9frame where
  "frame_b = \<lparr>priority = LOW, ftype = REG_VALUE, seqnum = 4, destination_id = 5, source_id = 16,
     dlc = 3, data = [10, 255, 171, 0, 0, 0, 0, 0]\<rparr>"

lemma sample_frames_valid: "valid_frame frame_a" "valid_frame frame_b"
  by (simp_all add: frame_a_def frame_b_def valid_frame_def wf_frame_def)

theorem slcan_roundtrip_witness:
  "\<exists>l. build_slcan_msg frame_b = Inr l \<and> parse_slcan_msg l = Inr (clear_tail frame_b)"
  by (rule slcan_roundtrip [OF sample_frames_valid(2)])

theorem slcan_stream_witness:
  "\<exists>ls. map build_slcan_msg [frame_a, frame_b] = map Inr ls \<and>
    feed_all slcan_feed [] [take 3 (concat ls), [], drop 3 (concat ls)] = ([], ls) \<and>
    map parse_slcan_msg ls = [Inr (clear_tail frame_a), Inr (clear_tail frame_b)]"
proof -
  obtain la lb where l: "build_slcan_msg frame_a = Inr la" "build_slcan_msg frame_b = Inr lb"
    using slcan_roundtrip_rbind [OF sample_frames_valid(1)] slcan_roundtrip_rbind [OF sample_frames_valid(2)]
    by (auto simp: rbind_Inr_iff)
  let ?s = "concat [la, lb]"
  have "feed_all slcan_feed [] [take 3 ?s, [], drop 3 ?s] = ([], [la, lb]) \<and>
      map parse_slcan_msg [la, lb] = map (\<lambda>f. Inr (clear_tail f)) [frame_a, frame_b]"
    by (rule slcan_stream [where fs = "[frame_a, frame_b]"])
       (simp_all only: l sample_frames_valid list.map list.set ball_simps append_Nil concat.simps
          append_take_drop_id append_Nil2 simp_thms insert_iff empty_iff ball_empty ball_simps(7))
  with l show ?thesis by (intro exI [of _ "[la, lb]"]) simp
qed

theorem socketcan_roundtrip_witness:
  "\<exists>c. socketcan_send frame_b = Inr c \<and> bit (can_id c) 31 \<and> socketcan_recv c = Inr frame_b"
  by (rule socketcan_roundtrip [OF sample_frames_valid(2)])

theorem frame_id_arbitration_witness:
  "unat (frame_id frame_a) < 2 ^ 29 \<and> frame_id frame_a < frame_id frame_b"
proof -
  have "priority frame_a < priority frame_b" by (simp add: frame_a_def frame_b_def)
  with frame_id_arbitration [OF sample_frames_valid] show ?thesis by blast
qed

theorem parse_slcan_valid_witness:
  "\<exists>l. parse_slcan_msg l = Inr (clear_tail frame_b) \<and> valid_frame (clear_tail frame_b)"
proof -
  obtain l where "parse_slcan_msg l = Inr (clear_tail frame_b)"
    using slcan_roundtrip_rbind [OF sample_frames_valid(2)] by (auto simp: rbind_Inr_iff)
  with parse_slcan_valid [OF this] show ?thesis by blast
qed

theorem slcan_overlong_undefined_witness:
  "slcan_parse_response False
     (CHR ''T'' # ''00000000'' @ digit_char False 9
       # concat (map (hex_byte False) (replicate 9 0)) @ [CHR 0x0D])
   = Inl Undefined_behaviour"
proof -
  have "digit_char False 0 = CHR ''0''" by (simp add: digit_char_def char_of_def bit_simps)
  then have "setw (CHR ''0'') 8 (hex_string False 0) = ''00000000''"
    by (simp add: setw_def hex_string_def digits_of.simps numeral_eq_Suc)
  then have "stoi 16 ''00000000'' = Inr 0" using stoi_setw_hex [of 0 8 False] by simp
  then show ?thesis by (intro slcan_overlong_undefined) simp_all
qed

theorem socketcan_read_error_delivers_witness:
  "\<exists>f. socketcan_recv_data (- 1) \<lparr>can_id = 7, can_dlc = 200, can_data = replicate 8 1\<rparr> = Inr f
    \<and> source_id f = 7"
  using socketcan_read_error_delivers [of "\<lparr>can_id = 7, can_dlc = 200, can_data = replicate 8 1\<rparr>"]
  by simp

end
