(* ===== verification/H9_SocketMgr.thy ===== *)
theory H9_SocketMgr
  imports H9_Prelude
begin

text \<open>
  \<open>h9bus/socketmgr.{h,cc}\<close>: the set of sockets watched by \<open>select\<close>. A socket object is an
  identity \<open>'k\<close> (its address); the descriptor it currently holds is read through a function,
  because the manager reads it from the object at the time of the call. \<open>sm_set\<close> lists the
  registered sockets in the iteration order of the \<open>std::set\<close>, \<open>sm_fds\<close> is the
  \<open>fd_set\<close> handed to \<open>select\<close>, \<open>sm_max\<close> the member \<open>socket_max\<close>.
\<close>

subsection \<open>Operations\<close>

record 'k socketmgr =
  sm_set :: "'k list"
  sm_max :: int
  sm_fds :: "int set"

definition new_socketmgr :: "'k socketmgr" where
  "new_socketmgr = \<lparr>sm_set = [], sm_max = 0, sm_fds = {}\<rparr>"

definition register_socket :: "('k \<Rightarrow> int) \<Rightarrow> 'k \<Rightarrow> 'k socketmgr \<Rightarrow> 'k socketmgr res" where
  "register_socket fd k sm =
     (if fd k = 0 then Inl Assertion_failed
      else Inr (sm\<lparr>sm_fds := insert (fd k) (sm_fds sm),
                   sm_set := (if k \<in> set (sm_set sm) then sm_set sm else sm_set sm @ [k]),
                   sm_max := (if fd k > sm_max sm then fd k else sm_max sm)\<rparr>))"

fun max_fd :: "('k \<Rightarrow> int) \<Rightarrow> 'k list \<Rightarrow> int \<Rightarrow> int" where
  \<comment> \<open>the \<open>for_each\<close> of \<open>unregister_socket\<close>, with \<open>socket_max\<close> as accumulator\<close>
  "max_fd fd [] m = m"
| "max_fd fd (k # ks) m = max_fd fd ks (if fd k > m then fd k else m)"

definition unregister_socket :: "('k \<Rightarrow> int) \<Rightarrow> 'k \<Rightarrow> 'k socketmgr \<Rightarrow> 'k socketmgr" where
  "unregister_socket fd k sm =
     (if fd k \<noteq> 0 then
        let sm1 = sm\<lparr>sm_fds := sm_fds sm - {fd k}, sm_set := removeAll k (sm_set sm)\<rparr> in
        if fd k \<ge> sm_max sm1 then
          let sm2 = sm1\<lparr>sm_max := max_fd fd (sm_set sm1) 0\<rparr> in sm2\<lparr>sm_max := fd k\<rparr>
        else sm1
      else sm)"

datatype select_result = Select_error int | Select_timeout | Select_ready "int set"

definition EINTR :: int where "EINTR = 4"

fun dispatch_ready ::
  "('s \<Rightarrow> 'k \<Rightarrow> int) \<Rightarrow> ('k \<Rightarrow> 's \<Rightarrow> cxx_error option \<times> 's) \<Rightarrow> ('k \<Rightarrow> 's \<Rightarrow> 's) \<Rightarrow> int set \<Rightarrow>
   'k list \<Rightarrow> 's \<Rightarrow> cxx_error option \<times> 's" where
  \<comment> \<open>the loop over the ready sockets: \<open>on_select\<close>, and \<open>on_close\<close> of the same socket when a
      \<open>CloseSocketException\<close> comes out of it; any other exception leaves the loop. The list is
      the order in which the iterator reaches the sockets, those inserted meanwhile included\<close>
  "dispatch_ready fd sel cls ready [] s = (None, s)"
| "dispatch_ready fd sel cls ready (k # ks) s =
     (if fd s k \<in> ready then
        (case sel k s of
           (None, s1) \<Rightarrow> dispatch_ready fd sel cls ready ks s1
         | (Some Close_socket, s1) \<Rightarrow> dispatch_ready fd sel cls ready ks (cls k s1)
         | (Some e, s1) \<Rightarrow> (Some e, s1))
      else dispatch_ready fd sel cls ready ks s)"

definition select_round ::
  "('s \<Rightarrow> 'k \<Rightarrow> int) \<Rightarrow> ('k \<Rightarrow> 's \<Rightarrow> cxx_error option \<times> 's) \<Rightarrow> ('k \<Rightarrow> 's \<Rightarrow> 's) \<Rightarrow> ('s \<Rightarrow> 's) \<Rightarrow>
   ('s \<Rightarrow> 's) \<Rightarrow> select_result \<Rightarrow> 'k list \<Rightarrow> 's \<Rightarrow> cxx_error option \<times> 's" where
  \<comment> \<open>one turn of \<open>select_loop\<close>; the result of \<open>select\<close> is an input, \<open>after\<close> and \<open>cron\<close> the
      two callbacks\<close>
  "select_round fd sel cls cron after r ks s = (case r of
       Select_error e \<Rightarrow> if e = EINTR then (None, s) else (Some (System_error e), s)
     | Select_ready ready \<Rightarrow>
         (case dispatch_ready fd sel cls ready ks s of
            (None, s1) \<Rightarrow> (None, after s1)
          | (Some e, s1) \<Rightarrow> (Some e, s1))
     | Select_timeout \<Rightarrow> (None, after (cron s)))"

subsection \<open>What is watched\<close>

text \<open>
  The life of the manager: a socket object gets a descriptor that no registered socket
  holds and is registered; a socket whose descriptor no other registered socket holds is
  unregistered.
\<close>

inductive sock_step :: "('k \<Rightarrow> int) \<times> 'k socketmgr \<Rightarrow> ('k \<Rightarrow> int) \<times> 'k socketmgr \<Rightarrow> bool" where
  reg: "k \<notin> set (sm_set sm) \<Longrightarrow> \<forall>j \<in> set (sm_set sm). fd j \<noteq> n \<Longrightarrow>
    register_socket (fd(k := n)) k sm = Inr sm' \<Longrightarrow> sock_step (fd, sm) (fd(k := n), sm')"
| unreg: "\<forall>j \<in> set (sm_set sm). j \<noteq> k \<longrightarrow> fd j \<noteq> fd k \<Longrightarrow>
    sock_step (fd, sm) (fd, unregister_socket fd k sm)"

inductive_cases sock_stepE: "sock_step s t"

definition watched :: "('k \<Rightarrow> int) \<times> 'k socketmgr \<Rightarrow> bool" where
  \<comment> \<open>\<open>select(socket_max + 1, ...)\<close> looks at every registered socket\<close>
  "watched s \<longleftrightarrow> (case s of (fd, sm) \<Rightarrow>
     \<forall>k \<in> set (sm_set sm). fd k \<noteq> 0 \<and> fd k < sm_max sm + 1 \<and> fd k \<in> sm_fds sm)"

definition sock_init :: "('k \<Rightarrow> int) \<times> 'k socketmgr \<Rightarrow> bool" where
  "sock_init s \<longleftrightarrow> snd s = new_socketmgr"

lemma watched_register:
  assumes "watched (fd, sm)" and "k \<notin> set (sm_set sm)"
    and "register_socket (fd(k := n)) k sm = Inr sm'"
  shows "watched (fd(k := n), sm')"
  using assms by (fastforce simp: watched_def register_socket_def split: if_splits)

lemma watched_unregister:
  assumes "watched (fd, sm)" and "\<forall>j \<in> set (sm_set sm). j \<noteq> k \<longrightarrow> fd j \<noteq> fd k"
  shows "watched (fd, unregister_socket fd k sm)"
  using assms by (fastforce simp: watched_def unregister_socket_def Let_def)

interpretation sockets: step_system sock_init sock_step watched
proof
  show "sock_init s \<Longrightarrow> watched s" for s :: "('k \<Rightarrow> int) \<times> 'k socketmgr"
    by (cases s) (simp add: sock_init_def watched_def new_socketmgr_def)
  show "watched s \<Longrightarrow> sock_step s t \<Longrightarrow> watched t" for s t :: "('k \<Rightarrow> int) \<times> 'k socketmgr"
    by (erule sock_stepE) (auto intro: watched_register watched_unregister)
qed

lemma max_fd_ge: "m \<le> max_fd fd ks m"
  by (induction ks arbitrary: m) (auto intro: order_trans less_imp_le)

subsection \<open>Properties\<close>

text \<open>
  As long as descriptors are not shared between socket objects, every registered socket is
  watched: in every reachable state its descriptor is set and lies below the bound given to
  \<open>select\<close>, although the maximum is not recomputed correctly.
\<close>

theorem sockets_watched:
  assumes "sock_step\<^sup>*\<^sup>* (fd0, new_socketmgr) (fd, sm)" and "k \<in> set (sm_set sm)"
  shows "fd k \<in> sm_fds sm \<and> fd k < sm_max sm + 1"
proof -
  have "watched (fd, sm)"
    by (rule sockets.reachable_inv [OF _ assms(1)]) (simp add: sock_init_def)
  with assms(2) show ?thesis by (simp add: watched_def)
qed

theorem sockets_watched_witness:
  "\<exists>sm. sock_step\<^sup>*\<^sup>* (\<lambda>_. 0, new_socketmgr) ((\<lambda>_. 0)(''srv'' := 5), sm) \<and>
    (5::int) \<in> sm_fds sm \<and> 5 < sm_max sm + 1"
proof -
  let ?sm = "\<lparr>sm_set = [''srv''], sm_max = 5, sm_fds = {5}\<rparr>"
  have "sock_step (\<lambda>_. 0, new_socketmgr) ((\<lambda>_. 0)(''srv'' := 5), ?sm)"
    by (rule sock_step.reg) (simp_all add: new_socketmgr_def register_socket_def)
  then have *: "sock_step\<^sup>*\<^sup>* (\<lambda>_. 0, new_socketmgr) ((\<lambda>_. 0)(''srv'' := 5), ?sm)" by blast
  show ?thesis
    using sockets_watched [OF *, of "''srv''"] * by (intro exI [of _ ?sm]) simp
qed

text \<open>
  Two defects of \<open>unregister_socket\<close>. The maximum it recomputes over the sockets that
  remain is overwritten with the descriptor just removed, so \<open>socket_max\<close> never goes down.
  And a socket object that keeps the number of a descriptor it has closed clears the watch
  bit of whichever registered socket got that number since: that socket stays registered and
  is never served again.
\<close>

theorem unregister_defects:
  assumes "fd k \<noteq> 0"
  shows "sm_max sm \<le> sm_max (unregister_socket fd k sm)
    \<and> (fd k \<ge> sm_max sm \<longrightarrow> sm_max (unregister_socket fd k sm) = fd k)
    \<and> (\<forall>j. j \<noteq> k \<and> j \<in> set (sm_set sm) \<and> fd j = fd k \<longrightarrow>
        j \<in> set (sm_set (unregister_socket fd k sm)) \<and>
        fd j \<notin> sm_fds (unregister_socket fd k sm))"
  using assms by (auto simp: unregister_socket_def Let_def)

theorem unregister_defects_witness:
  "(let sm = unregister_socket (\<lambda>_. 7) ''driver''
       \<lparr>sm_set = [''client''], sm_max = 7, sm_fds = {7}\<rparr>
    in ''client'' \<in> set (sm_set sm) \<and> 7 \<notin> sm_fds sm \<and> sm_max sm = 7)"
  using unregister_defects [of "\<lambda>_. 7" "''driver''" "\<lparr>sm_set = [''client''], sm_max = 7, sm_fds = {7}\<rparr>"]
  by (simp add: Let_def)

end
