(* ===== verification/H9_Driver.thy ===== *)
theory H9_Driver
  imports H9_Wire H9_SocketMgr
begin

text \<open>
  The bus side of the h9bus daemon: \<open>h9bus/busframe.{h,cc}\<close>, \<open>h9bus/driver.{h,cc}\<close>,
  the sending halves of \<open>drivers/dummy.cc\<close>, \<open>loop.cc\<close>, \<open>socketcan.cc\<close> and
  \<open>slcan.cc\<close>, and \<open>h9bus/busmgr.{h,cc}\<close>. A \<open>BusFrame\<close> is shared between the send
  queues of several drivers and deleted by the last of them, so the frames live in a heap:
  a pointer is a number, \<open>delete\<close> removes the entry and a use of a removed entry is
  \<open>Undefined_behaviour\<close>.

  \<open>std::priority_queue\<close> does not say which of several frames with the same priority is on
  top: the queue is the list of its elements in insertion order and an arbitrary function
  \<open>tie\<close> of the driver's name, of the number of pushes and pops so far and of the elements
  picks one of the best. The results of \<open>write\<close> are an input as well. An operation returns
  the exception that leaves it, if any, and the state it leaves behind.
\<close>

subsection \<open>State\<close>

record busframe =
  bf_frame :: h9frame
  bf_origin :: string
  bf_client :: u64
  bf_msg :: u64
  bf_total :: u32
  bf_completed :: u32

definition new_busframe :: "h9frame \<Rightarrow> string \<Rightarrow> u64 \<Rightarrow> u64 \<Rightarrow> busframe" where
  "new_busframe f origin client msg =
     \<lparr>bf_frame = f, bf_origin = origin, bf_client = client, bf_msg = msg,
      bf_total = 0, bf_completed = 0\<rparr>"

datatype driver_kind = Dummy | Loop | Slcan | SocketCAN

record driver =
  dr_kind :: driver_kind
  dr_name :: string
  dr_socket :: int
  dr_connected :: bool
  dr_retry :: int
  dr_queue :: "nat list"
  dr_epoch :: nat
  dr_sent :: u32
  dr_received :: u32
  dr_last_send :: "nat option"

definition new_driver :: "driver_kind \<Rightarrow> string \<Rightarrow> driver" where
  "new_driver k n =
     \<lparr>dr_kind = k, dr_name = n, dr_socket = 0, dr_connected = False, dr_retry = 10, dr_queue = [],
      dr_epoch = 0, dr_sent = 0, dr_received = 0, dr_last_send = None\<rparr>"

datatype bus_event = Recv_event string busframe | Sent_event string busframe

record store =
  heap :: "nat \<Rightarrow> busframe option"
  next_ptr :: nat
  writes :: nat
  written :: "(string \<times> h9frame) list"
  events :: "bus_event list"

record bus_env =
  tie :: "string \<Rightarrow> nat \<Rightarrow> nat list \<Rightarrow> nat"
  write_ret :: "nat \<Rightarrow> int \<times> int"

definition frame_of :: "store \<Rightarrow> nat \<Rightarrow> h9frame" where
  "frame_of s p = (case heap s p of None \<Rightarrow> new_frame 0 0 0 | Some f \<Rightarrow> bf_frame f)"

definition is_best :: "store \<Rightarrow> nat list \<Rightarrow> nat \<Rightarrow> bool" where
  \<comment> \<open>no element of the queue has a better (smaller) priority\<close>
  "is_best s q p \<longleftrightarrow> list_all (\<lambda>r. priority (frame_of s p) \<le> priority (frame_of s r)) q"

definition queue_top :: "bus_env \<Rightarrow> driver \<Rightarrow> store \<Rightarrow> nat res" where
  "queue_top env d s =
     (let q = dr_queue d; best = filter (is_best s q) q in
      if q = [] \<or> list_ex (\<lambda>p. heap s p = None) q then Inl Undefined_behaviour
      else Inr (best ! (tie env (dr_name d) (dr_epoch d) q mod length best)))"

subsection \<open>Completion and transmission\<close>

definition on_send_frame :: "string \<Rightarrow> nat \<Rightarrow> store \<Rightarrow> cxx_error option \<times> store" where
  \<comment> \<open>\<open>BusMgr::on_send_frame\<close>\<close>
  "on_send_frame endpoint p s = (case heap s p of
       None \<Rightarrow> (Some Undefined_behaviour, s)
     | Some f \<Rightarrow>
         let f1 = f\<lparr>bf_completed := bf_completed f + 1\<rparr>;
             s1 = s\<lparr>heap := (heap s)(p := Some f1), events := events s @ [Sent_event endpoint f1]\<rparr>
         in if bf_completed f1 = bf_total f1
            then (None, s1\<lparr>heap := (heap s1)(p := None)\<rparr>) else (None, s1))"

definition on_recv_frame :: "string \<Rightarrow> h9frame \<Rightarrow> store \<Rightarrow> store" where
  \<comment> \<open>\<open>BusMgr::on_recv_frame\<close>: the frame object is local to the call\<close>
  "on_recv_frame endpoint f s =
     s\<lparr>events := events s @ [Recv_event endpoint (new_busframe f endpoint 0 0)]\<rparr>"

definition is_sync :: "driver_kind \<Rightarrow> bool" where
  \<comment> \<open>\<open>send_data\<close> ends with a call of \<open>on_frame_send\<close>\<close>
  "is_sync k \<longleftrightarrow> k \<noteq> Slcan"

definition write_frame ::
  "bus_env \<Rightarrow> driver \<Rightarrow> nat \<Rightarrow> h9frame \<Rightarrow> store \<Rightarrow> cxx_error option \<times> driver \<times> store" where
  \<comment> \<open>\<open>send_data\<close> up to the call of \<open>on_frame_send\<close>\<close>
  "write_frame env d p f s =
    (let (n, en) = write_ret env (writes s);
         s1 = s\<lparr>writes := writes s + 1\<rparr>;
         s2 = s1\<lparr>written := written s @ [(dr_name d, f)]\<rparr>;
         fail = (if n = 0 \<or> en = ENXIO then Close_socket else System_error en)
     in case dr_kind d of
       Dummy \<Rightarrow> (None, d, s)
     | Loop \<Rightarrow> if n = -1 then (Some (System_error en), d, s1) else (None, d, s2)
     | SocketCAN \<Rightarrow>
         (case socketcan_send f of Inl e \<Rightarrow> (Some e, d, s)
          | Inr _ \<Rightarrow> if n \<le> 0 then (Some fail, d, s1) else (None, d, s2))
     | Slcan \<Rightarrow>
         (case build_slcan_msg f of Inl e \<Rightarrow> (Some e, d, s)
          | Inr _ \<Rightarrow> if n \<le> 0 then (Some fail, d, s1)
                     else (None, d\<lparr>dr_last_send := Some p\<rparr>, s2)))"

lemma write_frame_queue:
  assumes "write_frame env d p f s = (e, d', s')"
  shows "dr_queue d' = dr_queue d \<and> dr_kind d' = dr_kind d \<and> dr_name d' = dr_name d
    \<and> dr_socket d' = dr_socket d \<and> dr_epoch d' = dr_epoch d \<and> heap s' = heap s"
  using assms
  by (auto simp: write_frame_def Let_def split: prod.splits driver_kind.splits sum.splits if_splits)

lemma queue_top_best:
  assumes "queue_top env d s = Inr p"
  shows "p \<in> set (dr_queue d) \<and> is_best s (dr_queue d) p \<and>
    filter (is_best s (dr_queue d)) (dr_queue d) \<noteq> []"
proof -
  let ?q = "dr_queue d" and ?b = "filter (is_best s (dr_queue d)) (dr_queue d)"
  have "?q \<noteq> []" and p: "p = ?b ! (tie env (dr_name d) (dr_epoch d) ?q mod length ?b)"
    using assms by (auto simp: queue_top_def Let_def split: if_splits)
  let ?m = "Min ((\<lambda>r. priority (frame_of s r)) ` set ?q)"
  have "?m \<in> (\<lambda>r. priority (frame_of s r)) ` set ?q"
    using \<open>?q \<noteq> []\<close> by (intro Min_in) simp_all
  then obtain r where "r \<in> set ?q" "priority (frame_of s r) = ?m" by auto
  then have "r \<in> set ?b" by (auto simp: is_best_def list_all_iff)
  then have ne: "?b \<noteq> []" by (auto simp: filter_empty_conv)
  then have "p \<in> set ?b" unfolding p by (intro nth_mem) simp
  with ne show ?thesis by simp
qed

lemma queue_top_in: "queue_top env d s = Inr p \<Longrightarrow> p \<in> set (dr_queue d)"
  by (simp add: queue_top_best)

function on_frame_send ::
  "bus_env \<Rightarrow> driver \<Rightarrow> store \<Rightarrow> cxx_error option \<times> driver \<times> store" where
  \<comment> \<open>\<open>Driver::on_frame_send\<close> with the calls of \<open>send_data\<close> that follow\<close>
  "on_frame_send env d s = (case queue_top env d s of
       Inl e \<Rightarrow> (Some e, d, s)
     | Inr p \<Rightarrow>
         let d1 = d\<lparr>dr_sent := dr_sent d + 1, dr_queue := remove1 p (dr_queue d),
                    dr_epoch := dr_epoch d + 1\<rparr>
         in case on_send_frame (dr_name d) p s of
              (Some e, s1) \<Rightarrow> (Some e, d1, s1)
            | (None, s1) \<Rightarrow>
                if dr_queue d1 = [] then (None, d1, s1)
                else (case queue_top env d1 s1 of
                    Inl e \<Rightarrow> (Some e, d1, s1)
                  | Inr p2 \<Rightarrow>
                      (case write_frame env d1 p2 (frame_of s1 p2) s1 of
                         (Some e, d2, s2) \<Rightarrow> (Some e, d2, s2)
                       | (None, d2, s2) \<Rightarrow>
                           if is_sync (dr_kind d2) then on_frame_send env d2 s2
                           else (None, d2, s2))))"
  by pat_completeness auto
termination
  by (relation "measure (\<lambda>(env, d, s). length (dr_queue d))")
     (auto simp: length_remove1 dest!: write_frame_queue [OF sym] queue_top_in
       intro!: diff_less intro: length_pos_if_in_set)

declare on_frame_send.simps [simp del]

definition driver_send_data :: "bus_env \<Rightarrow> driver \<Rightarrow> store \<Rightarrow> cxx_error option \<times> driver \<times> store" where
  \<comment> \<open>\<open>send_data(send_queue.top()->get_frame())\<close>\<close>
  "driver_send_data env d s = (case queue_top env d s of
       Inl e \<Rightarrow> (Some e, d, s)
     | Inr p \<Rightarrow>
         (case write_frame env d p (frame_of s p) s of
            (Some e, d1, s1) \<Rightarrow> (Some e, d1, s1)
          | (None, d1, s1) \<Rightarrow>
              if is_sync (dr_kind d1) then on_frame_send env d1 s1 else (None, d1, s1)))"

definition driver_send_frame ::
  "bus_env \<Rightarrow> nat \<Rightarrow> driver \<Rightarrow> store \<Rightarrow> cxx_error option \<times> driver \<times> store" where
  \<comment> \<open>\<open>Driver::send_frame\<close>\<close>
  "driver_send_frame env p d s =
     (if dr_socket d = 0 then (None, d, s)
      else let queue_empty = (dr_queue d = []);
               d1 = d\<lparr>dr_queue := dr_queue d @ [p], dr_epoch := dr_epoch d + 1\<rparr>
           in if queue_empty then driver_send_data env d1 s else (None, d1, s))"

definition driver_on_frame_recv :: "h9frame \<Rightarrow> driver \<Rightarrow> store \<Rightarrow> driver \<times> store" where
  "driver_on_frame_recv f d s =
     (d\<lparr>dr_received := dr_received d + 1\<rparr>, on_recv_frame (dr_name d) f s)"

definition slcan_line :: "bus_env \<Rightarrow> string \<Rightarrow> driver \<Rightarrow> store \<Rightarrow> cxx_error option \<times> driver \<times> store" where
  \<comment> \<open>\<open>Slcan::parse_response\<close> with its callbacks\<close>
  "slcan_line env r d s = (case slcan_parse_response (dr_last_send d \<noteq> None) r of
       Inl e \<Rightarrow> (Some e, d, s)
     | Inr (_, Nothing) \<Rightarrow> (None, d, s)
     | Inr (_, Frame_received f) \<Rightarrow> (let (d1, s1) = driver_on_frame_recv f d s in (None, d1, s1))
     | Inr (_, Frame_sent) \<Rightarrow> on_frame_send env (d\<lparr>dr_last_send := None\<rparr>) s)"

definition driver_on_close :: "driver \<Rightarrow> driver" where
  \<comment> \<open>the descriptor is closed, its number stays in the object\<close>
  "driver_on_close d = d\<lparr>dr_connected := False\<rparr>"

datatype counter_type = SEND_FRAMES | RECEIVED_FRAMES

fun get_counter :: "counter_type \<Rightarrow> driver \<Rightarrow> u32" where
  "get_counter SEND_FRAMES d = dr_sent d"
| "get_counter RECEIVED_FRAMES d = dr_received d"
subsection \<open>BusMgr\<close>

datatype sock_id = Driver_socket string | Other_socket nat

record busmgr =
  bm_dev :: "(string \<times> driver) list"
  bm_store :: store
  bm_sockets :: "sock_id socketmgr"

fun send_to_all ::
  "bus_env \<Rightarrow> nat \<Rightarrow> (string \<times> driver) list \<Rightarrow> store \<Rightarrow>
   cxx_error option \<times> (string \<times> driver) list \<times> store" where
  \<comment> \<open>the loop over \<open>dev\<close>: \<open>inc_total_endpoint_count\<close> and \<open>send_frame\<close> in turn\<close>
  "send_to_all env p [] s = (None, [], s)"
| "send_to_all env p ((n, d) # ds) s = (case heap s p of
       None \<Rightarrow> (Some Undefined_behaviour, (n, d) # ds, s)
     | Some f \<Rightarrow>
         let s1 = s\<lparr>heap := (heap s)(p := Some (f\<lparr>bf_total := bf_total f + 1\<rparr>))\<rparr> in
         case driver_send_frame env p d s1 of
           (Some e, d1, s2) \<Rightarrow> (Some e, (n, d1) # ds, s2)
         | (None, d1, s2) \<Rightarrow>
             (let (e, ds1, s3) = send_to_all env p ds s2 in (e, (n, d1) # ds1, s3)))"

fun send_to_one ::
  "bus_env \<Rightarrow> string \<Rightarrow> nat \<Rightarrow> (string \<times> driver) list \<Rightarrow> store \<Rightarrow>
   cxx_error option \<times> (string \<times> driver) list \<times> store" where
  \<comment> \<open>\<open>dev[endpoint]\<close>, when it exists\<close>
  "send_to_one env endpoint p [] s = (None, [], s)"
| "send_to_one env endpoint p ((n, d) # ds) s =
     (if n = endpoint then
        (let (e, ds1, s1) = send_to_all env p [(n, d)] s in (e, ds1 @ ds, s1))
      else (let (e, ds1, s1) = send_to_one env endpoint p ds s in (e, (n, d) # ds1, s1)))"

definition bus_send_frame ::
  "bus_env \<Rightarrow> h9frame \<Rightarrow> string \<Rightarrow> u64 \<Rightarrow> u64 \<Rightarrow> string \<Rightarrow> busmgr \<Rightarrow> cxx_error option \<times> busmgr" where
  \<comment> \<open>\<open>BusMgr::send_frame\<close>\<close>
  "bus_send_frame env f origin client msg endpoint b =
    (let s = bm_store b; p = next_ptr s;
         s1 = s\<lparr>heap := (heap s)(p := Some (new_busframe f origin client msg)), next_ptr := p + 1\<rparr>;
         (e, ds, s2) = (if endpoint = [] then send_to_all env p (bm_dev b) s1
                        else send_to_one env endpoint p (bm_dev b) s1)
     in (e, b\<lparr>bm_dev := ds, bm_store := s2\<rparr>))"

fun upd_dev ::
  "string \<Rightarrow> (driver \<Rightarrow> store \<Rightarrow> cxx_error option \<times> driver \<times> store) \<Rightarrow>
   (string \<times> driver) list \<Rightarrow> store \<Rightarrow> cxx_error option \<times> (string \<times> driver) list \<times> store" where
  "upd_dev n g [] s = (None, [], s)"
| "upd_dev n g ((m, d) # ds) s =
     (if m = n then (let (e, d1, s1) = g d s in (e, (m, d1) # ds, s1))
      else (let (e, ds1, s1) = upd_dev n g ds s in (e, (m, d) # ds1, s1)))"

definition bus_slcan_line :: "bus_env \<Rightarrow> string \<Rightarrow> string \<Rightarrow> busmgr \<Rightarrow> cxx_error option \<times> busmgr" where
  \<comment> \<open>a line arrives at the serial driver of the endpoint\<close>
  "bus_slcan_line env n r b =
    (let (e, ds, s) = upd_dev n (slcan_line env r) (bm_dev b) (bm_store b)
     in (e, b\<lparr>bm_dev := ds, bm_store := s\<rparr>))"

definition get_dev_list :: "busmgr \<Rightarrow> string list" where
  "get_dev_list b = map fst (bm_dev b)"

definition get_dev_counter :: "string \<Rightarrow> counter_type \<Rightarrow> busmgr \<Rightarrow> u32 res" where
  \<comment> \<open>\<open>dev[dev_name]\<close> creates a null pointer for an unknown name, which is then followed\<close>
  "get_dev_counter n c b = (case map_of (bm_dev b) n of
     None \<Rightarrow> Inl Undefined_behaviour | Some d \<Rightarrow> Inr (get_counter c d))"

fun cron_devs ::
  "(string \<Rightarrow> int option) \<Rightarrow> (string \<times> driver) list \<Rightarrow> sock_id socketmgr \<Rightarrow>
   cxx_error option \<times> (string \<times> driver) list \<times> sock_id socketmgr" where
  \<comment> \<open>\<open>BusMgr::cron\<close>; the argument is the outcome of \<open>open()\<close>: a descriptor or an exception\<close>
  "cron_devs opn [] sm = (None, [], sm)"
| "cron_devs opn ((n, d) # ds) sm =
     (if \<not> dr_connected d \<and> dr_retry d \<noteq> 0 then
        (case opn n of
           Some fd \<Rightarrow>
             (let d1 = d\<lparr>dr_socket := fd, dr_connected := True\<rparr> in
              case register_socket (\<lambda>_. fd) (Driver_socket n) sm of
                Inl e \<Rightarrow> (Some e, (n, d1) # ds, sm)
              | Inr sm1 \<Rightarrow> (let (e, ds1, sm2) = cron_devs opn ds sm1 in (e, (n, d1) # ds1, sm2)))
         | None \<Rightarrow>
             (let d1 = d\<lparr>dr_retry := dr_retry d - 1\<rparr>;
                  d2 = (if dr_retry d1 = 0 then driver_on_close d1 else d1);
                  (e, ds1, sm1) = cron_devs opn ds sm
              in (e, (n, d2) # ds1, sm1)))
      else (let (e, ds1, sm1) = cron_devs opn ds sm in (e, (n, d) # ds1, sm1)))"

fun flush_devs ::
  "(sock_id \<Rightarrow> int) \<Rightarrow> (string \<times> driver) list \<Rightarrow> sock_id socketmgr \<Rightarrow>
   (string \<times> driver) list \<times> sock_id socketmgr" where
  \<comment> \<open>\<open>BusMgr::flush_dev\<close>\<close>
  "flush_devs fd [] sm = ([], sm)"
| "flush_devs fd ((n, d) # ds) sm =
     (if \<not> dr_connected d then
        let sm1 = unregister_socket fd (Driver_socket n) sm in
        if dr_retry d = 0 then flush_devs fd ds sm1
        else (let (ds1, sm2) = flush_devs fd ds sm1 in ((n, d) # ds1, sm2))
      else (let (ds1, sm2) = flush_devs fd ds sm in ((n, d) # ds1, sm2)))"

definition socket_fd :: "(nat \<Rightarrow> int) \<Rightarrow> (string \<times> driver) list \<Rightarrow> sock_id \<Rightarrow> int" where
  "socket_fd others ds k = (case k of
       Driver_socket n \<Rightarrow> (case map_of ds n of None \<Rightarrow> 0 | Some d \<Rightarrow> dr_socket d)
     | Other_socket i \<Rightarrow> others i)"

definition bus_maintenance ::
  "(nat \<Rightarrow> int) \<Rightarrow> (string \<Rightarrow> int option) \<Rightarrow> (string \<times> driver) list \<times> sock_id socketmgr \<Rightarrow>
   (string \<times> driver) list \<times> sock_id socketmgr" where
  \<comment> \<open>an idle turn of the main loop: \<open>cron\<close>, then \<open>flush_dev\<close>\<close>
  "bus_maintenance others opn bs =
    (let (ds, sm) = bs; (e, ds1, sm1) = cron_devs opn ds sm
     in flush_devs (socket_fd others ds1) ds1 sm1)"

fun send_many :: "bus_env \<Rightarrow> nat list \<Rightarrow> driver \<Rightarrow> store \<Rightarrow> driver \<times> store" where
  "send_many env [] d s = (d, s)"
| "send_many env (p # ps) d s =
     (let (e, d1, s1) = driver_send_frame env p d s in send_many env ps d1 s1)"

subsection \<open>Lemmas: one frame in the queue\<close>

lemma queue_top_single:
  "dr_queue d = [p] \<Longrightarrow> heap s p = Some f \<Longrightarrow> queue_top env d s = Inr p"
  by (simp add: queue_top_def is_best_def Let_def)

lemma frame_of_live: "heap s p = Some f \<Longrightarrow> frame_of s p = bf_frame f"
  by (simp add: frame_of_def)

definition write_ok :: "bus_env \<Rightarrow> store \<Rightarrow> bool" where
  "write_ok env s \<longleftrightarrow> 0 < fst (write_ret env (writes s))"

definition transmitted :: "driver \<Rightarrow> h9frame \<Rightarrow> store \<Rightarrow> store" where
  "transmitted d f s = (if dr_kind d = Dummy then s
     else s\<lparr>writes := writes s + 1, written := written s @ [(dr_name d, f)]\<rparr>)"

lemma write_frame_sync:
  assumes "is_sync (dr_kind d)" and "write_ok env s" and "length (data f) = 8"
  shows "write_frame env d p f s = (None, d, transmitted d f s)"
  using assms
  by (cases "dr_kind d")
     (auto simp: is_sync_def write_frame_def write_ok_def transmitted_def socketcan_send_def
       split: prod.splits)

lemma on_send_frame_last:
  assumes "heap s p = Some f" and "bf_completed f + 1 = bf_total f"
  shows "on_send_frame n p s = (None, s\<lparr>heap := (heap s)(p := None),
     events := events s @ [Sent_event n (f\<lparr>bf_completed := bf_completed f + 1\<rparr>)]\<rparr>)"
  using assms by (simp add: on_send_frame_def Let_def)

lemma send_frame_sync_idle:
  assumes "is_sync (dr_kind d)" and "dr_queue d = []" and "dr_socket d \<noteq> 0"
    and "heap s p = Some f" and "bf_completed f + 1 = bf_total f"
    and "write_ok env s" and "length (data (bf_frame f)) = 8"
  shows "driver_send_frame env p d s =
    (None, d\<lparr>dr_sent := dr_sent d + 1, dr_epoch := dr_epoch d + 2\<rparr>,
     (transmitted d (bf_frame f) s)\<lparr>heap := (heap s)(p := None),
       events := events s @ [Sent_event (dr_name d) (f\<lparr>bf_completed := bf_completed f + 1\<rparr>)]\<rparr>)"
proof -
  let ?d = "d\<lparr>dr_queue := [p], dr_epoch := Suc (dr_epoch d)\<rparr>"
  let ?s = "transmitted d (bf_frame f) s"
  have h: "heap ?s = heap s" "events ?s = events s" by (simp_all add: transmitted_def)
  have t: "transmitted ?d (bf_frame f) s = ?s" by (simp add: transmitted_def)
  have w: "write_frame env ?d p (bf_frame f) s = (None, ?d, ?s)"
    using write_frame_sync [of ?d env s "bf_frame f" p] assms by (simp add: t)
  have "driver_send_frame env p d s = on_frame_send env ?d ?s"
    using assms w by (simp add: driver_send_frame_def driver_send_data_def queue_top_single frame_of_live)
  also have "\<dots> = (None, d\<lparr>dr_sent := dr_sent d + 1, dr_epoch := dr_epoch d + 2\<rparr>,
     ?s\<lparr>heap := (heap s)(p := None),
       events := events s @ [Sent_event (dr_name d) (f\<lparr>bf_completed := bf_completed f + 1\<rparr>)]\<rparr>)"
    using assms h by (subst on_frame_send.simps)
      (simp add: queue_top_single on_send_frame_last Let_def)
  finally show ?thesis .
qed
subsection \<open>Lemmas: the serial driver\<close>

lemma build_slcan_ok: "valid_frame f \<Longrightarrow> \<exists>l. build_slcan_msg f = Inr l"
  by (simp add: build_slcan_msg_def frame_bytes_valid valid_frame_def)

lemma write_frame_slcan:
  assumes "dr_kind d = Slcan" and "write_ok env s" and "valid_frame f"
  shows "write_frame env d p f s = (None, d\<lparr>dr_last_send := Some p\<rparr>,
    s\<lparr>writes := writes s + 1, written := written s @ [(dr_name d, f)]\<rparr>)"
  using assms build_slcan_ok [OF assms(3)]
  by (auto simp: write_frame_def write_ok_def split: prod.splits)

lemma send_slcan_idle:
  assumes "dr_kind d = Slcan" and "dr_socket d \<noteq> 0" and "dr_queue d = []"
    and "heap s p = Some f" and "valid_frame (bf_frame f)" and "write_ok env s"
  shows "driver_send_frame env p d s =
    (None, d\<lparr>dr_queue := [p], dr_epoch := Suc (dr_epoch d), dr_last_send := Some p\<rparr>,
     s\<lparr>writes := writes s + 1, written := written s @ [(dr_name d, bf_frame f)]\<rparr>)"
proof -
  let ?d = "d\<lparr>dr_queue := [p], dr_epoch := Suc (dr_epoch d)\<rparr>"
  have "write_frame env ?d p (bf_frame f) s = (None, ?d\<lparr>dr_last_send := Some p\<rparr>,
      s\<lparr>writes := writes s + 1, written := written s @ [(dr_name d, bf_frame f)]\<rparr>)"
    using write_frame_slcan [of ?d env s "bf_frame f" p] assms by simp
  with assms show ?thesis
    by (simp add: driver_send_frame_def driver_send_data_def queue_top_single frame_of_live is_sync_def)
qed

lemma slcan_ack: "dr_last_send d \<noteq> None \<Longrightarrow>
    slcan_line env [CHR 0x0D] d s = on_frame_send env (d\<lparr>dr_last_send := None\<rparr>) s"
  by (simp add: slcan_line_def slcan_parse_response_def)

lemma slcan_no_ack: "dr_last_send d = None \<Longrightarrow> slcan_line env [CHR 0x0D] d s = (None, d, s)"
  by (simp add: slcan_line_def slcan_parse_response_def)

lemma on_frame_send_step:
  assumes "queue_top env d s = Inr p" and "on_send_frame (dr_name d) p s = (None, s1)"
    and "d1 = d\<lparr>dr_sent := dr_sent d + 1, dr_queue := remove1 p (dr_queue d),
      dr_epoch := dr_epoch d + 1\<rparr>"
  shows "on_frame_send env d s = (if dr_queue d1 = [] then (None, d1, s1)
     else case queue_top env d1 s1 of Inl e \<Rightarrow> (Some e, d1, s1)
       | Inr p2 \<Rightarrow> (case write_frame env d1 p2 (frame_of s1 p2) s1 of
           (Some e, d2, s2) \<Rightarrow> (Some e, d2, s2)
         | (None, d2, s2) \<Rightarrow> if is_sync (dr_kind d2) then on_frame_send env d2 s2
                         else (None, d2, s2)))"
  by (subst on_frame_send.simps)
     (simp only: assms(1,2) Let_def assms(3) [symmetric] sum.case option.case prod.case)

lemma on_send_frame_live:
  assumes "heap s p = Some f"
  shows "\<exists>s1. on_send_frame n p s = (None, s1) \<and>
    events s1 = events s @ [Sent_event n (f\<lparr>bf_completed := bf_completed f + 1\<rparr>)] \<and>
    (\<forall>q. q \<noteq> p \<longrightarrow> heap s1 q = heap s q) \<and> written s1 = written s"
  using assms by (simp add: on_send_frame_def Let_def)

lemma queue_top_cong:
  assumes "dr_name d = dr_name d'" "dr_epoch d = dr_epoch d'" "dr_queue d = dr_queue d'"
    and "\<And>p. p \<in> set (dr_queue d) \<Longrightarrow> heap s p = heap s' p"
  shows "queue_top env d s = queue_top env d' s'"
proof -
  have "frame_of s p = frame_of s' p" if "p \<in> set (dr_queue d)" for p
    using assms(4) [OF that] by (simp add: frame_of_def)
  then have "is_best s (dr_queue d) p = is_best s' (dr_queue d) p" if "p \<in> set (dr_queue d)" for p
    using that by (auto simp: is_best_def list_all_iff)
  then have "filter (is_best s (dr_queue d)) (dr_queue d) = filter (is_best s' (dr_queue d)) (dr_queue d)"
    by (intro filter_cong) simp_all
  then show ?thesis
    using assms by (simp add: queue_top_def Let_def list_ex_iff)
qed

lemma queue_top_total:
  assumes "dr_queue d \<noteq> []" and "\<forall>p \<in> set (dr_queue d). heap s p \<noteq> None"
  shows "\<exists>p. queue_top env d s = Inr p"
  using assms by (simp add: queue_top_def Let_def list_ex_iff)

subsection \<open>The frame in flight\<close>

text \<open>
  \<open>keeps_top env\<close> states the behaviour of the binary heap in \<open>std::push_heap\<close>: a pushed
  element that is not better than the top element does not replace it.
\<close>

definition keeps_top :: "bus_env \<Rightarrow> bool" where
  "keeps_top env \<longleftrightarrow> (\<forall>d s p t. queue_top env d s = Inr t \<and> heap s p \<noteq> None \<and>
     priority (frame_of s t) \<le> priority (frame_of s p) \<longrightarrow>
     queue_top env (d\<lparr>dr_queue := dr_queue d @ [p], dr_epoch := dr_epoch d + 1\<rparr>) s = Inr t)"

text \<open>
  The life of one serial driver: frames no better than the one in flight are sent, and
  acknowledgements arrive. All writes succeed.
\<close>

inductive slcan_step :: "bus_env \<Rightarrow> driver \<times> store \<Rightarrow> driver \<times> store \<Rightarrow> bool" for env where
  push: "heap s p = Some f \<Longrightarrow> valid_frame (bf_frame f) \<Longrightarrow> p \<notin> set (dr_queue d) \<Longrightarrow>
    (\<And>t. dr_last_send d = Some t \<Longrightarrow> priority (frame_of s t) \<le> priority (bf_frame f)) \<Longrightarrow>
    driver_send_frame env p d s = (e, d', s') \<Longrightarrow> slcan_step env (d, s) (d', s')"
| ack: "slcan_line env [CHR 0x0D] d s = (e, d', s') \<Longrightarrow> slcan_step env (d, s) (d', s')"
| alloc: "heap s p = None \<Longrightarrow> valid_frame (bf_frame f) \<Longrightarrow> p \<notin> set (dr_queue d) \<Longrightarrow>
    slcan_step env (d, s) (d, s\<lparr>heap := (heap s)(p := Some f)\<rparr>)"

inductive_cases slcan_stepE: "slcan_step env s t"

definition in_flight :: "bus_env \<Rightarrow> driver \<times> store \<Rightarrow> bool" where
  \<comment> \<open>the driver waits for the acknowledgement of the frame on top, the last one written\<close>
  "in_flight env ds = (case ds of (d, s) \<Rightarrow>
     dr_kind d = Slcan \<and> dr_socket d \<noteq> 0 \<and> distinct (dr_queue d) \<and>
     (\<forall>p \<in> set (dr_queue d). \<exists>f. heap s p = Some f \<and> valid_frame (bf_frame f)) \<and>
     (case dr_last_send d of
        None \<Rightarrow> dr_queue d = []
      | Some t \<Rightarrow> queue_top env d s = Inr t \<and> written s \<noteq> [] \<and>
          last (written s) = (dr_name d, frame_of s t)))"

definition slcan_idle :: "driver \<times> store \<Rightarrow> bool" where
  "slcan_idle ds \<longleftrightarrow> dr_kind (fst ds) = Slcan \<and> dr_socket (fst ds) \<noteq> 0 \<and>
     dr_queue (fst ds) = [] \<and> dr_last_send (fst ds) = None"

lemma in_flight_push:
  assumes "in_flight env (d, s)" and "keeps_top env" and "\<forall>n. 0 < fst (write_ret env n)"
    and "heap s p = Some f" and "valid_frame (bf_frame f)" and "p \<notin> set (dr_queue d)"
    and "\<And>t. dr_last_send d = Some t \<Longrightarrow> priority (frame_of s t) \<le> priority (bf_frame f)"
    and "driver_send_frame env p d s = (e, d', s')"
  shows "in_flight env (d', s')"
proof (cases "dr_last_send d")
  case None
  from None assms(1) have d: "dr_kind d = Slcan" "dr_socket d \<noteq> 0" "dr_queue d = []"
    by (simp_all add: in_flight_def)
  have "write_ok env s" using assms(3) by (simp add: write_ok_def)
  from send_slcan_idle [OF d assms(4,5) this] assms(8)
  have "d' = d\<lparr>dr_queue := [p], dr_epoch := Suc (dr_epoch d), dr_last_send := Some p\<rparr>"
    and "s' = s\<lparr>writes := writes s + 1, written := written s @ [(dr_name d, bf_frame f)]\<rparr>"
    by simp_all
  with d assms(4,5) show ?thesis
    by (simp add: in_flight_def queue_top_single frame_of_live)
next
  case (Some t)
  with assms(1) have d: "dr_kind d = Slcan" "dr_socket d \<noteq> 0" "distinct (dr_queue d)"
    "\<forall>p \<in> set (dr_queue d). \<exists>f. heap s p = Some f \<and> valid_frame (bf_frame f)"
    "queue_top env d s = Inr t" "written s \<noteq> []" "last (written s) = (dr_name d, frame_of s t)"
    by (simp_all add: in_flight_def)
  from d(5) have "dr_queue d \<noteq> []" by (auto simp: queue_top_def)
  with d(2) assms(8)
  have *: "d' = d\<lparr>dr_queue := dr_queue d @ [p], dr_epoch := dr_epoch d + 1\<rparr>" "s' = s"
    by (simp_all add: driver_send_frame_def Let_def)
  have "queue_top env d' s = Inr t"
    using assms(2,4) assms(7) [OF Some] d(5) unfolding * keeps_top_def by (simp add: frame_of_live)
  with * d assms(4-6) Some show ?thesis by (simp add: in_flight_def)
qed

lemma in_flight_ack:
  assumes "in_flight env (d, s)" and "\<forall>n. 0 < fst (write_ret env n)"
    and "slcan_line env [CHR 0x0D] d s = (e, d', s')"
  shows "in_flight env (d', s') \<and> e = None \<and>
    (\<forall>t. dr_last_send d = Some t \<longrightarrow>
      (\<exists>f. heap s t = Some f \<and> events s' =
        events s @ [Sent_event (dr_name d) (f\<lparr>bf_completed := bf_completed f + 1\<rparr>)]))"
proof (cases "dr_last_send d")
  case None
  with assms show ?thesis by (simp add: slcan_no_ack)
next
  case (Some t)
  with assms(1) have d: "dr_kind d = Slcan" "dr_socket d \<noteq> 0" "distinct (dr_queue d)"
    "\<forall>p \<in> set (dr_queue d). \<exists>f. heap s p = Some f \<and> valid_frame (bf_frame f)"
    "queue_top env d s = Inr t"
    by (simp_all add: in_flight_def)
  from queue_top_in [OF d(5)] have "t \<in> set (dr_queue d)" .
  with d(4) obtain f where f: "heap s t = Some f" by auto
  define d0 where "d0 = d\<lparr>dr_last_send := None\<rparr>"
  define d1 where "d1 = d0\<lparr>dr_sent := dr_sent d0 + 1, dr_queue := remove1 t (dr_queue d0),
      dr_epoch := dr_epoch d0 + 1\<rparr>"
  define f1 where "f1 = f\<lparr>bf_completed := bf_completed f + 1\<rparr>"
  obtain s1 where s1: "on_send_frame (dr_name d) t s = (None, s1)"
    and ev: "events s1 = events s @ [Sent_event (dr_name d) f1]"
    and hp: "\<And>q. q \<noteq> t \<Longrightarrow> heap s1 q = heap s q" and wr: "written s1 = written s"
    using on_send_frame_live [OF f, of "dr_name d"] unfolding f1_def by blast
  have top0: "queue_top env d0 s = Inr t"
    using d(5) queue_top_cong [of d0 d s s env] by (simp add: d0_def)
  have q1: "dr_queue d1 = remove1 t (dr_queue d)" by (simp add: d1_def d0_def)
  have live: "\<forall>p \<in> set (dr_queue d1). \<exists>f. heap s1 p = Some f \<and> valid_frame (bf_frame f)"
    using d(3,4) hp by (auto simp: q1)
  have step: "slcan_line env [CHR 0x0D] d s =
    (if dr_queue d1 = [] then (None, d1, s1)
     else case queue_top env d1 s1 of Inl e \<Rightarrow> (Some e, d1, s1)
       | Inr p2 \<Rightarrow> (case write_frame env d1 p2 (frame_of s1 p2) s1 of
           (Some e, d2, s2) \<Rightarrow> (Some e, d2, s2)
         | (None, d2, s2) \<Rightarrow> if is_sync (dr_kind d2) then on_frame_send env d2 s2
                         else (None, d2, s2)))"
    unfolding slcan_ack [of d env s, unfolded Some, simplified] d0_def [symmetric]
    by (rule on_frame_send_step) (simp_all add: top0 s1 d1_def, simp add: d0_def s1)
  show ?thesis
  proof (cases "dr_queue d1 = []")
    case True
    with step assms(3) have "e = None" "d' = d1" "s' = s1" by simp_all
    with True d f ev show ?thesis by (simp add: Some in_flight_def d1_def d0_def f1_def)
  next
    case False
    have "\<exists>p2. queue_top env d1 s1 = Inr p2"
      using live by (intro queue_top_total False) fastforce
    then obtain p2 where p2: "queue_top env d1 s1 = Inr p2" ..
    from queue_top_in [OF p2] live obtain f2
      where f2: "heap s1 p2 = Some f2" "valid_frame (bf_frame f2)" by auto
    let ?d2 = "d1\<lparr>dr_last_send := Some p2\<rparr>"
    let ?s2 = "s1\<lparr>writes := writes s1 + 1, written := written s1 @ [(dr_name d1, frame_of s1 p2)]\<rparr>"
    have "write_frame env d1 p2 (frame_of s1 p2) s1 = (None, ?d2, ?s2)"
      using assms(2) f2 d(1)
      by (intro write_frame_slcan) (simp_all add: frame_of_live write_ok_def d1_def d0_def)
    with step False p2 assms(3) d(1) have r: "e = None" "d' = ?d2" "s' = ?s2"
      by (simp_all add: is_sync_def d1_def d0_def)
    have "queue_top env ?d2 ?s2 = Inr p2"
      using p2 queue_top_cong [of ?d2 d1 ?s2 s1 env] by simp
    moreover have "frame_of ?s2 p2 = frame_of s1 p2" by (simp add: frame_of_def)
    moreover have "distinct (dr_queue d1)" using d(3) by (simp add: q1)
    moreover have "dr_kind d1 = Slcan" "dr_socket d1 \<noteq> 0" using d by (simp_all add: d1_def d0_def)
    ultimately show ?thesis
      using live ev f by (simp add: r Some in_flight_def f1_def)
  qed
qed
lemma in_flight_alloc:
  assumes "in_flight env (d, s)" and "heap s p = None"
  shows "in_flight env (d, s\<lparr>heap := (heap s)(p := Some f)\<rparr>)"
proof -
  let ?s = "s\<lparr>heap := (heap s)(p := Some f)\<rparr>"
  have q: "\<forall>r \<in> set (dr_queue d). heap s r \<noteq> None" using assms(1) by (auto simp: in_flight_def)
  with assms(2) have h: "heap ?s r = heap s r" if "r \<in> set (dr_queue d)" for r
    using that by auto
  then have t: "queue_top env d ?s = queue_top env d s" by (intro queue_top_cong) simp_all
  show ?thesis
  proof (cases "dr_last_send d")
    case None
    with assms(1) show ?thesis by (simp add: in_flight_def)
  next
    case (Some r)
    with assms(1) have "queue_top env d s = Inr r" by (simp add: in_flight_def)
    then have "frame_of ?s r = frame_of s r" using h [OF queue_top_in] by (simp add: frame_of_def)
    with Some assms(1) h t show ?thesis by (auto simp: in_flight_def)
  qed
qed

lemma in_flight_step:
  assumes "keeps_top env" and "\<forall>n. 0 < fst (write_ret env n)"
    and "in_flight env s" and "slcan_step env s t"
  shows "in_flight env t"
  using assms(4,3)
  by (elim slcan_stepE)
     (auto intro: in_flight_push [OF _ assms(1,2)] in_flight_alloc dest: in_flight_ack [OF _ assms(2)])

lemma first_best_append:
  assumes "is_best s q t" and "\<not> list_ex (\<lambda>p. \<not> priority (frame_of s t) \<le> priority (frame_of s p)) ps"
    and "t \<in> set q"
  shows "\<exists>r. filter (is_best s (q @ ps)) (q @ ps) = filter (is_best s q) q @ r"
proof -
  have "is_best s (q @ ps) x = is_best s q x" if "x \<in> set q" for x
  proof
    assume "is_best s q x"
    then have "priority (frame_of s x) \<le> priority (frame_of s t)"
      using assms(3) by (simp add: is_best_def list_all_iff)
    with assms(2) \<open>is_best s q x\<close> show "is_best s (q @ ps) x"
      by (auto simp: is_best_def list_all_iff list_ex_iff intro: order_trans)
  qed (simp add: is_best_def)
  then have "filter (is_best s (q @ ps)) q = filter (is_best s q) q" by (intro filter_cong) simp_all
  then show ?thesis by simp
qed

definition fifo_env :: bus_env where
  \<comment> \<open>the first of the best is on top, every write succeeds\<close>
  "fifo_env = \<lparr>tie = (\<lambda>n e q. 0), write_ret = (\<lambda>n. (1, 0))\<rparr>"

lemma fifo_keeps_top: "keeps_top fifo_env"
  unfolding keeps_top_def
proof (intro allI impI)
  fix d s p t
  assume *: "queue_top fifo_env d s = Inr t \<and> heap s p \<noteq> None \<and>
    priority (frame_of s t) \<le> priority (frame_of s p)"
  let ?q = "dr_queue d"
  from * have q: "?q \<noteq> []" "\<not> list_ex (\<lambda>p. heap s p = None) ?q"
    and t: "t = filter (is_best s ?q) ?q ! 0"
    by (auto simp: queue_top_def Let_def fifo_env_def split: if_splits)
  have tq: "t \<in> set ?q" using * by (blast dest: queue_top_in)
  have "filter (is_best s ?q) ?q \<noteq> []" using queue_top_best [of fifo_env d s t] * by auto
  then have "is_best s ?q t" using queue_top_best [of fifo_env d s t] * by simp
  then obtain r where r: "filter (is_best s (?q @ [p])) (?q @ [p]) = filter (is_best s ?q) ?q @ r"
    using first_best_append [of s ?q t "[p]"] * tq by auto
  with t \<open>filter (is_best s ?q) ?q \<noteq> []\<close>
  have "filter (is_best s (?q @ [p])) (?q @ [p]) ! 0 = t" by (simp add: nth_append)
  with * q show "queue_top fifo_env
      (d\<lparr>dr_queue := ?q @ [p], dr_epoch := dr_epoch d + 1\<rparr>) s = Inr t"
    by (simp add: queue_top_def Let_def fifo_env_def del: filter_append)
qed
interpretation serial: step_system slcan_idle "slcan_step fifo_env" "in_flight fifo_env"
proof
  show "slcan_idle s \<Longrightarrow> in_flight fifo_env s" for s
    by (cases s) (simp add: slcan_idle_def in_flight_def)
  show "in_flight fifo_env s \<Longrightarrow> slcan_step fifo_env s t \<Longrightarrow> in_flight fifo_env t" for s t
    by (rule in_flight_step [OF fifo_keeps_top]) (simp_all add: fifo_env_def)
qed

lemma reachable_in_flight:
  assumes "keeps_top env" and "\<forall>n. 0 < fst (write_ret env n)"
    and "slcan_idle s" and "(slcan_step env)\<^sup>*\<^sup>* s t"
  shows "in_flight env t"
  using assms(4)
proof (induction rule: rtranclp_induct)
  case base
  then show ?case using assms(3) by (cases s) (simp add: slcan_idle_def in_flight_def)
next
  case (step t u)
  then show ?case by (blast intro: in_flight_step [OF assms(1,2)])
qed

definition retry_once :: "driver \<Rightarrow> driver" where
  "retry_once d = (if \<not> dr_connected d \<and> dr_retry d \<noteq> 0 then d\<lparr>dr_retry := dr_retry d - 1\<rparr> else d)"

lemma retry_once_simps [simp]:
  "dr_connected (retry_once d) = dr_connected d"
  "\<not> dr_connected d \<Longrightarrow> 0 < dr_retry d \<Longrightarrow> dr_retry (retry_once d) = dr_retry d - 1"
  "dr_retry d = 0 \<Longrightarrow> dr_retry (retry_once d) = 0"
  "0 \<le> dr_retry d \<Longrightarrow> 0 \<le> dr_retry (retry_once d)"
  by (auto simp: retry_once_def)

lemma retry_less:
  "0 \<le> dr_retry d \<Longrightarrow> 0 \<le> k \<Longrightarrow> \<not> dr_connected d \<Longrightarrow> k < dr_retry (retry_once d) \<longleftrightarrow> k + 1 < dr_retry d"
  by (auto simp: retry_once_def)

lemma cron_no_open:
  "cron_devs (\<lambda>_. None) ds sm = (None, map (apsnd retry_once) ds, sm)"
  by (induction ds) (auto simp: driver_on_close_def retry_once_def Let_def)

lemma flush_devs_fst:
  "fst (flush_devs fd ds sm) = filter (\<lambda>(n, d). dr_connected d \<or> dr_retry d \<noteq> 0) ds"
proof (induction ds arbitrary: sm)
  case Nil
  then show ?case by simp
next
  case (Cons a ds)
  then show ?case by (cases a) (simp add: Let_def case_prod_beta)
qed

lemma maintenance_fst:
  "fst (bus_maintenance others (\<lambda>_. None) (ds, sm))
    = filter (\<lambda>(n, d). dr_connected d \<or> dr_retry d \<noteq> 0) (map (apsnd retry_once) ds)"
  by (simp add: bus_maintenance_def cron_no_open flush_devs_fst)

lemma filter_retry:
  assumes "\<forall>(n, d) \<in> set ds. 0 \<le> dr_retry d"
  shows "filter (\<lambda>(n, d). dr_connected d \<or> int k < dr_retry d) (map (apsnd retry_once) ds)
    = map (apsnd retry_once) (filter (\<lambda>(n, d). dr_connected d \<or> int k + 1 < dr_retry d) ds)"
proof -
  have *: "int k < dr_retry (retry_once d) \<longleftrightarrow> int k + 1 < dr_retry d"
    if "(n, d) \<in> set ds" "\<not> dr_connected d" for n d
    using assms that retry_less [of d "int k"] by auto
  show ?thesis
    unfolding filter_map
    by (intro arg_cong [where f = "map _"] filter_cong) (auto dest: iffD1 [OF *] iffD2 [OF *])
qed

lemma maintenance_filter:
  assumes "\<forall>(n, d) \<in> set ds. 0 \<le> dr_retry d"
  shows "fst (bus_maintenance others (\<lambda>_. None) (ds, sm))
    = map (apsnd retry_once) (filter (\<lambda>(n, d). dr_connected d \<or> 1 < dr_retry d) ds)"
proof -
  have "\<forall>(n, d) \<in> set (map (apsnd retry_once) ds). 0 \<le> dr_retry d" using assms by auto
  then have "filter (\<lambda>(n, d). dr_connected d \<or> dr_retry d \<noteq> 0) (map (apsnd retry_once) ds)
      = filter (\<lambda>(n, d). dr_connected d \<or> int 0 < dr_retry d) (map (apsnd retry_once) ds)"
    by (intro filter_cong) auto
  then show ?thesis using filter_retry [OF assms, of 0] by (simp only: maintenance_fst) simp
qed

lemma maintenance_names:
  assumes "\<forall>(n, d) \<in> set ds. 0 \<le> dr_retry d"
  shows "map fst (fst ((bus_maintenance others (\<lambda>_. None) ^^ Suc k) (ds, sm)))
    = map fst (filter (\<lambda>(n, d). dr_connected d \<or> int k + 1 < dr_retry d) ds)"
  using assms
proof (induction k arbitrary: ds sm)
  case 0
  then show ?case by (simp add: maintenance_filter)
next
  case (Suc k)
  define ds1 where "ds1 = map (apsnd retry_once) (filter (\<lambda>(n, d). dr_connected d \<or> 1 < dr_retry d) ds)"
  obtain sm1 where b: "bus_maintenance others (\<lambda>_. None) (ds, sm) = (ds1, sm1)"
    using maintenance_filter [OF Suc.prems, of others sm] unfolding ds1_def by (metis prod.collapse)
  have "\<forall>(n, d) \<in> set ds1. 0 \<le> dr_retry d"
    using Suc.prems by (auto simp: ds1_def)
  then have "map fst (fst ((bus_maintenance others (\<lambda>_. None) ^^ Suc k) (ds1, sm1)))
      = map fst (filter (\<lambda>(n, d). dr_connected d \<or> int k + 1 < dr_retry d) ds1)"
    by (rule Suc.IH)
  also have "filter (\<lambda>(n, d). dr_connected d \<or> int k + 1 < dr_retry d) ds1
      = filter (\<lambda>(n, d). dr_connected d \<or> int (Suc k) < dr_retry d) ds1"
    by (simp add: add.commute)
  also have "\<dots> = map (apsnd retry_once) (filter (\<lambda>(n, d). dr_connected d \<or> int (Suc k) + 1 < dr_retry d)
      (filter (\<lambda>(n, d). dr_connected d \<or> 1 < dr_retry d) ds))"
    unfolding ds1_def using Suc.prems by (intro filter_retry) auto
  also have "filter (\<lambda>(n, d). dr_connected d \<or> int (Suc k) + 1 < dr_retry d)
      (filter (\<lambda>(n, d). dr_connected d \<or> 1 < dr_retry d) ds)
    = filter (\<lambda>(n, d). dr_connected d \<or> int (Suc k) + 1 < dr_retry d) ds"
    unfolding filter_filter by (intro filter_cong) auto
  also have "map fst (map (apsnd retry_once) \<dots>) = map fst \<dots>" by simp
  finally show ?case using b by (simp only: funpow_Suc_right comp_apply)
qed

lemma send_to_all_sync:
  assumes "is_sync (dr_kind d)" and "dr_queue d = []" and "dr_socket d \<noteq> 0"
    and "heap s p = Some f" and "bf_completed f = bf_total f"
    and "write_ok env s" and "length (data (bf_frame f)) = 8"
  shows "send_to_all env p ((n, d) # ds) s =
    (let (e, ds1, s1) = send_to_all env p ds ((transmitted d (bf_frame f) s)\<lparr>heap := (heap s)(p := None),
        events := events s @ [Sent_event (dr_name d)
          (f\<lparr>bf_total := bf_total f + 1, bf_completed := bf_completed f + 1\<rparr>)]\<rparr>)
     in (e, (n, d\<lparr>dr_sent := dr_sent d + 1, dr_epoch := dr_epoch d + 2\<rparr>) # ds1, s1))"
proof -
  let ?f = "f\<lparr>bf_total := bf_total f + 1\<rparr>"
  let ?s = "s\<lparr>heap := (heap s)(p := Some ?f)\<rparr>"
  have "driver_send_frame env p d ?s =
    (None, d\<lparr>dr_sent := dr_sent d + 1, dr_epoch := dr_epoch d + 2\<rparr>,
     (transmitted d (bf_frame ?f) ?s)\<lparr>heap := (heap ?s)(p := None),
       events := events ?s @ [Sent_event (dr_name d) (?f\<lparr>bf_completed := bf_completed ?f + 1\<rparr>)]\<rparr>)"
    using assms by (intro send_frame_sync_idle) (simp_all add: write_ok_def)
  moreover have "(transmitted d (bf_frame ?f) ?s)\<lparr>heap := (heap ?s)(p := None),
       events := events ?s @ [Sent_event (dr_name d) (?f\<lparr>bf_completed := bf_completed ?f + 1\<rparr>)]\<rparr>
     = (transmitted d (bf_frame f) s)\<lparr>heap := (heap s)(p := None),
        events := events s @ [Sent_event (dr_name d)
          (f\<lparr>bf_total := bf_total f + 1, bf_completed := bf_completed f + 1\<rparr>)]\<rparr>"
    by (simp add: transmitted_def)
  ultimately show ?thesis using assms(4) by simp
qed

lemma send_many_busy:
  assumes "dr_queue d \<noteq> []" and "dr_socket d \<noteq> 0"
  shows "send_many env ps d s =
    (d\<lparr>dr_queue := dr_queue d @ ps, dr_epoch := dr_epoch d + length ps\<rparr>, s)"
  using assms by (induction ps arbitrary: d) (simp_all add: driver_send_frame_def)

lemma bus_send_one:
  assumes "bm_dev b = [(n, d)]" and "is_sync (dr_kind d)" and "dr_queue d = []"
    and "dr_socket d \<noteq> 0" and "write_ok env (bm_store b)" and "length (data f) = 8"
  shows "\<exists>b'. bus_send_frame env f origin client msg [] b = (None, b')
    \<and> map snd (bm_dev b') = [d\<lparr>dr_sent := dr_sent d + 1, dr_epoch := dr_epoch d + 2\<rparr>]
    \<and> events (bm_store b') = events (bm_store b) @ [Sent_event (dr_name d)
        ((new_busframe f origin client msg)\<lparr>bf_total := 1, bf_completed := 1\<rparr>)]
    \<and> written (bm_store b') = written (bm_store b) @
        (if dr_kind d = Dummy then [] else [(dr_name d, f)])
    \<and> heap (bm_store b') = (heap (bm_store b))(next_ptr (bm_store b) := None)"
proof -
  let ?s = "bm_store b" and ?p = "next_ptr (bm_store b)"
  let ?s1 = "?s\<lparr>heap := (heap ?s)(?p := Some (new_busframe f origin client msg)), next_ptr := ?p + 1\<rparr>"
  have "heap ?s1 ?p = Some (new_busframe f origin client msg)" "write_ok env ?s1"
    using assms by (simp_all add: write_ok_def)
  note * = send_to_all_sync [OF assms(2-4) this(1) _ this(2), where n = n and ds = "[]"]
  have "send_to_all env ?p [(n, d)] ?s1 =
    (None, [(n, d\<lparr>dr_sent := dr_sent d + 1, dr_epoch := dr_epoch d + 2\<rparr>)],
     (transmitted d f ?s1)\<lparr>heap := (heap ?s1)(?p := None), events := events ?s1 @
       [Sent_event (dr_name d) ((new_busframe f origin client msg)\<lparr>bf_total := 1, bf_completed := 1\<rparr>)]\<rparr>)"
    using * assms(6) by (simp add: new_busframe_def del: send_to_all.simps(2))
  then show ?thesis
    unfolding bus_send_frame_def Let_def assms(1) by (simp only:) (simp add: transmitted_def)
qed

subsection \<open>Properties\<close>

text \<open>
  A frame sent to the only endpoint, through a driver that transmits at once, is
  transmitted exactly once, reported exactly once with the origin and the message number of
  the sender, counted, and its object is freed.
\<close>

theorem bus_send_single:
  assumes "bm_dev b = [(n, d)]" and "is_sync (dr_kind d)" and "dr_queue d = []"
    and "dr_socket d \<noteq> 0" and "write_ok env (bm_store b)" and "length (data f) = 8"
  shows "\<exists>b'. bus_send_frame env f origin client msg [] b = (None, b')
    \<and> map snd (bm_dev b') = [d\<lparr>dr_sent := dr_sent d + 1, dr_epoch := dr_epoch d + 2\<rparr>]
    \<and> events (bm_store b') = events (bm_store b) @ [Sent_event (dr_name d)
        ((new_busframe f origin client msg)\<lparr>bf_total := 1, bf_completed := 1\<rparr>)]
    \<and> written (bm_store b') = written (bm_store b) @
        (if dr_kind d = Dummy then [] else [(dr_name d, f)])
    \<and> heap (bm_store b') = (heap (bm_store b))(next_ptr (bm_store b) := None)"
  by (rule bus_send_one [OF assms])

text \<open>
  C39. With two endpoints the same send uses freed memory: the first driver completes the frame
  while only one endpoint is counted, so the frame is deleted, and the loop then counts the
  second endpoint in the deleted object.
\<close>

theorem bus_send_two_use_after_free:
  assumes "bm_dev b = (n1, d1) # (n2, d2) # ds" and "is_sync (dr_kind d1)" and "dr_queue d1 = []"
    and "dr_socket d1 \<noteq> 0" and "write_ok env (bm_store b)" and "length (data f) = 8"
  shows "fst (bus_send_frame env f origin client msg [] b) = Some Undefined_behaviour"
proof -
  let ?s = "bm_store b" and ?p = "next_ptr (bm_store b)"
  let ?s1 = "?s\<lparr>heap := (heap ?s)(?p := Some (new_busframe f origin client msg)), next_ptr := ?p + 1\<rparr>"
  have "heap ?s1 ?p = Some (new_busframe f origin client msg)" "write_ok env ?s1"
    using assms by (simp_all add: write_ok_def)
  note * = send_to_all_sync [OF assms(2-4) this(1) _ this(2), where n = n1 and ds = "(n2, d2) # ds"]
  have "fst (send_to_all env ?p ((n1, d1) # (n2, d2) # ds) ?s1) = Some Undefined_behaviour"
    using assms(6) by (subst *) (simp_all add: new_busframe_def)
  then show ?thesis
    unfolding bus_send_frame_def Let_def assms(1) by (simp add: case_prod_beta del: send_to_all.simps(2))
qed

text \<open>
  The serial driver transmits each frame once and reports the right one, provided no frame
  pushed while another waits for its acknowledgement has a better priority than that one:
  in every reachable state an acknowledgement raises no error and reports the frame that was
  written last.
\<close>

theorem slcan_reports_written:
  assumes "keeps_top env" and "\<forall>n. 0 < fst (write_ret env n)"
    and "slcan_idle s0" and "(slcan_step env)\<^sup>*\<^sup>* s0 (d, s)"
    and "dr_last_send d \<noteq> None" and "slcan_line env [CHR 0x0D] d s = (e, d', s')"
  shows "e = None \<and> (\<exists>f. events s' = events s @ [Sent_event (dr_name d) f] \<and>
    last (written s) = (dr_name d, bf_frame f))"
proof -
  have i: "in_flight env (d, s)" by (rule reachable_in_flight [OF assms(1-4)])
  from assms(5) obtain t where t: "dr_last_send d = Some t" by auto
  from in_flight_ack [OF i assms(2,6)] t obtain f where f: "e = None" "heap s t = Some f"
    "events s' = events s @ [Sent_event (dr_name d) (f\<lparr>bf_completed := bf_completed f + 1\<rparr>)]"
    by auto
  from i t have "last (written s) = (dr_name d, frame_of s t)" by (simp add: in_flight_def)
  with f show ?thesis by (simp add: frame_of_live)
qed

text \<open>
  A HIGH frame sent while a LOW one waits for its acknowledgement is lost: the
  acknowledgement of the LOW frame takes the HIGH frame off the queue and reports it as sent,
  and the LOW frame is transmitted a second time. No transmission of the HIGH frame happens.
\<close>

theorem slcan_priority_inversion:
  assumes "dr_kind d = Slcan" and "dr_socket d \<noteq> 0" and "dr_queue d = []" and "dr_last_send d = None"
    and "heap s p = Some lo" and "heap s q = Some hi" and "p \<noteq> q"
    and "valid_frame (bf_frame lo)" and "valid_frame (bf_frame hi)"
    and "priority (bf_frame lo) = LOW" and "priority (bf_frame hi) = HIGH"
    and "\<forall>n. 0 < fst (write_ret env n)"
  shows "(let (d1, s1) = send_many env [p, q] d s; (e, d2, s2) = slcan_line env [CHR 0x0D] d1 s1
    in e = None \<and> dr_queue d2 = [p]
      \<and> written s2 = written s @ [(dr_name d, bf_frame lo), (dr_name d, bf_frame lo)]
      \<and> events s2 = events s @ [Sent_event (dr_name d) (hi\<lparr>bf_completed := bf_completed hi + 1\<rparr>)])"
proof -
  let ?d1 = "d\<lparr>dr_queue := [p], dr_epoch := Suc (dr_epoch d), dr_last_send := Some p\<rparr>"
  let ?s1 = "s\<lparr>writes := writes s + 1, written := written s @ [(dr_name d, bf_frame lo)]\<rparr>"
  let ?d2 = "?d1\<lparr>dr_queue := [p, q], dr_epoch := dr_epoch d + 2\<rparr>"
  have ok: "write_ok env s'" for s' using assms(12) by (simp add: write_ok_def)
  have "driver_send_frame env p d s = (None, ?d1, ?s1)"
    by (rule send_slcan_idle [OF assms(1,2,3,5,8) ok])
  then have many: "send_many env [p, q] d s = (?d2, ?s1)"
    using assms(2) by (simp add: driver_send_frame_def)
  define d3 where "d3 = ?d2\<lparr>dr_last_send := None\<rparr>"
  define d4 where "d4 = d3\<lparr>dr_sent := dr_sent d3 + 1, dr_queue := remove1 q (dr_queue d3),
      dr_epoch := dr_epoch d3 + 1\<rparr>"
  have "is_best ?s1 [p, q] q" and "\<not> is_best ?s1 [p, q] p"
    using assms(5,6,10,11) by (simp_all add: is_best_def frame_of_def less_eq_priority_def)
  then have top: "queue_top env d3 ?s1 = Inr q"
    using assms(5,6) by (simp add: queue_top_def d3_def Let_def)
  obtain s2 where s2: "on_send_frame (dr_name d3) q ?s1 = (None, s2)"
    and ev: "events s2 = events s @ [Sent_event (dr_name d3) (hi\<lparr>bf_completed := bf_completed hi + 1\<rparr>)]"
    and hp: "heap s2 p = Some lo"
    and wr: "written s2 = written s @ [(dr_name d, bf_frame lo)]"
    using on_send_frame_live [of ?s1 q hi "dr_name d3"] assms(5-7) by auto
  have q4: "dr_queue d4 = [p]" using assms(7) by (simp add: d4_def d3_def)
  have top4: "queue_top env d4 s2 = Inr p" by (rule queue_top_single [OF q4 hp])
  have w4: "write_frame env d4 p (frame_of s2 p) s2 = (None, d4\<lparr>dr_last_send := Some p\<rparr>,
      s2\<lparr>writes := writes s2 + 1, written := written s2 @ [(dr_name d4, frame_of s2 p)]\<rparr>)"
    using assms(1,8) ok hp by (intro write_frame_slcan) (simp_all add: d4_def d3_def frame_of_live)
  have k4: "dr_kind d4 = Slcan" "dr_name d4 = dr_name d" "dr_name d3 = dr_name d"
    using assms(1) by (simp_all add: d4_def d3_def)
  have "slcan_line env [CHR 0x0D] ?d2 ?s1 = on_frame_send env d3 ?s1"
    by (simp add: slcan_ack d3_def)
  also have "\<dots> = (None, d4\<lparr>dr_last_send := Some p\<rparr>,
      s2\<lparr>writes := writes s2 + 1, written := written s2 @ [(dr_name d4, frame_of s2 p)]\<rparr>)"
    by (subst on_frame_send_step [OF top s2 d4_def]) (simp add: q4 top4 w4 k4 is_sync_def)
  finally show ?thesis
    by (simp add: many q4 wr ev k4 frame_of_live [OF hp] del: send_many.simps)
qed

text \<open>
  One failed write silences a CAN driver for good: the frame that could not be written
  stays in the queue with nobody to send it, so after the driver has been reopened every
  further frame is only added to the queue and nothing is written any more.
\<close>

theorem driver_stuck_after_error:
  assumes "dr_kind d = SocketCAN" and "dr_queue d = []" and "dr_socket d \<noteq> 0"
    and "heap s p = Some f" and "length (data (bf_frame f)) = 8" and "fd \<noteq> 0"
    and "fst (write_ret env (writes s)) \<le> 0"
  shows "(let (e, d1, s1) = driver_send_frame env p d s;
      (d2, s2) = send_many env ps ((driver_on_close d1)\<lparr>dr_socket := fd, dr_connected := True\<rparr>) s1
    in e \<noteq> None \<and> dr_queue d2 = p # ps \<and> written s2 = written s \<and> events s2 = events s)"
proof -
  obtain n en where w: "write_ret env (writes s) = (n, en)" "n \<le> 0" using assms(7) by (cases "write_ret env (writes s)") auto
  then show ?thesis
    using assms by (simp add: driver_send_frame_def driver_send_data_def queue_top_single
        frame_of_live write_frame_def socketcan_send_def send_many_busy driver_on_close_def Let_def)
qed

text \<open>
  The daemon gives up on a driver that cannot be reopened: after k + 1 idle turns the
  endpoints that remain are the connected ones and those with more than k + 1 attempts left.
\<close>

theorem cron_gives_up:
  assumes "\<forall>(n, d) \<in> set ds. 0 \<le> dr_retry d"
  shows "map fst (fst ((bus_maintenance others (\<lambda>_. None) ^^ Suc k) (ds, sm)))
    = map fst (filter (\<lambda>(n, d). dr_connected d \<or> int k + 1 < dr_retry d) ds)"
  by (rule maintenance_names [OF assms])
subsection \<open>Witnesses\<close>

definition store0 :: store where
  "store0 = \<lparr>heap = (\<lambda>_. None)(1 := Some (new_busframe frame_b ''h9d'' 1 9),
      2 := Some (new_busframe frame_a ''h9d'' 1 10)),
    next_ptr = 3, writes = 0, written = [], events = []\<rparr>"

definition idle_driver :: "driver_kind \<Rightarrow> string \<Rightarrow> driver" where
  "idle_driver k n = (new_driver k n)\<lparr>dr_socket := 5, dr_connected := True\<rparr>"

lemma idle_fields [simp]:
  "dr_kind (idle_driver k n) = k" "dr_name (idle_driver k n) = n" "dr_socket (idle_driver k n) = 5"
  "dr_connected (idle_driver k n)" "dr_queue (idle_driver k n) = []"
  "dr_last_send (idle_driver k n) = None" "dr_retry (new_driver k n) = 10"
  "\<not> dr_connected (new_driver k n)"
  by (simp_all add: idle_driver_def new_driver_def)

lemma store0_simps [simp]:
  "heap store0 1 = Some (new_busframe frame_b ''h9d'' 1 9)"
  "heap store0 (Suc 0) = Some (new_busframe frame_b ''h9d'' 1 9)"
  "heap store0 2 = Some (new_busframe frame_a ''h9d'' 1 10)"
  "next_ptr store0 = 3" "writes store0 = 0" "written store0 = []" "events store0 = []"
  by (simp_all add: store0_def)

lemma new_busframe_simps [simp]:
  "bf_frame (new_busframe f og cl m) = f" "bf_completed (new_busframe f og cl m) = 0"
  by (simp_all add: new_busframe_def)

lemma sample_data [simp]: "length (data frame_a) = 8" "length (data frame_b) = 8"
  "priority frame_a = HIGH" "priority frame_b = LOW"
  by (simp_all add: frame_a_def frame_b_def)

lemma fifo_ok [simp]: "write_ret fifo_env n = (1, 0)" "write_ok fifo_env s"
  by (simp_all add: fifo_env_def write_ok_def)

definition one_bus :: "(string \<times> driver) list \<Rightarrow> busmgr" where
  "one_bus ds = \<lparr>bm_dev = ds, bm_store = store0, bm_sockets = new_socketmgr\<rparr>"

lemma one_bus_simps [simp]: "bm_dev (one_bus ds) = ds" "bm_store (one_bus ds) = store0"
  by (simp_all add: one_bus_def)

theorem bus_send_single_witness:
  "\<exists>b'. bus_send_frame fifo_env frame_a ''h9cli'' 7 3 []
      (one_bus [(''can0'', idle_driver SocketCAN ''can0'')]) = (None, b')
    \<and> written (bm_store b') = [(''can0'', frame_a)] \<and> heap (bm_store b') 3 = None"
  using bus_send_single [of "one_bus [(''can0'', idle_driver SocketCAN ''can0'')]" "''can0''"
      "idle_driver SocketCAN ''can0''" fifo_env frame_a "''h9cli''" 7 3]
  by (auto simp: is_sync_def)

theorem bus_send_two_use_after_free_witness:
  "fst (bus_send_frame fifo_env frame_a ''h9cli'' 7 3 []
      (one_bus [(''can0'', idle_driver SocketCAN ''can0''), (''can1'', idle_driver Loop ''can1'')]))
   = Some Undefined_behaviour"
  by (rule bus_send_two_use_after_free [OF one_bus_simps(1)]) (simp_all add: is_sync_def)

theorem slcan_reports_written_witness:
  "\<exists>d s e d' s' f. slcan_line fifo_env [CHR 0x0D] d s = (e, d', s') \<and> e = None \<and>
    events s' = [Sent_event ''tty'' f] \<and> written s = [(''tty'', bf_frame f)]"
proof -
  let ?d0 = "idle_driver Slcan ''tty''"
  obtain d s where send: "driver_send_frame fifo_env 1 ?d0 store0 = (None, d, s)"
    and ds: "dr_last_send d = Some 1" "dr_name d = ''tty''" "events s = []" "written s = [(''tty'', frame_b)]"
    using send_slcan_idle [of ?d0 store0 1 "new_busframe frame_b ''h9d'' 1 9" fifo_env]
    by (simp add: sample_frames_valid)
  have "slcan_step fifo_env (?d0, store0) (d, s)"
    by (rule slcan_step.push [OF _ _ _ _ send, where f = "new_busframe frame_b ''h9d'' 1 9"])
       (simp_all add: sample_frames_valid)
  then have st: "(slcan_step fifo_env)\<^sup>*\<^sup>* (?d0, store0) (d, s)" by blast
  obtain e d' s' where l: "slcan_line fifo_env [CHR 0x0D] d s = (e, d', s')"
    by (cases "slcan_line fifo_env [CHR 0x0D] d s")
  have "e = None \<and> (\<exists>f. events s' = events s @ [Sent_event (dr_name d) f] \<and>
    last (written s) = (dr_name d, bf_frame f))"
    by (rule slcan_reports_written [OF fifo_keeps_top _ _ st _ l]) (simp_all add: slcan_idle_def ds)
  then show ?thesis using l ds by force
qed

theorem slcan_priority_inversion_witness:
  "(let (d1, s1) = send_many fifo_env [1, 2] (idle_driver Slcan ''tty'') store0;
        (e, d2, s2) = slcan_line fifo_env [CHR 0x0D] d1 s1
    in e = None \<and> written s2 = [(''tty'', frame_b), (''tty'', frame_b)]
      \<and> (\<exists>f. events s2 = [Sent_event ''tty'' f] \<and> bf_frame f = frame_a))"
  using slcan_priority_inversion [of "idle_driver Slcan ''tty''" store0 1 _ 2 _ fifo_env]
  by (auto simp: Let_def sample_frames_valid simp del: send_many.simps split: prod.splits)

theorem driver_stuck_after_error_witness:
  "(let env = \<lparr>tie = (\<lambda>n e q. 0), write_ret = (\<lambda>n. if n = 0 then (-1, 5) else (16, 0))\<rparr>;
        (e, d1, s1) = driver_send_frame env 1 (idle_driver SocketCAN ''can0'') store0;
        (d2, s2) = send_many env [2, 1, 2]
          ((driver_on_close d1)\<lparr>dr_socket := 6, dr_connected := True\<rparr>) s1
    in e \<noteq> None \<and> dr_queue d2 = [1, 2, 1, 2] \<and> written s2 = [])"
  using driver_stuck_after_error [of "idle_driver SocketCAN ''can0''" store0 1 _ 6
      "\<lparr>tie = (\<lambda>n e q. 0), write_ret = (\<lambda>n. if n = 0 then (-1, 5) else (16, 0))\<rparr>" "[2, 1, 2]"]
  by (auto simp: Let_def simp del: send_many.simps split: prod.splits)

theorem cron_gives_up_witness:
  "map fst (fst ((bus_maintenance (\<lambda>_. 0) (\<lambda>_. None) ^^ Suc 9)
      ([(''tty'', new_driver Slcan ''tty''), (''can0'', idle_driver SocketCAN ''can0'')], new_socketmgr)))
    = [''can0'']"
  by (subst cron_gives_up) (simp_all add: idle_driver_def)

end
