(* ===== verification/H9_Comparator.thy ===== *)
theory H9_Comparator
  imports H9_Frame "HOL-Library.Multiset"
begin

text \<open>
  \<open>bus/h9framecomparator.{h,cc}\<close>, the filter on frames, and the subject of the observer
  pattern that uses it as a map key, \<open>h9d/framesubject.cc\<close> and \<open>h9d/frameobserver.cc\<close>.
  The \<open>std::map\<close> is the list of its entries in iteration order; insertion goes to the
  first entry that is not less than the key, as \<open>lower_bound\<close> does.
\<close>

subsection \<open>The comparator\<close>

record comparator =
  fc_fields :: u8
  fc_priority :: priority
  fc_type :: u8
  fc_alternate_type :: u8
  fc_seqnum :: u8
  fc_destination_id :: u16
  fc_source_id :: u16
  fc_dlc :: u8
  fc_data :: "u8 list"
  fc_first :: u8

definition H9FrameComparator :: comparator where
  "H9FrameComparator =
     \<lparr>fc_fields = 0, fc_priority = LOW, fc_type = NOP, fc_alternate_type = NOP, fc_seqnum = 0,
      fc_destination_id = 0, fc_source_id = 0, fc_dlc = 0, fc_data = replicate 8 0, fc_first = 0\<rparr>"

definition set_priority :: "priority \<Rightarrow> comparator \<Rightarrow> comparator" where
  "set_priority v c = c\<lparr>fc_priority := v, fc_fields := fc_fields c OR 1\<rparr>"

definition set_type :: "u8 \<Rightarrow> comparator \<Rightarrow> comparator" where
  "set_type v c = c\<lparr>fc_type := v, fc_fields := fc_fields c OR 2\<rparr>"

definition set_alternate_type :: "u8 \<Rightarrow> comparator \<Rightarrow> comparator" where
  "set_alternate_type v c = c\<lparr>fc_alternate_type := v, fc_fields := fc_fields c OR 4\<rparr>"

definition set_seqnum :: "u8 \<Rightarrow> comparator \<Rightarrow> comparator" where
  "set_seqnum v c = c\<lparr>fc_seqnum := v, fc_fields := fc_fields c OR 8\<rparr>"

definition set_destination_id :: "u16 \<Rightarrow> comparator \<Rightarrow> comparator" where
  "set_destination_id v c = c\<lparr>fc_destination_id := v, fc_fields := fc_fields c OR 16\<rparr>"

definition set_source_id :: "u16 \<Rightarrow> comparator \<Rightarrow> comparator" where
  "set_source_id v c = c\<lparr>fc_source_id := v, fc_fields := fc_fields c OR 32\<rparr>"

definition set_data :: "u8 list \<Rightarrow> comparator \<Rightarrow> comparator res" where
  \<comment> \<open>the copy loop is not bounded by the size of the member array\<close>
  "set_data v c = (if length v \<le> length (fc_data c)
     then Inr (c\<lparr>fc_data := v @ drop (length v) (fc_data c), fc_dlc := of_nat (length v),
                 fc_fields := fc_fields c OR 64\<rparr>)
     else Inl Undefined_behaviour)"

definition set_first_data_byte :: "u8 \<Rightarrow> comparator \<Rightarrow> comparator" where
  "set_first_data_byte v c = c\<lparr>fc_first := v, fc_fields := fc_fields c OR 128\<rparr>"

definition node_comparator :: "u16 \<Rightarrow> comparator" where
  \<comment> \<open>\<open>H9FrameComparator(source_id_v)\<close>\<close>
  "node_comparator n = set_source_id n H9FrameComparator"

definition frame_matches :: "comparator \<Rightarrow> h9frame \<Rightarrow> bool" where
  \<comment> \<open>\<open>operator==\<close>; the masks are the constants 1, 2, 4, ... 128\<close>
  "frame_matches c b =
    (if bit (fc_fields c) 0 \<and> fc_priority c \<noteq> priority b then False
     else if bit (fc_fields c) 1 \<and> fc_type c \<noteq> ftype b \<and>
       (\<not> bit (fc_fields c) 2 \<or> fc_alternate_type c \<noteq> ftype b) then False
     else if bit (fc_fields c) 3 \<and> fc_seqnum c \<noteq> ucast (seqnum b) then False
     else if bit (fc_fields c) 4 \<and> fc_destination_id c \<noteq> ucast (destination_id b) then False
     else if bit (fc_fields c) 5 \<and> fc_source_id c \<noteq> ucast (source_id b) then False
     else if bit (fc_fields c) 6 \<and> (fc_dlc c \<noteq> dlc b \<or>
       list_ex (\<lambda>i. fc_data c ! i \<noteq> data b ! i) [0..<unat (fc_dlc c)]) then False
     else if bit (fc_fields c) 7 \<and> (dlc b < 1 \<or> fc_first c \<noteq> data b ! 0) then False
     else True)"

definition comparator_less :: "comparator \<Rightarrow> comparator \<Rightarrow> bool" where
  \<comment> \<open>\<open>operator<\<close>\<close>
  "comparator_less a b =
    (if fc_fields a < fc_fields b then True
     else if fc_priority a < fc_priority b then True
     else if fc_type a < fc_type b then True
     else if fc_seqnum a < fc_seqnum b then True
     else if fc_destination_id a < fc_destination_id b then True
     else if fc_source_id a < fc_source_id b then True
     else if fc_dlc a < fc_dlc b then True
     else if fc_dlc a = fc_dlc b \<and>
       list_ex (\<lambda>i. fc_data a ! i < fc_data b ! i) [0..<unat (fc_dlc a)] then True
     else if fc_first a < fc_first b then True
     else False)"

lemmas comparator_defs = H9FrameComparator_def set_priority_def set_type_def
  set_alternate_type_def set_seqnum_def set_destination_id_def set_source_id_def
  set_first_data_byte_def node_comparator_def

subsection \<open>Subjects and observers\<close>

type_synonym 'o subject = "(comparator \<times> 'o list) list"

fun attach_frame_observer :: "'o \<Rightarrow> comparator \<Rightarrow> 'o subject \<Rightarrow> 'o subject" where
  \<comment> \<open>\<open>frame_observers[comparator].push_back(observer)\<close>\<close>
  "attach_frame_observer ob c [] = [(c, [ob])]"
| "attach_frame_observer ob c ((k, os) # m) =
     (if comparator_less k c then (k, os) # attach_frame_observer ob c m
      else if comparator_less c k then (c, [ob]) # (k, os) # m
      else (k, os @ [ob]) # m)"

fun detach_frame_observer :: "'o \<Rightarrow> 'o subject \<Rightarrow> 'o subject" where
  "detach_frame_observer ob [] = []"
| "detach_frame_observer ob ((k, os) # m) =
     (let os' = removeAll ob os in
      if os' = [] then detach_frame_observer ob m
      else (k, os') # detach_frame_observer ob m)"

fun notify_frame_observer :: "'o subject \<Rightarrow> h9frame \<Rightarrow> 'o list" where
  \<comment> \<open>the observers whose \<open>on_frame_recv(frame)\<close> is called, in the order of the calls\<close>
  "notify_frame_observer [] f = []"
| "notify_frame_observer ((k, os) # m) f =
     (if frame_matches k f then os else []) @ notify_frame_observer m f"

datatype 'o subject_op = Attach 'o comparator | Detach 'o

fun subject_step :: "'o subject_op \<Rightarrow> 'o subject \<Rightarrow> 'o subject" where
  \<comment> \<open>constructor and destructor of \<open>FrameObserver\<close>\<close>
  "subject_step (Attach ob c) m = attach_frame_observer ob c m"
| "subject_step (Detach ob) m = detach_frame_observer ob m"

fun registered_step :: "'o subject_op \<Rightarrow> (comparator \<times> 'o) list \<Rightarrow> (comparator \<times> 'o) list" where
  \<comment> \<open>the abstract subject: the registrations alone\<close>
  "registered_step (Attach ob c) r = r @ [(c, ob)]"
| "registered_step (Detach ob) r = filter (\<lambda>(c, ob'). ob' \<noteq> ob) r"

definition h9d_keys :: "comparator set" where
  \<comment> \<open>the keys the daemon registers: \<open>DevMgr\<close> and \<open>Node\<close>\<close>
  "h9d_keys = insert H9FrameComparator (range node_comparator)"

fun op_ok :: "'o subject_op \<Rightarrow> bool" where
  "op_ok (Attach ob c) \<longleftrightarrow> c \<in> h9d_keys"
| "op_ok (Detach ob) \<longleftrightarrow> True"

subsection \<open>Lemmas\<close>

lemma matches_default [simp]: "frame_matches H9FrameComparator f"
  by (simp add: frame_matches_def H9FrameComparator_def)

lemma matches_node [simp]:
  "frame_matches (node_comparator n) f \<longleftrightarrow> n = ucast (source_id f)"
proof -
  have "bit (32 :: u8) k \<longleftrightarrow> k = 5" for k
    using bit_exp_iff [where 'a = u8, of 5 k] by auto
  then show ?thesis by (auto simp: frame_matches_def comparator_defs)
qed

lemma less_keys [simp]:
  "\<not> comparator_less H9FrameComparator H9FrameComparator"
  "comparator_less H9FrameComparator (node_comparator n)"
  "\<not> comparator_less (node_comparator n) H9FrameComparator"
  "comparator_less (node_comparator n) (node_comparator m) \<longleftrightarrow> n < m"
  by (auto simp: comparator_less_def comparator_defs)

lemma node_comparator_inj [simp]: "node_comparator n = node_comparator m \<longleftrightarrow> n = m"
  by (auto simp: comparator_defs)

lemma node_not_default [simp]: "node_comparator n \<noteq> H9FrameComparator"
  by (simp add: comparator_defs)

lemma keys_total:
  assumes "a \<in> h9d_keys" and "b \<in> h9d_keys"
  shows "comparator_less a b \<or> a = b \<or> comparator_less b a"
  using assms by (auto simp: h9d_keys_def not_less_iff_gr_or_eq)

definition registrations :: "'o subject \<Rightarrow> (comparator \<times> 'o) list" where
  "registrations m = concat (map (\<lambda>(k, os). map (Pair k) os) m)"

definition keys_ok :: "'o subject \<Rightarrow> bool" where
  "keys_ok m \<longleftrightarrow> fst ` set m \<subseteq> h9d_keys"

lemma registrations_simps [simp]:
  "registrations [] = []"
  "registrations ((k, os) # m) = map (Pair k) os @ registrations m"
  by (simp_all add: registrations_def)

lemma attach_keys: "keys_ok m \<Longrightarrow> c \<in> h9d_keys \<Longrightarrow> keys_ok (attach_frame_observer ob c m)"
  by (induction ob c m rule: attach_frame_observer.induct) (auto simp: keys_ok_def)

lemma attach_registrations:
  "keys_ok m \<Longrightarrow> c \<in> h9d_keys \<Longrightarrow>
    mset (registrations (attach_frame_observer ob c m)) = add_mset (c, ob) (mset (registrations m))"
  by (induction ob c m rule: attach_frame_observer.induct)
     (auto simp: keys_ok_def dest: keys_total)

lemma detach_keys: "keys_ok m \<Longrightarrow> keys_ok (detach_frame_observer ob m)"
  by (induction ob m rule: detach_frame_observer.induct) (auto simp: keys_ok_def Let_def)

lemma filter_removeAll: "removeAll x xs = filter (\<lambda>y. y \<noteq> x) xs"
  by (induction xs) auto

lemma detach_registrations:
  "registrations (detach_frame_observer ob m) = filter (\<lambda>(c, ob'). ob' \<noteq> ob) (registrations m)"
  by (induction ob m rule: detach_frame_observer.induct)
     (auto simp: Let_def filter_removeAll filter_map comp_def filter_empty_conv)

lemma notify_registrations:
  "notify_frame_observer m f = map snd (filter (\<lambda>(c, ob). frame_matches c f) (registrations m))"
  by (induction m f rule: notify_frame_observer.induct) (auto simp: filter_map comp_def)

lemma subject_refines:
  assumes "\<forall>p \<in> set ops. op_ok p" and "keys_ok m" and "mset (registrations m) = mset r"
  shows "keys_ok (fold subject_step ops m) \<and>
    mset (registrations (fold subject_step ops m)) = mset (fold registered_step ops r)"
  using assms
proof (induction ops arbitrary: m r)
  case Nil
  then show ?case by simp
next
  case (Cons p ops)
  have "keys_ok (subject_step p m) \<and>
      mset (registrations (subject_step p m)) = mset (registered_step p r)"
    using Cons.prems
    by (cases p) (simp_all add: attach_keys attach_registrations detach_keys
        detach_registrations)
  then show ?case using Cons.IH Cons.prems(1) by simp
qed

subsection \<open>Properties\<close>

text \<open>
  C33. Observers get exactly what they asked for: after any sequence of registrations (with the
  keys the daemon uses) and removals, a frame is handed to each registered observer whose
  filter matches it, once per registration, and to nobody else. The daemon's own map refines
  the plain list of registrations.
\<close>

theorem notify_exact:
  assumes "\<forall>p \<in> set ops. op_ok p"
  shows "mset (notify_frame_observer (fold subject_step ops []) f)
    = mset (map snd (filter (\<lambda>(c, ob). frame_matches c f) (fold registered_step ops [])))"
  using subject_refines [OF assms, of "[]" "[]"]
  by (simp add: notify_registrations keys_ok_def)

theorem notify_exact_witness:
  "mset (notify_frame_observer
      (fold subject_step [Attach ''dev'' (node_comparator 7), Attach ''mgr'' H9FrameComparator,
         Attach ''old'' (node_comparator 7), Attach ''x'' (node_comparator 8), Detach ''old''] [])
      (new_frame 0 0 7)) = {#''mgr'', ''dev''#}"
  by (subst notify_exact) (simp_all add: h9d_keys_def new_frame_def)

text \<open>
  \<open>operator<\<close> is not an order: two filters can each be less than the other, so it does not
  meet the strict weak order a \<open>std::map\<close> key needs. The filters the daemon registers are
  safe: on them it is a strict total order.
\<close>

theorem comparator_less_order:
  "(let a = set_type PAGE_FILL_NEXT H9FrameComparator; b = node_comparator 1
    in comparator_less a b \<and> comparator_less b a)
  \<and> (\<forall>a b. a \<in> h9d_keys \<and> b \<in> h9d_keys \<longrightarrow>
      (comparator_less a b \<longleftrightarrow> \<not> comparator_less b a \<and> a \<noteq> b))"
proof
  show "let a = set_type PAGE_FILL_NEXT H9FrameComparator; b = node_comparator 1
    in comparator_less a b \<and> comparator_less b a"
    by (simp add: comparator_less_def comparator_defs)
  show "\<forall>a b. a \<in> h9d_keys \<and> b \<in> h9d_keys \<longrightarrow>
      (comparator_less a b \<longleftrightarrow> \<not> comparator_less b a \<and> a \<noteq> b)"
    by (auto simp: h9d_keys_def not_less_iff_gr_or_eq)
qed

theorem comparator_less_order_witness:
  "comparator_less H9FrameComparator (node_comparator 3) \<and>
   \<not> comparator_less (node_comparator 3) H9FrameComparator"
proof -
  have "H9FrameComparator \<in> h9d_keys" "node_comparator 3 \<in> h9d_keys" by (simp_all add: h9d_keys_def)
  then show ?thesis using comparator_less_order by (simp add: Let_def)
qed

end
