(* ===== verification/H9_Socket.thy ===== *)
theory H9_Socket
  imports H9_Text
begin

text \<open>
  \<open>protocol/h9socket.{h,cc}\<close>: a message on a TCP connection is a length of four bytes, most
  significant first, and that many bytes. \<open>recv\<close> keeps what it has in two buffers between
  calls; the calls of the operating system's \<open>recv\<close> are inputs. The byte machine
  \<open>sock_feed\<close> says what the protocol means; \<open>sock_recv\<close> refines it.
\<close>

subsection \<open>Bytes\<close>

definition be32 :: "u8 list \<Rightarrow> nat" where
  \<comment> \<open>\<open>ntohl\<close> of the four bytes\<close>
  "be32 bs = foldl (\<lambda>a b. 256 * a + unat b) 0 bs"

definition be32_bytes :: "nat \<Rightarrow> u8 list" where
  \<comment> \<open>\<open>htonl(buf.size())\<close> with the size truncated to 32 bits\<close>
  "be32_bytes n = map of_nat [n div 2 ^ 24 mod 256, n div 2 ^ 16 mod 256, n div 2 ^ 8 mod 256, n mod 256]"

definition to_bytes :: "string \<Rightarrow> u8 list" where
  "to_bytes s = map (\<lambda>c. of_nat (of_char c)) s"

definition of_bytes :: "u8 list \<Rightarrow> string" where
  "of_bytes bs = map (\<lambda>b. char_of (unat b)) bs"

definition c_string :: "u8 list \<Rightarrow> string" where
  \<comment> \<open>a \<open>std::string\<close> built from a pointer ends at the first zero byte\<close>
  "c_string bs = of_bytes (takeWhile (\<lambda>b. b \<noteq> 0) bs)"

definition overwrite :: "nat \<Rightarrow> u8 list \<Rightarrow> u8 list \<Rightarrow> u8 list" where
  "overwrite off bs buf = take off buf @ bs @ drop (off + length bs) buf"

subsection \<open>Receiving\<close>

datatype os_recv = Got "u8 list" | Closed | Os_error int

record h9socket =
  header_buf :: "u8 list"
  data_buf :: "u8 list"
  recv_bytes :: nat
  bytes_to_recv :: nat

definition new_h9socket :: "u8 list \<Rightarrow> u8 list \<Rightarrow> h9socket" where
  \<comment> \<open>the buffers are not initialised: the arguments are what the memory held\<close>
  "new_h9socket h d = \<lparr>header_buf = h, data_buf = d, recv_bytes = 0, bytes_to_recv = 4\<rparr>"

datatype recv_result =
    Msg string
  | Again
  | Ret os_recv

definition recv_finish :: "h9socket \<Rightarrow> recv_result \<times> h9socket" where
  "recv_finish s =
     (if recv_bytes s < bytes_to_recv s then (Again, s)
      else let s1 = s\<lparr>data_buf := (data_buf s)[recv_bytes s - 4 := 0]\<rparr>
           in (Msg (c_string (data_buf s1)), s1\<lparr>bytes_to_recv := 4, recv_bytes := 0\<rparr>))"

definition recv_data :: "os_recv \<Rightarrow> h9socket \<Rightarrow> recv_result \<times> h9socket" where
  "recv_data r s = (case r of
       Got bs \<Rightarrow> recv_finish (s\<lparr>data_buf := overwrite (recv_bytes s - 4) bs (data_buf s),
                               recv_bytes := recv_bytes s + length bs\<rparr>)
     | _ \<Rightarrow> (Ret r, s))"

definition grow_buf :: "u8 list \<Rightarrow> nat \<Rightarrow> h9socket \<Rightarrow> h9socket" where
  \<comment> \<open>\<open>realloc\<close> to \<open>tmp + 1\<close> bytes when the buffer is smaller; the new bytes are arbitrary\<close>
  "grow_buf garbage tmp s =
     (if tmp > length (data_buf s) - 1
      then s\<lparr>data_buf := data_buf s @ take (tmp + 1 - length (data_buf s)) (garbage @ replicate (tmp + 1) 0)\<rparr>
      else s)"

definition sock_recv :: "u8 list \<Rightarrow> os_recv \<Rightarrow> os_recv \<Rightarrow> h9socket \<Rightarrow> recv_result \<times> h9socket" where
  \<comment> \<open>\<open>H9Socket::recv\<close>: the first and the second call of \<open>::recv\<close> the code makes\<close>
  "sock_recv garbage r1 r2 s =
     (if recv_bytes s < 4 then
        (case r1 of
           Got bs \<Rightarrow>
             (let s1 = s\<lparr>header_buf := overwrite (recv_bytes s) bs (header_buf s),
                         recv_bytes := recv_bytes s + length bs\<rparr> in
              if recv_bytes s1 = 4 then
                (let tmp = be32 (header_buf s1); s2 = grow_buf garbage tmp s1
                 in recv_data r2 (s2\<lparr>bytes_to_recv := bytes_to_recv s2 + tmp\<rparr>))
              else recv_finish s1)
         | _ \<Rightarrow> (Ret r1, s))
      else recv_data r1 s)"

definition sock_wire :: "string \<Rightarrow> u8 list" where
  \<comment> \<open>the bytes of the two calls of \<open>::send\<close> in \<open>H9Socket::send\<close>\<close>
  "sock_wire m = be32_bytes (length m) @ to_bytes m"

definition sock_send :: "int \<Rightarrow> int \<Rightarrow> string \<Rightarrow> int" where
  \<comment> \<open>the value of \<open>H9Socket::send\<close> for the results of its two calls\<close>
  "sock_send n1 n2 m =
     (if n1 \<le> 0 then n1 else if n2 \<le> 0 then n2
      else if n2 \<noteq> int (length m) then -1 else n2 + 4)"

subsection \<open>The byte machine\<close>

fun sock_feed :: "u8 list \<Rightarrow> u8 list \<Rightarrow> u8 list \<times> string list" where
  \<comment> \<open>the bytes of the message so far and the bytes that arrive; a message of length zero
      blocks the connection for good\<close>
  "sock_feed acc [] = (acc, [])"
| "sock_feed acc (b # bs) =
     (if length acc = 4 \<and> be32 acc = 0 then sock_feed acc bs
      else let acc1 = acc @ [b] in
        if 4 < length acc1 \<and> length acc1 = 4 + be32 (take 4 acc1)
        then (let (acc2, ms) = sock_feed [] bs in (acc2, c_string (drop 4 acc1) # ms))
        else sock_feed acc1 bs)"

declare sock_feed.simps(2) [simp del]

definition dead :: "u8 list \<Rightarrow> bool" where
  "dead acc \<longleftrightarrow> length acc = 4 \<and> be32 acc = 0"

definition complete :: "u8 list \<Rightarrow> bool" where
  "complete acc \<longleftrightarrow> 4 < length acc \<and> length acc = 4 + be32 (take 4 acc)"

lemma feed_dead: "dead acc \<Longrightarrow> sock_feed acc (b # bs) = sock_feed acc bs"
  unfolding sock_feed.simps(2) dead_def by (rule if_P)

lemma feed_emit:
  assumes "\<not> dead acc" and "complete (acc @ [b])"
  shows "sock_feed acc (b # bs) =
     (let (acc2, ms) = sock_feed [] bs in (acc2, c_string (drop 4 (acc @ [b])) # ms))"
proof -
  note a = assms [unfolded dead_def complete_def]
  show ?thesis unfolding sock_feed.simps(2) Let_def if_not_P [OF a(1)] if_P [OF a(2)] by (rule refl)
qed

lemma feed_more:
  assumes "\<not> dead acc" and "\<not> complete (acc @ [b])"
  shows "sock_feed acc (b # bs) = sock_feed (acc @ [b]) bs"
proof -
  note a = assms [unfolded dead_def complete_def]
  show ?thesis unfolding sock_feed.simps(2) Let_def if_not_P [OF a(1)] if_not_P [OF a(2)] by (rule refl)
qed

lemmas sock_feed_Cons = feed_dead feed_emit feed_more

lemma sock_feed_append:
  "sock_feed acc (xs @ ys) =
    (let (a1, m1) = sock_feed acc xs; (a2, m2) = sock_feed a1 ys in (a2, m1 @ m2))"
proof (induction xs arbitrary: acc)
  case Nil
  then show ?case by simp
next
  case (Cons b bs)
  show ?case
  proof (cases "dead acc")
    case True
    then show ?thesis by (simp add: sock_feed_Cons Cons.IH)
  next
    case nd: False
    show ?thesis
    proof (cases "complete (acc @ [b])")
      case True
      then show ?thesis by (simp add: sock_feed_Cons nd Cons.IH split: prod.splits)
    next
      case False
      then show ?thesis by (simp add: sock_feed_Cons nd Cons.IH)
    qed
  qed
qed

interpretation sock: chunked sock_feed
  by unfold_locales (simp_all only: sock_feed.simps sock_feed_append)

subsection \<open>Lemmas: bytes\<close>

lemma length_be32_bytes [simp]: "length (be32_bytes n) = 4"
  by (simp add: be32_bytes_def)

lemma unat_of_nat_mod: "unat (of_nat (n mod 256) :: u8) = n mod 256"
  by (simp add: unat_of_nat)

lemma be32_be32_bytes [simp]: "n < 2 ^ 32 \<Longrightarrow> be32 (be32_bytes n) = n"
proof -
  assume n: "n < 2 ^ 32"
  define a b c where "a = n div 2 ^ 24" and "b = n div 2 ^ 16" and "c = n div 2 ^ 8"
  have "b div 256 = a" "c div 256 = b" "n div 256 = c"
    by (simp_all add: a_def b_def c_def div_mult2_eq [symmetric])
  moreover have "a mod 256 = a" using n by (simp add: a_def)
  ultimately have *: "256 * (256 * (256 * (256 * 0 + a mod 256) + b mod 256) + c mod 256) + n mod 256 = n"
    by (metis mult.commute div_mult_mod_eq add_0 mult_0_right)
  show ?thesis
    unfolding be32_def be32_bytes_def list.map foldl.simps unat_of_nat_mod
    using * by (simp only: a_def b_def c_def)
qed

lemma of_to_bytes [simp]: "of_bytes (to_bytes s) = s"
  by (induction s) (simp_all add: of_bytes_def to_bytes_def unat_of_nat)

lemma length_to_bytes [simp]: "length (to_bytes s) = length s"
  by (simp add: to_bytes_def)

lemma to_bytes_zero: "CHR 0x00 \<notin> set s \<Longrightarrow> 0 \<notin> set (to_bytes s)"
proof
  assume "CHR 0x00 \<notin> set s" and "0 \<in> set (to_bytes s)"
  then obtain c where c: "c \<in> set s" "(of_nat (of_char c) :: u8) = 0"
    by (auto simp: to_bytes_def)
  then have "unat (of_nat (of_char c) :: u8) = 0" by simp
  then have "(of_char c :: nat) = 0" by (simp add: unat_of_nat)
  then have "char_of (of_char c :: nat) = (char_of (0 :: nat) :: char)" by (rule arg_cong)
  then have "c = char_of (0 :: nat)" by simp
  also have "\<dots> = CHR 0x00" by (simp add: char_of_def)
  finally have "c = CHR 0x00" .
  with c \<open>CHR 0x00 \<notin> set s\<close> show False by simp
qed

lemma c_string_bytes [simp]: "CHR 0x00 \<notin> set s \<Longrightarrow> c_string (to_bytes s) = s"
proof -
  assume "CHR 0x00 \<notin> set s"
  then have "\<forall>b \<in> set (to_bytes s). b \<noteq> 0" using to_bytes_zero by blast
  then have "takeWhile (\<lambda>b. b \<noteq> 0) (to_bytes s) = to_bytes s"
    by (simp only: takeWhile_eq_all_conv)
  then show ?thesis by (simp only: c_string_def of_to_bytes)
qed


subsection \<open>Lemmas: the byte machine\<close>

lemma feed_header:
  "length acc < 4 \<Longrightarrow> length acc + length bs \<le> 4 \<Longrightarrow> sock_feed acc bs = (acc @ bs, [])"
proof (induction bs arbitrary: acc)
  case Nil
  then show ?case by simp
next
  case (Cons b bs)
  have "\<not> dead acc" "\<not> complete (acc @ [b])" using Cons.prems by (simp_all add: dead_def complete_def)
  then have *: "sock_feed acc (b # bs) = sock_feed (acc @ [b]) bs" by (rule feed_more)
  show ?case
  proof (cases "bs = []")
    case True
    with * show ?thesis by simp
  next
    case False
    then have "0 < length bs" by simp
    with Cons.prems have "length (acc @ [b]) < 4" "length (acc @ [b]) + length bs \<le> 4"
      by (simp_all del: length_greater_0_conv)
    from Cons.IH [OF this] show ?thesis by (simp add: *)
  qed
qed

lemma feed_data:
  assumes "4 \<le> length acc" and "be32 (take 4 acc) = L" and "0 < L" and "bs \<noteq> []"
    and "length acc + length bs \<le> 4 + L"
  shows "sock_feed acc bs = (if length acc + length bs = 4 + L
    then ([], [c_string (drop 4 (acc @ bs))]) else (acc @ bs, []))"
  using assms
proof (induction bs arbitrary: acc)
  case Nil
  then show ?case by simp
next
  case (Cons b bs)
  have nd: "\<not> dead acc" using Cons.prems(2,3) by (auto simp: dead_def)
  have t: "take 4 (acc @ [b]) = take 4 acc" using Cons.prems(1) by simp
  have c: "complete (acc @ [b]) \<longleftrightarrow> Suc (length acc) = 4 + L"
    using Cons.prems(1,2) unfolding complete_def t by auto
  show ?case
  proof (cases "bs = []")
    case bs: True
    show ?thesis
    proof (cases "complete (acc @ [b])")
      case True
      with c show ?thesis unfolding bs feed_emit [OF nd True] by simp
    next
      case False
      with c show ?thesis unfolding bs feed_more [OF nd False] by simp
    qed
  next
    case False
    then have l: "0 < length bs" by simp
    with Cons.prems(5) have "Suc (length acc) \<noteq> 4 + L" by (simp del: length_greater_0_conv)
    with c have *: "sock_feed acc (b # bs) = sock_feed (acc @ [b]) bs"
      using nd by (intro feed_more) simp_all
    have "sock_feed (acc @ [b]) bs = (if length (acc @ [b]) + length bs = 4 + L
        then ([], [c_string (drop 4 ((acc @ [b]) @ bs))]) else ((acc @ [b]) @ bs, []))"
      using Cons.prems False by (intro Cons.IH) (simp_all only: t, simp_all)
    then show ?thesis unfolding * by simp
  qed
qed

lemma feed_message:
  assumes "m \<noteq> []" and "length m < 2 ^ 32" and "CHR 0x00 \<notin> set m"
  shows "sock_feed [] (sock_wire m) = ([], [m])"
proof -
  have "sock_feed [] (sock_wire m) =
      (let (a1, m1) = sock_feed [] (be32_bytes (length m)); (a2, m2) = sock_feed a1 (to_bytes m)
       in (a2, m1 @ m2))"
    unfolding sock_wire_def by (rule sock_feed_append)
  moreover have "sock_feed [] (be32_bytes (length m)) = (be32_bytes (length m), [])"
    by (subst feed_header) simp_all
  moreover have "to_bytes m \<noteq> []" using assms(1) by (simp add: to_bytes_def)
  then have "sock_feed (be32_bytes (length m)) (to_bytes m) = ([], [m])"
    using assms by (subst feed_data [where L = "length m"]) simp_all
  ultimately show ?thesis by simp
qed

lemma feed_messages:
  assumes "\<forall>m \<in> set ms. m \<noteq> [] \<and> length m < 2 ^ 32 \<and> CHR 0x00 \<notin> set m"
  shows "sock_feed [] (concat (map sock_wire ms)) = ([], ms)"
  using assms by (induction ms) (simp_all add: sock_feed_append feed_message)

subsection \<open>Refinement\<close>

definition got :: "os_recv \<Rightarrow> u8 list" where
  "got r = (case r of Got bs \<Rightarrow> bs | _ \<Rightarrow> [])"

definition os_ok :: "nat \<Rightarrow> os_recv \<Rightarrow> bool" where
  \<comment> \<open>the contract of \<open>::recv\<close> for a request of so many bytes\<close>
  "os_ok n r \<longleftrightarrow> (case r of Got bs \<Rightarrow> 0 < length bs \<and> length bs \<le> n | _ \<Rightarrow> True)"

definition received :: "h9socket \<Rightarrow> u8 list" where
  "received s = take (recv_bytes s) (header_buf s) @ take (recv_bytes s - 4) (data_buf s)"

definition sock_inv :: "h9socket \<Rightarrow> bool" where
  "sock_inv s \<longleftrightarrow> length (header_buf s) = 4 \<and> data_buf s \<noteq> [] \<and>
     (if recv_bytes s < 4 then bytes_to_recv s = 4
      else bytes_to_recv s = 4 + be32 (header_buf s) \<and> be32 (header_buf s) < length (data_buf s) \<and>
        (recv_bytes s < bytes_to_recv s \<or> recv_bytes s = 4))"

definition consumed :: "os_recv \<Rightarrow> os_recv \<Rightarrow> h9socket \<Rightarrow> u8 list" where
  \<comment> \<open>the bytes one call of \<open>recv\<close> takes from the connection\<close>
  "consumed r1 r2 s = (if recv_bytes s < 4 \<and> recv_bytes s + length (got r1) = 4
     then got r1 @ got r2 else got r1)"

definition messages :: "recv_result \<Rightarrow> string list" where
  "messages r = (case r of Msg m \<Rightarrow> [m] | _ \<Rightarrow> [])"

definition recv_allowed :: "h9socket \<Rightarrow> os_recv \<Rightarrow> os_recv \<Rightarrow> bool" where
  "recv_allowed s r1 r2 \<longleftrightarrow>
     os_ok (if recv_bytes s < 4 then 4 - recv_bytes s else bytes_to_recv s - recv_bytes s) r1 \<and>
     os_ok (be32 (overwrite (recv_bytes s) (got r1) (header_buf s))) r2"

lemma c_string_cut: "n < length bs \<Longrightarrow> c_string (bs[n := 0]) = c_string (take n bs)"
proof -
  assume "n < length bs"
  then have "bs[n := 0] = take n bs @ 0 # drop (Suc n) bs" by (rule upd_conv_take_nth_drop)
  then have "takeWhile (\<lambda>b. b \<noteq> 0) (bs[n := 0]) = takeWhile (\<lambda>b. b \<noteq> 0) (take n bs)"
    by (simp add: takeWhile_tail)
  then show ?thesis by (simp only: c_string_def)
qed

lemma length_overwrite: "off + length bs \<le> length buf \<Longrightarrow> length (overwrite off bs buf) = length buf"
  by (simp add: overwrite_def)

lemma take_overwrite:
  "off + length bs \<le> length buf \<Longrightarrow> take (off + length bs) (overwrite off bs buf) = take off buf @ bs"
  by (simp add: overwrite_def)

lemma recv_data_refines:
  assumes "sock_inv s" and "4 \<le> recv_bytes s" and "os_ok (bytes_to_recv s - recv_bytes s) r"
    and "recv_data r s = (res, s')"
  shows "sock_inv s' \<and> sock_feed (received s) (got r) = (received s', messages res)"
proof (cases "\<exists>bs. r = Got bs")
  case False
  then have "got r = []" "res = Ret r" "s' = s"
    using assms(4) by (auto simp: got_def recv_data_def split: os_recv.splits)
  then show ?thesis using assms(1) by (simp add: messages_def)
next
  case True
  then obtain bs where r: "r = Got bs" by blast
  let ?L = "be32 (header_buf s)" and ?n = "recv_bytes s - 4"
  have i: "length (header_buf s) = 4" "bytes_to_recv s = 4 + ?L" "?L < length (data_buf s)"
    using assms(1,2) by (auto simp: sock_inv_def split: if_splits)
  have lb: "0 < length bs" "length bs \<le> 4 + ?L - recv_bytes s"
    using assms(3) i(2) r by (simp_all add: os_ok_def)
  then have b: "bs \<noteq> []" "recv_bytes s + length bs \<le> 4 + ?L" by (auto, linarith)
  let ?d = "overwrite ?n bs (data_buf s)"
  have ld: "length ?d = length (data_buf s)" using b i assms(2) by (subst length_overwrite) simp_all
  have td: "take (?n + length bs) ?d = take ?n (data_buf s) @ bs"
    using b i assms(2) by (subst take_overwrite) simp_all
  have acc: "received s = header_buf s @ take ?n (data_buf s)"
    using assms(2) i(1) by (simp add: received_def)
  have t4: "take 4 (received s) = header_buf s" "length (received s) = recv_bytes s"
    using acc i b(2) assms(2) by simp_all
  have L: "0 < ?L" using b assms(2) by (cases bs) auto
  have d4: "drop 4 (received s @ bs) = take ?n (data_buf s) @ bs" using acc i(1) by simp
  have feed: "sock_feed (received s) bs = (if recv_bytes s + length bs = 4 + ?L
      then ([], [c_string (take ?n (data_buf s) @ bs)])
      else (received s @ bs, []))"
    by (rule feed_data [of "received s" ?L bs, unfolded t4 d4, OF assms(2) refl L b])
  show ?thesis
  proof (cases "recv_bytes s + length bs = 4 + ?L")
    case True
    then have nn: "?n + length bs = ?L" using assms(2) by simp
    have "res = Msg (c_string (take ?L ?d))"
      and "s' = s\<lparr>data_buf := ?d[?L := 0], bytes_to_recv := 4, recv_bytes := 0\<rparr>"
      using assms(4) r i True ld by (simp_all add: recv_data_def recv_finish_def c_string_cut)
    then show ?thesis
      using feed True i ld td nn r L
      by (auto simp: sock_inv_def messages_def received_def got_def)
  next
    case False
    then have "res = Again" and "s' = s\<lparr>data_buf := ?d, recv_bytes := recv_bytes s + length bs\<rparr>"
      using assms(4) r i b by (simp_all add: recv_data_def recv_finish_def)
    then show ?thesis
      using feed False i ld td r b assms(1,2) acc
      by (auto simp: sock_inv_def messages_def received_def got_def)
  qed
qed

lemma grow_buf_props:
  "data_buf s \<noteq> [] \<Longrightarrow>
    tmp < length (data_buf (grow_buf g tmp s)) \<and> data_buf (grow_buf g tmp s) \<noteq> [] \<and>
    header_buf (grow_buf g tmp s) = header_buf s \<and> recv_bytes (grow_buf g tmp s) = recv_bytes s \<and>
    bytes_to_recv (grow_buf g tmp s) = bytes_to_recv s"
  by (cases "data_buf s") (auto simp: grow_buf_def)

lemma sock_recv_refines:
  assumes "sock_inv s" and "recv_allowed s r1 r2" and "sock_recv g r1 r2 s = (res, s')"
  shows "sock_inv s' \<and> sock_feed (received s) (consumed r1 r2 s) = (received s', messages res)"
proof (cases "recv_bytes s < 4")
  case False
  then show ?thesis
    using assms recv_data_refines [of s r1 res s']
    by (auto simp: sock_recv_def consumed_def recv_allowed_def)
next
  case lt: True
  have i: "length (header_buf s) = 4" "data_buf s \<noteq> []" "bytes_to_recv s = 4"
    using assms(1) lt by (simp_all add: sock_inv_def)
  show ?thesis
  proof (cases "\<exists>bs. r1 = Got bs")
    case False
    then have "consumed r1 r2 s = []" "res = Ret r1" "s' = s"
      using assms(3) lt by (auto simp: got_def consumed_def sock_recv_def split: os_recv.splits)
    then show ?thesis using assms(1) by (simp add: messages_def)
  next
    case True
    then obtain bs where r1: "r1 = Got bs" by blast
    have b: "0 < length bs" "recv_bytes s + length bs \<le> 4"
      using assms(2) lt r1 by (auto simp: recv_allowed_def os_ok_def)
    let ?h = "overwrite (recv_bytes s) bs (header_buf s)"
    let ?s1 = "s\<lparr>header_buf := ?h, recv_bytes := recv_bytes s + length bs\<rparr>"
    have lh: "length ?h = 4" using b i by (subst length_overwrite) simp_all
    have th: "take (recv_bytes s + length bs) ?h = take (recv_bytes s) (header_buf s) @ bs"
      using b i by (subst take_overwrite) simp_all
    have acc: "received s = take (recv_bytes s) (header_buf s)" using lt by (simp add: received_def)
    have f1: "sock_feed (received s) bs = (received s @ bs, [])"
      using b i lt by (intro feed_header) (simp_all add: acc)
    show ?thesis
    proof (cases "recv_bytes s + length bs = 4")
      case False
      then have "res = Again" "s' = ?s1"
        using assms(3) lt r1 b i by (simp_all add: sock_recv_def recv_finish_def)
      then show ?thesis
        using False b lh i f1 acc th r1
        by (simp add: sock_inv_def consumed_def got_def messages_def received_def)
    next
      case eq: True
      let ?L = "be32 ?h"
      let ?s2 = "grow_buf g ?L ?s1"
      let ?s3 = "?s2\<lparr>bytes_to_recv := bytes_to_recv ?s2 + ?L\<rparr>"
      have g: "?L < length (data_buf ?s2)" "data_buf ?s2 \<noteq> []" "header_buf ?s2 = ?h"
        "recv_bytes ?s2 = 4" "bytes_to_recv ?s2 = 4"
        using grow_buf_props [of ?s1 ?L g] i eq by auto
      have inv3: "sock_inv ?s3" using g lh by (simp add: sock_inv_def)
      have r: "recv_data r2 ?s3 = (res, s')"
        using assms(3) lt r1 eq by (simp add: sock_recv_def Let_def)
      have "received ?s3 = ?h" using g lh by (simp add: received_def)
      moreover have "?h = received s @ bs" using th eq lh by (simp add: acc)
      moreover have "os_ok (bytes_to_recv ?s3 - recv_bytes ?s3) r2"
        using assms(2) g r1 by (simp add: recv_allowed_def got_def)
      then have "sock_inv s' \<and> sock_feed (received ?s3) (got r2) = (received s', messages res)"
        using g by (intro recv_data_refines [OF inv3 _ _ r]) simp_all
      moreover have "consumed r1 r2 s = bs @ got r2"
        using lt eq r1 by (simp add: consumed_def got_def)
      ultimately show ?thesis using f1 by (simp add: sock_feed_append)
    qed
  qed
qed

subsection \<open>A connection\<close>

fun sock_run :: "(u8 list \<times> os_recv \<times> os_recv) list \<Rightarrow> h9socket \<Rightarrow> string list \<times> h9socket" where
  \<comment> \<open>repeated calls of \<open>recv\<close>; the messages they return\<close>
  "sock_run [] s = ([], s)"
| "sock_run ((g, r1, r2) # rs) s =
     (let (res, s1) = sock_recv g r1 r2 s; (ms, s2) = sock_run rs s1 in (messages res @ ms, s2))"

fun run_allowed :: "(u8 list \<times> os_recv \<times> os_recv) list \<Rightarrow> h9socket \<Rightarrow> bool" where
  "run_allowed [] s \<longleftrightarrow> True"
| "run_allowed ((g, r1, r2) # rs) s \<longleftrightarrow>
     recv_allowed s r1 r2 \<and> run_allowed rs (snd (sock_recv g r1 r2 s))"

fun run_bytes :: "(u8 list \<times> os_recv \<times> os_recv) list \<Rightarrow> h9socket \<Rightarrow> u8 list" where
  "run_bytes [] s = []"
| "run_bytes ((g, r1, r2) # rs) s =
     consumed r1 r2 s @ run_bytes rs (snd (sock_recv g r1 r2 s))"

lemma sock_run_refines:
  assumes "sock_inv s" and "run_allowed rs s" and "sock_run rs s = (ms, s')"
  shows "sock_feed (received s) (run_bytes rs s) = (received s', ms)"
  using assms
proof (induction rs s arbitrary: ms rule: run_bytes.induct)
  case (1 s)
  then show ?case by simp
next
  case (2 g r1 r2 rs s)
  obtain res s1 where r: "sock_recv g r1 r2 s = (res, s1)" by force
  obtain ms2 where ms2: "sock_run rs s1 = (ms2, s')" "ms = messages res @ ms2"
    using 2(4) r by (auto split: prod.splits)
  have s1: "sock_inv s1" "sock_feed (received s) (consumed r1 r2 s) = (received s1, messages res)"
    using sock_recv_refines [OF 2(2) _ r] 2(3) by simp_all
  then have "sock_feed (received s1) (run_bytes rs s1) = (received s', ms2)"
    using 2(1) [of ms2] 2(3) r ms2 by simp
  with s1 ms2 r show ?case by (simp add: sock_feed_append)
qed

lemma new_socket_inv: "length h = 4 \<Longrightarrow> d \<noteq> [] \<Longrightarrow> sock_inv (new_h9socket h d)"
  by (simp add: sock_inv_def new_h9socket_def)

lemma received_new [simp]: "received (new_h9socket h d) = []"
  by (simp add: received_def new_h9socket_def)

subsection \<open>Properties\<close>

text \<open>
  C3. Messages arrive whole and in order: however the operating system cuts the byte stream
  into partial reads, interruptions and timeouts, the messages that the calls of \<open>recv\<close>
  return are the messages that were sent, once the calls have taken all their bytes.
\<close>

theorem socket_stream:
  assumes "length h = 4" and "d \<noteq> []"
    and "\<forall>m \<in> set ms. m \<noteq> [] \<and> length m < 2 ^ 32 \<and> CHR 0x00 \<notin> set m"
    and "run_allowed rs (new_h9socket h d)"
    and "run_bytes rs (new_h9socket h d) = concat (map sock_wire ms)"
  shows "fst (sock_run rs (new_h9socket h d)) = ms"
proof -
  obtain ms' s' where r: "sock_run rs (new_h9socket h d) = (ms', s')" by force
  from sock_run_refines [OF new_socket_inv [OF assms(1,2)] assms(4) r]
  have "sock_feed [] (concat (map sock_wire ms)) = (received s', ms')" by (simp add: assms(5))
  with feed_messages [OF assms(3)] r show ?thesis by simp
qed

text \<open>
  C12. \<open>recv\<close> refines the byte machine step by step and never writes outside its buffers: from
  any state with the invariant, whatever the system returns within its contract, the state
  afterwards has the invariant (the bytes received fit, with room for the final zero) and
  stands for the bytes the protocol machine has after the same input.
\<close>

theorem sock_recv_refinement:
  assumes "sock_inv s" and "recv_allowed s r1 r2" and "sock_recv g r1 r2 s = (res, s')"
  shows "sock_inv s' \<and> recv_bytes s' - 4 < length (data_buf s') \<and>
    sock_feed (received s) (consumed r1 r2 s) = (received s', messages res)"
  using sock_recv_refines [OF assms] by (auto simp: sock_inv_def split: if_splits)

text \<open>
  An empty message ends the connection: the length zero makes the next request ask for no
  byte, the system answers 0, and the code takes this for the end of the stream; nothing
  sent afterwards is delivered.
\<close>

theorem empty_message_closes:
  assumes "length h = 4" and "d \<noteq> []" and "os_ok 0 r2" and "r2 = Got bs \<or> r2 = Closed"
  shows "(case sock_recv g (Got (sock_wire [])) r2 (new_h9socket h d) of
      (res, s) \<Rightarrow> res = Ret Closed \<and> (\<forall>rest. snd (sock_feed (received s) rest) = []))"
proof -
  have r2: "r2 = Closed" using assms(3,4) by (auto simp: os_ok_def)
  have w: "sock_wire [] = [0, 0, 0, 0]" by (simp add: sock_wire_def be32_bytes_def to_bytes_def)
  have "snd (sock_feed [0, 0, 0, 0] rest) = []" for rest
    by (induction rest) (simp_all add: sock_feed_Cons dead_def be32_def)
  then show ?thesis
    using assms(1,2)
    by (simp add: w r2 sock_recv_def new_h9socket_def overwrite_def recv_data_def grow_buf_def
        be32_def Let_def received_def)
qed

subsection \<open>Witnesses\<close>

definition sample_run :: "(u8 list \<times> os_recv \<times> os_recv) list" where
  "sample_run = [([], Got [0, 0], Closed), ([], Os_error 11, Closed), ([], Got [0, 2], Got [104]),
     ([], Got [105], Closed)]"

lemmas run_defs = sample_run_def new_h9socket_def sock_recv_def recv_data_def recv_finish_def
  grow_buf_def overwrite_def be32_def recv_allowed_def os_ok_def consumed_def got_def Let_def

theorem socket_stream_witness:
  "fst (sock_run sample_run (new_h9socket [1, 2, 3, 4] (replicate 9 7))) = [''hi'']"
proof (rule socket_stream)
  show "run_allowed sample_run (new_h9socket [1, 2, 3, 4] (replicate 9 7))"
    by (simp add: run_defs)
  show "run_bytes sample_run (new_h9socket [1, 2, 3, 4] (replicate 9 7)) = concat (map sock_wire [''hi''])"
    by (simp add: run_defs sock_wire_def be32_bytes_def to_bytes_def)
qed simp_all

theorem sock_recv_refinement_witness:
  "\<exists>res s'. sock_recv [] (Got [0, 0, 0, 2]) (Got [104, 105]) (new_h9socket [1, 2, 3, 4] [7]) = (res, s')
    \<and> sock_inv s' \<and> sock_feed [] [0, 0, 0, 2, 104, 105] = (received s', messages res)"
proof -
  let ?s = "new_h9socket [1, 2, 3, 4] [7]"
  obtain res s' where r: "sock_recv [] (Got [0, 0, 0, 2]) (Got [104, 105]) ?s = (res, s')" by force
  have "sock_inv ?s" by (rule new_socket_inv) simp_all
  moreover have "recv_allowed ?s (Got [0, 0, 0, 2]) (Got [104, 105])" by (simp add: run_defs)
  ultimately have "sock_inv s' \<and> recv_bytes s' - 4 < length (data_buf s') \<and>
      sock_feed (received ?s) (consumed (Got [0, 0, 0, 2]) (Got [104, 105]) ?s) = (received s', messages res)"
    using r by (rule sock_recv_refinement)
  moreover have "consumed (Got [0, 0, 0, 2]) (Got [104, 105]) ?s = [0, 0, 0, 2, 104, 105]"
    by (simp add: run_defs)
  ultimately show ?thesis using r by simp
qed

theorem empty_message_closes_witness:
  "fst (sock_recv [] (Got (sock_wire [])) Closed (new_h9socket [1, 2, 3, 4] [7])) = Ret Closed"
  using empty_message_closes [of "[1, 2, 3, 4]" "[7]" Closed "[]" "[]"]
  by (auto simp: os_ok_def split: prod.splits)

end
