(* ===== verification/H9_Msg.thy ===== *)
theory H9_Msg
  imports H9_Frame
begin

text \<open>
  The messages of the h9 protocol: \<open>protocol/genericmsg.{h,cc}\<close>, \<open>concretizemsg.h\<close>,
  \<open>genericframemsg.h\<close>, \<open>framemsg\<close>, \<open>sendframemsg\<close>, \<open>errormsg\<close>, \<open>genericmethod.h\<close>,
  \<open>value\<close>, the method calls and responses, \<open>deviceevent\<close> and \<open>identificationmsg\<close>. A message is
  an XML document kept by libxml2; the operations of that library are a parameter, the
  record \<open>libxml\<close>, and \<open>xml_laws\<close> states the documented behaviour the code relies on. The
  concrete tree \<open>xtree\<close> shows that the laws can hold.
\<close>

subsection \<open>libxml2\<close>

record 'n libxml =
  xnew :: "string \<Rightarrow> 'n"
  xname :: "'n \<Rightarrow> string"
  xnew_prop :: "'n \<Rightarrow> string \<Rightarrow> string \<Rightarrow> 'n"
  xset_prop :: "'n \<Rightarrow> string \<Rightarrow> string \<Rightarrow> 'n"
  xget_prop :: "'n \<Rightarrow> string \<Rightarrow> string option"
  xtext_child :: "string \<Rightarrow> string \<Rightarrow> 'n"
  xtext :: "'n \<Rightarrow> string option"
  xadd_child :: "'n \<Rightarrow> 'n \<Rightarrow> 'n"
  xelems :: "'n \<Rightarrow> 'n list"

definition xml_laws :: "'n libxml \<Rightarrow> bool" where
  \<comment> \<open>\<open>xmlNewNode\<close>, \<open>xmlNewTextChild\<close>, \<open>xmlNewProp\<close>, \<open>xmlSetProp\<close>, \<open>xmlGetProp\<close>,
      \<open>xmlAddChild\<close>, the element children and the text of the first child\<close>
  "xml_laws X \<longleftrightarrow>
     (\<forall>t. xname X (xnew X t) = t \<and> xelems X (xnew X t) = [] \<and> xtext X (xnew X t) = None) \<and>
     (\<forall>t k. xget_prop X (xnew X t) k = None) \<and>
     (\<forall>t v. xname X (xtext_child X t v) = t \<and> xelems X (xtext_child X t v) = [] \<and>
        xtext X (xtext_child X t v) = (if v = [] then None else Some v)) \<and>
     (\<forall>t v k. xget_prop X (xtext_child X t v) k = None) \<and>
     (\<forall>n k v. xname X (xset_prop X n k v) = xname X n \<and> xelems X (xset_prop X n k v) = xelems X n \<and>
        xtext X (xset_prop X n k v) = xtext X n) \<and>
     (\<forall>n k v. xname X (xnew_prop X n k v) = xname X n \<and> xelems X (xnew_prop X n k v) = xelems X n \<and>
        xtext X (xnew_prop X n k v) = xtext X n) \<and>
     (\<forall>n k v j. xget_prop X (xset_prop X n k v) j = (if j = k then Some v else xget_prop X n j)) \<and>
     (\<forall>n k v j. xget_prop X (xnew_prop X n k v) j =
        (if j = k \<and> xget_prop X n k = None then Some v else xget_prop X n j)) \<and>
     (\<forall>n c. xname X (xadd_child X n c) = xname X n \<and> xelems X (xadd_child X n c) = xelems X n @ [c]) \<and>
     (\<forall>n c k. xget_prop X (xadd_child X n c) k = xget_prop X n k)"

lemma xml_lawsD [simp]:
  assumes "xml_laws X"
  shows "xname X (xnew X t) = t" "xelems X (xnew X t) = []" "xtext X (xnew X t) = None"
    "xget_prop X (xnew X t) k = None"
    "xname X (xtext_child X t v) = t" "xelems X (xtext_child X t v) = []"
    "xtext X (xtext_child X t v) = (if v = [] then None else Some v)"
    "xget_prop X (xtext_child X t v) k = None"
    "xname X (xset_prop X n k v) = xname X n" "xelems X (xset_prop X n k v) = xelems X n"
    "xtext X (xset_prop X n k v) = xtext X n"
    "xname X (xnew_prop X n k v) = xname X n" "xelems X (xnew_prop X n k v) = xelems X n"
    "xtext X (xnew_prop X n k v) = xtext X n"
    "xget_prop X (xset_prop X n k v) j = (if j = k then Some v else xget_prop X n j)"
    "xget_prop X (xnew_prop X n k v) j =
        (if j = k \<and> xget_prop X n k = None then Some v else xget_prop X n j)"
    "xname X (xadd_child X n c) = xname X n" "xelems X (xadd_child X n c) = xelems X n @ [c]"
    "xget_prop X (xadd_child X n c) k = xget_prop X n k"
  using assms by (simp_all add: xml_laws_def)

datatype xtree = XT (xt_name: string) (xt_props: "(string \<times> string) list")
  (xt_text: "string option") (xt_elems: "xtree list")

definition xtree_ops :: "xtree libxml" where
  "xtree_ops = \<lparr>xnew = (\<lambda>t. XT t [] None []), xname = xt_name,
     xnew_prop = (\<lambda>n k v. XT (xt_name n) (xt_props n @ [(k, v)]) (xt_text n) (xt_elems n)),
     xset_prop = (\<lambda>n k v. XT (xt_name n) ((k, v) # xt_props n) (xt_text n) (xt_elems n)),
     xget_prop = (\<lambda>n k. map_of (xt_props n) k),
     xtext_child = (\<lambda>t v. XT t [] (if v = [] then None else Some v) []),
     xtext = xt_text,
     xadd_child = (\<lambda>n c. XT (xt_name n) (xt_props n) (xt_text n) (xt_elems n @ [c])),
     xelems = xt_elems\<rparr>"

lemma xtree_laws: "xml_laws xtree_ops"
  by (simp add: xml_laws_def xtree_ops_def map_add_def split: option.splits)

subsection \<open>GenericMsg\<close>

datatype msg_type =
    GENERIC | IDENTIFICATION | FRAME | SEND_FRAME | SUBSCRIBE | ERROR_MSG | EXECUTEMETHOD
  | METHODRESPONSE | EXECUTEDEVICEMETHOD | DEVICEMETHODRESPONSE | DEVICEEVENT

record 'n gmsg =
  doc_root :: 'n
  msg_node :: "'n option"

fun type_element :: "msg_type \<Rightarrow> string" where
  "type_element GENERIC = []"
| "type_element IDENTIFICATION = ''identification''"
| "type_element FRAME = ''frame''"
| "type_element SEND_FRAME = ''sendframe''"
| "type_element SUBSCRIBE = ''subscribe''"
| "type_element ERROR_MSG = ''error''"
| "type_element EXECUTEMETHOD = ''execute''"
| "type_element METHODRESPONSE = ''response''"
| "type_element EXECUTEDEVICEMETHOD = ''execute''"
| "type_element DEVICEMETHODRESPONSE = ''response''"
| "type_element DEVICEEVENT = ''event''"

definition new_msg :: "'n libxml \<Rightarrow> msg_type \<Rightarrow> 'n gmsg res" where
  \<comment> \<open>\<open>GenericMsg(msg_type)\<close>: the document root, and the message element below it\<close>
  "new_msg X t = (if t = GENERIC then Inl Invalid_argument
     else Inr \<lparr>doc_root = xnew_prop X (xnew_prop X (xnew X ''h9'') ''version'' ''0.0'') ''id'' ''0'',
       msg_node = Some (let n = xnew X (type_element t) in
         if t = EXECUTEDEVICEMETHOD \<or> t = DEVICEMETHODRESPONSE
         then xnew_prop X n ''device-id'' ''0'' else n)\<rparr>)"

definition parsed_msg :: "'n libxml \<Rightarrow> 'n option \<Rightarrow> 'n gmsg res" where
  \<comment> \<open>\<open>GenericMsg(xml)\<close> for the result of \<open>xmlReadMemory\<close>; \<open>get_msg_root\<close> is the first element
      below the root\<close>
  "parsed_msg X r = (case r of
       None \<Rightarrow> Inl (Invalid_msg ''Failed to parse XML'')
     | Some d \<Rightarrow> Inr \<lparr>doc_root = d,
         msg_node = (case xelems X d of [] \<Rightarrow> None | n # _ \<Rightarrow> Some n)\<rparr>)"

definition get_type :: "'n libxml \<Rightarrow> 'n gmsg \<Rightarrow> msg_type res" where
  "get_type X m = (case msg_node m of None \<Rightarrow> Inl Assertion_failed
     | Some n \<Rightarrow> Inr (
         if xname X n = ''identification'' then IDENTIFICATION
         else if xname X n = ''frame'' then FRAME
         else if xname X n = ''sendframe'' then SEND_FRAME
         else if xname X n = ''subscribe'' then SUBSCRIBE
         else if xname X n = ''error'' then ERROR_MSG
         else if xname X n = ''execute'' then
           (if xget_prop X n ''device-id'' \<noteq> None then EXECUTEDEVICEMETHOD else EXECUTEMETHOD)
         else if xname X n = ''response'' then
           (if xget_prop X n ''device-id'' \<noteq> None then DEVICEMETHODRESPONSE else METHODRESPONSE)
         else if xname X n = ''event'' then DEVICEEVENT
         else GENERIC))"

definition missing :: "string \<Rightarrow> cxx_error" where
  "missing k = Invalid_msg (''missing '' @ CHR 0x27 # k @ CHR 0x27 # '' property'')"

definition get_id :: "'n libxml \<Rightarrow> 'n gmsg \<Rightarrow> u64 res" where
  "get_id X m = (case xget_prop X (doc_root m) ''id'' of
     None \<Rightarrow> Inl (missing ''id'') | Some s \<Rightarrow> Inr (strtoull 10 s))"

definition set_id :: "'n libxml \<Rightarrow> u64 \<Rightarrow> 'n gmsg \<Rightarrow> 'n gmsg" where
  "set_id X i m = m\<lparr>doc_root := xset_prop X (doc_root m) ''id'' (dec_string (unat i))\<rparr>"

definition get_request_id :: "'n libxml \<Rightarrow> 'n gmsg \<Rightarrow> u64" where
  "get_request_id X m = (case xget_prop X (doc_root m) ''request-id'' of
     None \<Rightarrow> 0 | Some s \<Rightarrow> strtoull 10 s)"

definition set_request_id :: "'n libxml \<Rightarrow> u64 \<Rightarrow> 'n gmsg \<Rightarrow> 'n gmsg" where
  "set_request_id X i m = m\<lparr>doc_root := xset_prop X (doc_root m) ''request-id'' (dec_string (unat i))\<rparr>"

definition msg_prop :: "'n libxml \<Rightarrow> 'n gmsg \<Rightarrow> string \<Rightarrow> string res" where
  \<comment> \<open>\<open>xmlGetProp(get_msg_root(), k)\<close> and the exception for a missing one\<close>
  "msg_prop X m k = (case msg_node m of None \<Rightarrow> Inl (missing k)
     | Some n \<Rightarrow> (case xget_prop X n k of None \<Rightarrow> Inl (missing k) | Some s \<Rightarrow> Inr s))"

definition with_node :: "('n \<Rightarrow> 'n) \<Rightarrow> 'n gmsg \<Rightarrow> 'n gmsg" where
  \<comment> \<open>an update of the element \<open>get_msg_root()\<close> points to\<close>
  "with_node g m = m\<lparr>msg_node := map_option g (msg_node m)\<rparr>"

subsection \<open>Frame messages\<close>

definition frame_node :: "'n libxml \<Rightarrow> h9frame \<Rightarrow> string \<Rightarrow> 'n \<Rightarrow> 'n res" where
  \<comment> \<open>the body of the constructor \<open>GenericFrameMsg(frame, endpoint)\<close>\<close>
  "frame_node X f endpoint n = rbind (frame_bytes f) (\<lambda>bs.
     let n1 = (if endpoint = [] then n else xnew_prop X n ''endpoint'' endpoint);
         n2 = xnew_prop X n1 ''priority'' (if priority f = HIGH then ''H'' else ''L'');
         n3 = xnew_prop X n2 ''type'' (dec_string (unat (ftype f)));
         n4 = xnew_prop X n3 ''seqnum'' (dec_string (unat (seqnum f)));
         n5 = xnew_prop X n4 ''source'' (dec_string (unat (source_id f)));
         n6 = xnew_prop X n5 ''destination'' (dec_string (unat (destination_id f)));
         n7 = xnew_prop X n6 ''dlc'' (dec_string (unat (dlc f)))
     in Inr (if dlc f \<noteq> 0 then xnew_prop X n7 ''data'' (concat (map (hex_byte True) bs)) else n7))"

definition new_frame_msg :: "'n libxml \<Rightarrow> msg_type \<Rightarrow> h9frame \<Rightarrow> string \<Rightarrow> 'n gmsg res" where
  "new_frame_msg X t f endpoint = rbind (new_msg X t) (\<lambda>m.
     (case msg_node m of None \<Rightarrow> Inl Undefined_behaviour
      | Some n \<Rightarrow> rbind (frame_node X f endpoint n) (\<lambda>n1. Inr (m\<lparr>msg_node := Some n1\<rparr>))))"

definition frame_msg :: "'n libxml \<Rightarrow> h9frame \<Rightarrow> string \<Rightarrow> string \<Rightarrow> 'n gmsg res" where
  \<comment> \<open>\<open>FrameMsg(frame, origin, endpoint)\<close>\<close>
  "frame_msg X f origin endpoint = rbind (new_frame_msg X FRAME f endpoint) (\<lambda>m.
     Inr (with_node (\<lambda>n. xnew_prop X n ''origin'' origin) m))"

definition send_frame_msg :: "'n libxml \<Rightarrow> h9frame \<Rightarrow> 'n gmsg res" where
  "send_frame_msg X f = new_frame_msg X SEND_FRAME f []"

fun parse_frame_data :: "string \<Rightarrow> nat \<Rightarrow> nat \<Rightarrow> u8 list \<Rightarrow> u8 list" where
  \<comment> \<open>the loop over pairs of digits: index, iterations left, \<open>frame.data\<close>\<close>
  "parse_frame_data s i 0 d = d"
| "parse_frame_data s i (Suc n) d =
     parse_frame_data s (Suc i) n (d[i := word_of_int (strtol 16 (take 2 (drop (i * 2) s)))])"

definition get_frame :: "'n libxml \<Rightarrow> 'n gmsg \<Rightarrow> h9frame res" where
  "get_frame X m =
     rbind (msg_prop X m ''priority'') (\<lambda>pr.
     rbind (msg_prop X m ''type'') (\<lambda>ty.
     rbind (set_type_from_underlying (word_of_int (strtol 10 ty))
       ((new_frame 0 0 0)\<lparr>priority :=
          (if take 1 pr = ''H'' \<or> take 1 pr = ''h'' then HIGH else LOW)\<rparr>)) (\<lambda>f1.
     rbind (msg_prop X m ''seqnum'') (\<lambda>sq.
     rbind (msg_prop X m ''source'') (\<lambda>so.
     rbind (msg_prop X m ''destination'') (\<lambda>de.
     rbind (msg_prop X m ''dlc'') (\<lambda>dl.
       let f2 = f1\<lparr>seqnum := ucast (word_of_int (strtol 10 sq) :: u8),
                   source_id := ucast (word_of_int (strtol 10 so) :: u16),
                   destination_id := ucast (word_of_int (strtol 10 de) :: u16),
                   dlc := word_of_int (strtol 10 dl)\<rparr>
       in case msg_prop X m ''data'' of
            Inr da \<Rightarrow> Inr (f2\<lparr>data := parse_frame_data da 0 (min (length da) 16 div 2) (data f2)\<rparr>)
          | Inl _ \<Rightarrow>
              if dlc f2 \<noteq> 0
              then Inl (Invalid_msg (CHR 0x27 # ''dlc'' @ CHR 0x27 # '' and '' @ CHR 0x27 # ''data''
                     @ CHR 0x27 # '' mismatch''))
              else Inr f2)))))))"

definition get_endpoint :: "'n libxml \<Rightarrow> 'n gmsg \<Rightarrow> string res" where
  "get_endpoint X m = msg_prop X m ''endpoint''"

definition get_origin :: "'n libxml \<Rightarrow> 'n gmsg \<Rightarrow> string res" where
  "get_origin X m = msg_prop X m ''origin''"

subsection \<open>Values\<close>

definition value_name :: "'n libxml \<Rightarrow> 'n \<Rightarrow> string" where
  "value_name X n = (case xget_prop X n ''name'' of None \<Rightarrow> [] | Some s \<Rightarrow> s)"

definition get_value_as_int :: "'n libxml \<Rightarrow> 'n \<Rightarrow> int res" where
  "get_value_as_int X n = (case xtext X n of
     None \<Rightarrow> Inl Invalid_argument | Some s \<Rightarrow> stoi 10 s)"

definition get_value_as_str :: "'n libxml \<Rightarrow> 'n \<Rightarrow> string res" where
  "get_value_as_str X n = (case xtext X n of None \<Rightarrow> Inl Invalid_argument | Some s \<Rightarrow> Inr s)"

fun find_named :: "'n libxml \<Rightarrow> string \<Rightarrow> 'n list \<Rightarrow> 'n res" where
  "find_named X k [] = Inl Out_of_range"
| "find_named X k (n # ns) =
     (if xget_prop X n ''name'' = Some k then Inr n else find_named X k ns)"

definition value_at :: "'n libxml \<Rightarrow> 'n \<Rightarrow> string \<Rightarrow> 'n res" where
  \<comment> \<open>\<open>Value::operator[]\<close>\<close>
  "value_at X n k = find_named X k (xelems X n)"

definition array_add_value :: "'n libxml \<Rightarrow> string \<Rightarrow> 'n \<Rightarrow> 'n" where
  "array_add_value X v n = xadd_child X n (xtext_child X ''value'' v)"

definition dict_add_value :: "'n libxml \<Rightarrow> string \<Rightarrow> string \<Rightarrow> 'n \<Rightarrow> 'n" where
  "dict_add_value X k v n = xadd_child X n (xnew_prop X (xtext_child X ''value'' v) ''name'' k)"

definition dict_add_array :: "'n libxml \<Rightarrow> string \<Rightarrow> ('n \<Rightarrow> 'n) \<Rightarrow> 'n \<Rightarrow> 'n" where
  \<comment> \<open>\<open>add_array(name)\<close>, then the calls the client makes on the array\<close>
  "dict_add_array X k fill n = xadd_child X n (fill (xnew_prop X (xnew X ''array'') ''name'' k))"

definition dict_add_dict :: "'n libxml \<Rightarrow> string \<Rightarrow> ('n \<Rightarrow> 'n) \<Rightarrow> 'n \<Rightarrow> 'n" where
  "dict_add_dict X k fill n = xadd_child X n (fill (xnew_prop X (xnew X ''dict'') ''name'' k))"

definition array_add_array :: "'n libxml \<Rightarrow> ('n \<Rightarrow> 'n) \<Rightarrow> 'n \<Rightarrow> 'n" where
  "array_add_array X fill n = xadd_child X n (fill (xnew X ''array''))"

definition array_add_dict :: "'n libxml \<Rightarrow> ('n \<Rightarrow> 'n) \<Rightarrow> 'n \<Rightarrow> 'n" where
  "array_add_dict X fill n = xadd_child X n (fill (xnew X ''dict''))"

subsection \<open>Methods, responses, errors and events\<close>

definition set_method_name :: "'n libxml \<Rightarrow> string \<Rightarrow> 'n gmsg \<Rightarrow> 'n gmsg" where
  "set_method_name X name = with_node (\<lambda>n. xnew_prop X n ''method'' name)"

definition get_method_name :: "'n libxml \<Rightarrow> 'n gmsg \<Rightarrow> string res" where
  "get_method_name X m = msg_prop X m ''method''"

definition add_value :: "'n libxml \<Rightarrow> string \<Rightarrow> string \<Rightarrow> 'n gmsg \<Rightarrow> 'n gmsg" where
  "add_value X k v = with_node (dict_add_value X k v)"

definition msg_value :: "'n libxml \<Rightarrow> 'n gmsg \<Rightarrow> string \<Rightarrow> 'n res" where
  \<comment> \<open>\<open>GenericMethod::operator[]\<close>\<close>
  "msg_value X m k = (case msg_node m of None \<Rightarrow> Inl Undefined_behaviour
     | Some n \<Rightarrow> value_at X n k)"

definition get_msg :: "'n libxml \<Rightarrow> msg_type \<Rightarrow> 'n gmsg" where
  \<comment> \<open>the message object of a concrete type, whose constructor cannot throw\<close>
  "get_msg X t = (case new_msg X t of Inr m \<Rightarrow> m | Inl _ \<Rightarrow> \<lparr>doc_root = xnew X ''h9'', msg_node = None\<rparr>)"

definition execute_method_msg :: "'n libxml \<Rightarrow> string \<Rightarrow> 'n gmsg" where
  "execute_method_msg X name = set_method_name X name (get_msg X EXECUTEMETHOD)"

definition execute_device_method_msg :: "'n libxml \<Rightarrow> u16 \<Rightarrow> string \<Rightarrow> 'n gmsg" where
  \<comment> \<open>the class is declared with the type of a response: the element it builds is a \<open>response\<close>\<close>
  "execute_device_method_msg X dev name =
     with_node (\<lambda>n. xset_prop X n ''device-id'' (dec_string (unat dev)))
       (set_method_name X name (get_msg X DEVICEMETHODRESPONSE))"

definition get_device_id :: "'n libxml \<Rightarrow> 'n gmsg \<Rightarrow> u16 res" where
  \<comment> \<open>of \<open>ExecuteDeviceMethodMsg\<close> and \<open>DeviceMethodResponseMsg\<close>\<close>
  "get_device_id X m = rbind (msg_prop X m ''device-id'') (\<lambda>s. Inr (word_of_int (strtol 10 s)))"

definition add_error :: "'n libxml \<Rightarrow> nat \<Rightarrow> string \<Rightarrow> 'n gmsg \<Rightarrow> 'n gmsg" where
  "add_error X code msg = with_node (\<lambda>n. xadd_child X n
     (xnew_prop X (xset_prop X (xnew X ''error'') ''code'' (dec_string code)) ''message'' msg))"

definition method_response :: "'n libxml \<Rightarrow> string \<Rightarrow> 'n gmsg" where
  "method_response X name = set_method_name X name (get_msg X METHODRESPONSE)"

definition method_response_error :: "'n libxml \<Rightarrow> string \<Rightarrow> nat \<Rightarrow> string \<Rightarrow> 'n gmsg" where
  "method_response_error X name code msg = add_error X code msg (method_response X name)"

definition device_method_response :: "'n libxml \<Rightarrow> u16 \<Rightarrow> string \<Rightarrow> 'n gmsg" where
  "device_method_response X dev name =
     with_node (\<lambda>n. xset_prop X n ''device-id'' (dec_string (unat dev)))
       (set_method_name X name (get_msg X DEVICEMETHODRESPONSE))"

definition device_method_response_error ::
  "'n libxml \<Rightarrow> u16 \<Rightarrow> string \<Rightarrow> nat \<Rightarrow> string \<Rightarrow> 'n gmsg" where
  "device_method_response_error X dev name code msg =
     add_error X code msg (device_method_response X dev name)"

definition error_node :: "'n libxml \<Rightarrow> 'n gmsg \<Rightarrow> 'n option" where
  \<comment> \<open>the loop over the children; a null pointer when no child is an \<open>error\<close> element\<close>
  "error_node X m = (case msg_node m of None \<Rightarrow> None
     | Some n \<Rightarrow> find (\<lambda>c. xname X c = ''error'') (xelems X n))"

definition get_error_code :: "'n libxml \<Rightarrow> 'n gmsg \<Rightarrow> u32 res" where
  "get_error_code X m =
    (case Option.bind (error_node X m) (\<lambda>n. xget_prop X n ''code'') of
       None \<Rightarrow> Inr 0 | Some s \<Rightarrow> rbind (stoi 10 s) (\<lambda>v. Inr (word_of_int v)))"

definition get_error_message :: "'n libxml \<Rightarrow> 'n gmsg \<Rightarrow> string" where
  "get_error_message X m =
    (case Option.bind (error_node X m) (\<lambda>n. xget_prop X n ''message'') of None \<Rightarrow> [] | Some s \<Rightarrow> s)"

datatype error_number =
    GENERIC_ERROR | INVALID_MESSAGE_SCHEMA | UNSUPPORTED_MESSAGE_TYPE | UNSUPPORTED_METHOD
  | INVALID_PARAMETERS | INVALID_DEVICE | UNSUPPORTED_DEVICE_METHOD | UNSUPPORTED_EVENT

fun errnum :: "error_number \<Rightarrow> nat" where
  "errnum GENERIC_ERROR = 1" | "errnum INVALID_MESSAGE_SCHEMA = 2"
| "errnum UNSUPPORTED_MESSAGE_TYPE = 3" | "errnum UNSUPPORTED_METHOD = 4"
| "errnum INVALID_PARAMETERS = 5" | "errnum INVALID_DEVICE = 6"
| "errnum UNSUPPORTED_DEVICE_METHOD = 7" | "errnum UNSUPPORTED_EVENT = 8"

fun errnum_to_string :: "error_number \<Rightarrow> string" where
  "errnum_to_string GENERIC_ERROR = ''GENERIC''"
| "errnum_to_string INVALID_MESSAGE_SCHEMA = ''INVALID_MESSAGE_SCHEMA''"
| "errnum_to_string UNSUPPORTED_MESSAGE_TYPE = ''UNSUPPORTED_MESSAGE_TYPE''"
| "errnum_to_string UNSUPPORTED_METHOD = ''UNSUPPORTED_METHOD''"
| "errnum_to_string INVALID_PARAMETERS = ''INVALID_PARAMETERS''"
| "errnum_to_string INVALID_DEVICE = ''INVALID_DEVICE''"
| "errnum_to_string UNSUPPORTED_DEVICE_METHOD = ''UNSUPPORTED_DEVICE_METHOD''"
| "errnum_to_string UNSUPPORTED_EVENT = ''UNSUPPORTED_EVENT''"

definition error_msg :: "'n libxml \<Rightarrow> error_number \<Rightarrow> string \<Rightarrow> 'n gmsg" where
  "error_msg X code msg = with_node (\<lambda>n.
     xnew_prop X (xnew_prop X (xnew_prop X n ''code'' (dec_string (errnum code)))
       ''name'' (errnum_to_string code)) ''message'' msg) (get_msg X ERROR_MSG)"

definition error_code :: "'n libxml \<Rightarrow> 'n gmsg \<Rightarrow> int res" where
  "error_code X m = rbind (msg_prop X m ''code'') (stoi 10)"

definition error_message :: "'n libxml \<Rightarrow> 'n gmsg \<Rightarrow> string res" where
  "error_message X m = msg_prop X m ''message''"

definition device_event :: "'n libxml \<Rightarrow> u16 \<Rightarrow> string \<Rightarrow> 'n gmsg" where
  "device_event X dev event = with_node (\<lambda>n.
     xnew_prop X (xset_prop X n ''device-id'' (dec_string (unat dev))) ''event'' event)
       (get_msg X DEVICEEVENT)"

definition event_device_id :: "'n libxml \<Rightarrow> 'n gmsg \<Rightarrow> u16 res" where
  \<comment> \<open>\<open>DeviceEvent::get_device_id\<close> casts to \<open>uint8_t\<close>\<close>
  "event_device_id X m = rbind (msg_prop X m ''device-id'') (\<lambda>s.
     Inr (ucast (word_of_int (strtol 10 s) :: u8)))"

definition event_name :: "'n libxml \<Rightarrow> 'n gmsg \<Rightarrow> string res" where
  "event_name X m = (case msg_prop X m ''event'' of Inl _ \<Rightarrow> Inl (missing ''method'') | Inr s \<Rightarrow> Inr s)"

definition identification_msg :: "'n libxml \<Rightarrow> string \<Rightarrow> 'n gmsg" where
  "identification_msg X entity =
     with_node (\<lambda>n. xnew_prop X n ''entity'' entity) (get_msg X IDENTIFICATION)"

definition get_entity :: "'n libxml \<Rightarrow> 'n gmsg \<Rightarrow> string res" where
  "get_entity X m = msg_prop X m ''entity''"

definition subscribe_msg :: "'n libxml \<Rightarrow> 'n gmsg" where
  "subscribe_msg X = with_node (\<lambda>n. xnew_prop X n ''content'' ''FRAME'') (get_msg X SUBSCRIBE)"

subsection \<open>Lemmas\<close>

lemma with_node_simps [simp]:
  "msg_node (with_node g m) = map_option g (msg_node m)" "doc_root (with_node g m) = doc_root m"
  by (simp_all add: with_node_def)

lemma get_msg_node [simp]:
  "t \<noteq> GENERIC \<Longrightarrow> msg_node (get_msg X t) = Some (let n = xnew X (type_element t) in
     if t = EXECUTEDEVICEMETHOD \<or> t = DEVICEMETHODRESPONSE then xnew_prop X n ''device-id'' ''0'' else n)"
  by (simp add: get_msg_def new_msg_def)

lemma get_request_set [simp]: "xml_laws X \<Longrightarrow> get_request_id X (set_request_id X i m) = i"
  by (simp add: get_request_id_def set_request_id_def)

lemma msg_node_set [simp]: "msg_node (set_request_id X i m) = msg_node m" "msg_node (set_id X i m) = msg_node m"
  by (simp_all add: set_request_id_def set_id_def)

lemma find_named_append:
  "find_named X k (ns @ [n]) = (case find_named X k ns of Inr v \<Rightarrow> Inr v
     | Inl _ \<Rightarrow> if xget_prop X n ''name'' = Some k then Inr n else Inl Out_of_range)"
  by (induction ns) (auto split: sum.splits)

lemma length_hex_data: "length (concat (map (hex_byte up) bs)) = 2 * length bs"
  by (induction bs) simp_all

lemma take_drop_hex_data:
  "i < length bs \<Longrightarrow> take 2 (drop (2 * i) (concat (map (hex_byte up) bs))) = hex_byte up (bs ! i)"
proof (induction bs arbitrary: i)
  case Nil
  then show ?case by simp
next
  case (Cons b bs)
  show ?case
  proof (cases i)
    case 0
    then show ?thesis by simp
  next
    case (Suc j)
    with Cons show ?thesis by simp
  qed
qed

lemma strtol_hex_byte [simp]: "word_of_int (strtol 16 (hex_byte up b)) = b"
proof -
  have "unat b < 2 ^ 63" using unat_u8_less [of b] by simp
  then show ?thesis by (simp add: hex_byte_def)
qed

lemma parse_frame_data_bytes:
  assumes "\<And>j. j < length bs \<Longrightarrow> take 2 (drop (j * 2) s) = hex_byte up (bs ! j)"
    and "length bs \<le> length d" and "i + n = length bs"
  shows "parse_frame_data s i n d = take i d @ drop i bs @ drop (length bs) d"
  using assms(2,3)
proof (induction n arbitrary: i d)
  case 0
  then show ?case by simp
next
  case (Suc n)
  then have i: "i < length bs" and l: "i < length d" by simp_all
  let ?d = "d[i := bs ! i]"
  have "parse_frame_data s i (Suc n) d = parse_frame_data s (Suc i) n ?d"
    using i by (simp add: assms(1))
  also have "\<dots> = take (Suc i) ?d @ drop (Suc i) bs @ drop (length bs) ?d"
    using Suc by (intro Suc.IH) simp_all
  also have "\<dots> = take i d @ drop i bs @ drop (length bs) d"
    using i l by (simp add: take_Suc_conv_app_nth flip: Cons_nth_drop_Suc)
  finally show ?case .
qed

lemma ucast_back:
  fixes w :: "'a::len word"
  assumes "LENGTH('a) \<le> LENGTH('b::len)"
  shows "ucast (ucast w :: 'b word) = w"
  by (rule bit_word_eqI) (use assms in \<open>simp add: bit_simps\<close>)

lemma unat_strtol: "unat w < 2 ^ 63 \<Longrightarrow> word_of_int (strtol 10 (dec_string (unat w))) = w"
  by simp

lemma frame_node_props:
  assumes "xml_laws X" and "xelems X n = []" and "\<And>k. xget_prop X n k = None"
    and "frame_node X f endpoint n = Inr n'"
  shows "xname X n' = xname X n" "xget_prop X n' ''origin'' = None"
    "xget_prop X n' ''endpoint'' = (if endpoint = [] then None else Some endpoint)"
    "xget_prop X n' ''priority'' = Some (if priority f = HIGH then ''H'' else ''L'')"
    "xget_prop X n' ''type'' = Some (dec_string (unat (ftype f)))"
    "xget_prop X n' ''seqnum'' = Some (dec_string (unat (seqnum f)))"
    "xget_prop X n' ''source'' = Some (dec_string (unat (source_id f)))"
    "xget_prop X n' ''destination'' = Some (dec_string (unat (destination_id f)))"
    "xget_prop X n' ''dlc'' = Some (dec_string (unat (dlc f)))"
    "\<exists>bs. frame_bytes f = Inr bs \<and> xget_prop X n' ''data'' =
       (if dlc f = 0 then None else Some (concat (map (hex_byte True) bs)))"
  using assms by (auto simp: frame_node_def rbind_Inr_iff Let_def)

definition same_frame :: "'n libxml \<Rightarrow> 'n \<Rightarrow> 'n \<Rightarrow> bool" where
  \<comment> \<open>the attributes of a frame agree\<close>
  "same_frame X n n' \<longleftrightarrow> (\<forall>k \<in> {''priority'', ''type'', ''seqnum'', ''source'', ''destination'', ''dlc'',
     ''data''}. xget_prop X n k = xget_prop X n' k)"

lemma get_frame_node:
  assumes laws: "xml_laws X" and new: "xelems X n = []" "\<And>k. xget_prop X n k = None"
    and node: "frame_node X f endpoint n = Inr n'"
    and wf: "wf_frame f" "unat (dlc f) \<le> 8" "unat (ftype f) < 64"
    and m: "msg_node m = Some n''" "same_frame X n'' n'"
  shows "get_frame X m = Inr (clear_tail f)"
proof -
  note p = frame_node_props [OF laws new node]
  define bs where "bs = take (unat (dlc f)) (data f)"
  have bytes: "frame_bytes f = Inr bs" using wf by (simp add: frame_bytes_valid bs_def)
  with p(10) have dt: "xget_prop X n' ''data'' =
    (if dlc f = 0 then None else Some (concat (map (hex_byte True) bs)))" by auto
  have lbs: "length bs = unat (dlc f)" using wf by (simp add: bs_def wf_frame_def)
  have small: "unat (ftype f) < 2 ^ 63" "unat (dlc f) < 2 ^ 63"
    using wf(2,3) by simp_all
  have s5: "unat (seqnum f) < 2 ^ 5" and s9: "unat (source_id f) < 2 ^ 9" "unat (destination_id f) < 2 ^ 9"
    using unsigned_less [of "seqnum f"] unsigned_less [of "source_id f"]
      unsigned_less [of "destination_id f"] by simp_all
  have q: "ucast (word_of_int (strtol 10 (dec_string (unat (seqnum f)))) :: u8) = seqnum f"
    "ucast (word_of_int (strtol 10 (dec_string (unat (source_id f)))) :: u16) = source_id f"
    "ucast (word_of_int (strtol 10 (dec_string (unat (destination_id f)))) :: u16) = destination_id f"
    using s5 s9 by (simp_all add: ucast_back)
  have get: "msg_prop X m k = (case xget_prop X n' k of None \<Rightarrow> Inl (missing k) | Some s \<Rightarrow> Inr s)"
    if "k \<in> {''priority'', ''type'', ''seqnum'', ''source'', ''destination'', ''dlc'', ''data''}" for k
    using m that by (auto simp: msg_prop_def same_frame_def)
  have g: "msg_prop X m ''priority'' = Inr (if priority f = HIGH then ''H'' else ''L'')"
    "msg_prop X m ''type'' = Inr (dec_string (unat (ftype f)))"
    "msg_prop X m ''seqnum'' = Inr (dec_string (unat (seqnum f)))"
    "msg_prop X m ''source'' = Inr (dec_string (unat (source_id f)))"
    "msg_prop X m ''destination'' = Inr (dec_string (unat (destination_id f)))"
    "msg_prop X m ''dlc'' = Inr (dec_string (unat (dlc f)))"
    by (simp_all add: get p(4-9))
  have pr: "(if take 1 (if priority f = HIGH then ''H'' else ''L'') = ''H''
      \<or> take 1 (if priority f = HIGH then ''H'' else ''L'') = ''h'' then HIGH else LOW) = priority f"
    by (cases "priority f") simp_all
  have ty: "set_type_from_underlying (word_of_int (strtol 10 (dec_string (unat (ftype f))))) h
      = Inr (h\<lparr>ftype := ftype f\<rparr>)" for h
    using wf(3) unat_strtol [OF small(1)] by (simp only: set_type_from_underlying_def) simp
  have dl: "word_of_int (strtol 10 (dec_string (unat (dlc f)))) = dlc f"
    by (rule unat_strtol [OF small(2)])
  let ?f = "(new_frame 0 0 0)\<lparr>priority := priority f, ftype := ftype f, seqnum := seqnum f,
    source_id := source_id f, destination_id := destination_id f, dlc := dlc f\<rparr>"
  have result: "get_frame X m = (case msg_prop X m ''data'' of
      Inr da \<Rightarrow> Inr (?f\<lparr>data := parse_frame_data da 0 (min (length da) 16 div 2) (data ?f)\<rparr>)
    | Inl _ \<Rightarrow> if dlc f \<noteq> 0
        then Inl (Invalid_msg (CHR 0x27 # ''dlc'' @ CHR 0x27 # '' and '' @ CHR 0x27 # ''data''
               @ CHR 0x27 # '' mismatch''))
        else Inr ?f)"
    by (simp only: get_frame_def g rbind_simps pr ty q dl Let_def) (simp add: new_frame_def)
  have same: "?f\<lparr>data := d\<rparr> = f\<lparr>data := d\<rparr>" for d by simp
  have zero: "data ?f = replicate 8 0" by (simp add: new_frame_def)
  show ?thesis
  proof (cases "dlc f = 0")
    case True
    then have "clear_tail f = f\<lparr>data := replicate 8 0\<rparr>" by (simp add: clear_tail_def)
    moreover have "msg_prop X m ''data'' = Inl (missing ''data'')" using True by (simp add: get dt)
    ultimately show ?thesis using True same [of "replicate 8 0"] by (simp add: result new_frame_def)
  next
    case False
    have "parse_frame_data (concat (map (hex_byte True) bs)) 0
        (min (length (concat (map (hex_byte True) bs))) 16 div 2) (replicate 8 0)
      = bs @ replicate (8 - unat (dlc f)) 0"
      using wf(2) lbs take_drop_hex_data [of _ bs True]
      by (subst parse_frame_data_bytes [where bs = bs and up = True])
         (simp_all add: length_hex_data mult.commute)
    then have "clear_tail f = f\<lparr>data := parse_frame_data (concat (map (hex_byte True) bs)) 0
        (min (length (concat (map (hex_byte True) bs))) 16 div 2) (replicate 8 0)\<rparr>"
      by (simp add: clear_tail_def bs_def)
    moreover have "msg_prop X m ''data'' = Inr (concat (map (hex_byte True) bs))"
      using False by (simp add: get dt)
    ultimately show ?thesis by (simp only: result zero same sum.case)
  qed
qed

lemma new_frame_msg_ok:
  assumes "xml_laws X" and "t = FRAME \<or> t = SEND_FRAME" and "wf_frame f" and "unat (dlc f) \<le> 8"
  shows "\<exists>n'. frame_node X f endpoint (xnew X (type_element t)) = Inr n' \<and>
    new_frame_msg X t f endpoint = Inr ((get_msg X t)\<lparr>msg_node := Some n'\<rparr>)"
  using assms by (auto simp: new_frame_msg_def get_msg_def new_msg_def frame_node_def
      frame_bytes_valid Let_def)

lemma parse_frame_data_length: "length (parse_frame_data s i n d) = length d"
  by (induction s i n d rule: parse_frame_data.induct) simp_all

lemma msg_prop_error: "msg_prop X m k = Inl e \<Longrightarrow> \<exists>s. e = Invalid_msg s"
  by (auto simp: msg_prop_def missing_def split: option.splits)

text \<open>The messages that carry a frame are a codec for frames.\<close>

definition send_frame_codec :: "h9frame \<Rightarrow> xtree gmsg res" where
  "send_frame_codec f = send_frame_msg xtree_ops f"

definition receive_frame_codec :: "xtree gmsg res \<Rightarrow> h9frame res" where
  "receive_frame_codec r = rbind r (get_frame xtree_ops)"

interpretation frame_codec: codec send_frame_codec receive_frame_codec
  "\<lambda>f. valid_frame f \<and> clear_tail f = f"
proof
  fix f :: h9frame
  assume v: "valid_frame f \<and> clear_tail f = f"
  then have "wf_frame f" "unat (dlc f) \<le> 8" "unat (ftype f) < 64" by (simp_all add: valid_frame_def)
  note wf = this
  from new_frame_msg_ok [OF xtree_laws _ wf(1,2), of SEND_FRAME "[]"]
  obtain n where n: "frame_node xtree_ops f [] (xnew xtree_ops ''sendframe'') = Inr n"
    "send_frame_codec f = Inr ((get_msg xtree_ops SEND_FRAME)\<lparr>msg_node := Some n\<rparr>)"
    by (auto simp: send_frame_codec_def send_frame_msg_def)
  have "get_frame xtree_ops ((get_msg xtree_ops SEND_FRAME)\<lparr>msg_node := Some n\<rparr>) = Inr (clear_tail f)"
    by (rule get_frame_node [OF xtree_laws _ _ n(1) wf]) (simp_all add: xtree_laws same_frame_def)
  with n v show "receive_frame_codec (send_frame_codec f) = Inr f"
    by (simp add: receive_frame_codec_def)
qed

subsection \<open>Properties\<close>

lemma frame_msg_read:
  assumes "xml_laws X" and "wf_frame f" and "unat (dlc f) \<le> 8" and "unat (ftype f) < 64"
  shows "\<exists>m. frame_msg X f origin endpoint = Inr m \<and> get_type X m = Inr FRAME
    \<and> get_frame X m = Inr (clear_tail f) \<and> get_origin X m = Inr origin
    \<and> (endpoint \<noteq> [] \<longrightarrow> get_endpoint X m = Inr endpoint)"
proof -
  obtain n where n: "frame_node X f endpoint (xnew X ''frame'') = Inr n"
    "new_frame_msg X FRAME f endpoint = Inr ((get_msg X FRAME)\<lparr>msg_node := Some n\<rparr>)"
    using new_frame_msg_ok [OF assms(1) _ assms(2,3), of FRAME endpoint] by auto
  have e: "xelems X (xnew X ''frame'') = []" "\<And>k. xget_prop X (xnew X ''frame'') k = None"
    using assms(1) by simp_all
  note p = frame_node_props [OF assms(1) e n(1)]
  let ?m = "with_node (\<lambda>n. xnew_prop X n ''origin'' origin) ((get_msg X FRAME)\<lparr>msg_node := Some n\<rparr>)"
  have "frame_msg X f origin endpoint = Inr ?m" by (simp add: frame_msg_def n)
  moreover have "get_frame X ?m = Inr (clear_tail f)"
    by (rule get_frame_node [OF assms(1) e n(1) assms(2-4), where n'' = "xnew_prop X n ''origin'' origin"])
       (simp_all add: same_frame_def assms(1))
  moreover have "get_type X ?m = Inr FRAME" "get_origin X ?m = Inr origin"
    using p assms(1) by (simp_all add: get_type_def get_origin_def msg_prop_def)
  moreover have "endpoint \<noteq> [] \<longrightarrow> get_endpoint X ?m = Inr endpoint"
    using p assms(1) by (simp add: get_endpoint_def msg_prop_def)
  ultimately show ?thesis by blast
qed

lemma send_frame_msg_read:
  assumes "xml_laws X" and "wf_frame f" and "unat (dlc f) \<le> 8" and "unat (ftype f) < 64"
  shows "\<exists>m. send_frame_msg X f = Inr m \<and> get_type X m = Inr SEND_FRAME \<and> get_frame X m = Inr (clear_tail f)"
proof -
  obtain n where n: "frame_node X f [] (xnew X ''sendframe'') = Inr n"
    "new_frame_msg X SEND_FRAME f [] = Inr ((get_msg X SEND_FRAME)\<lparr>msg_node := Some n\<rparr>)"
    using new_frame_msg_ok [OF assms(1) _ assms(2,3), of SEND_FRAME "[]"] by auto
  have e: "xelems X (xnew X ''sendframe'') = []" "\<And>k. xget_prop X (xnew X ''sendframe'') k = None"
    using assms(1) by simp_all
  note p = frame_node_props [OF assms(1) e n(1)]
  let ?m = "(get_msg X SEND_FRAME)\<lparr>msg_node := Some n\<rparr>"
  have "get_frame X ?m = Inr (clear_tail f)"
    by (rule get_frame_node [OF assms(1) e n(1) assms(2-4), where n'' = n]) (simp_all add: same_frame_def)
  moreover have "get_type X ?m = Inr SEND_FRAME" using p assms(1) by (simp add: get_type_def)
  ultimately show ?thesis by (auto simp: send_frame_msg_def n(2))
qed

lemma read_other_root:
  "msg_node m = msg_node m' \<Longrightarrow> get_frame X m = get_frame X m'"
  "msg_node m = msg_node m' \<Longrightarrow> get_type X m = get_type X m'"
  by (simp_all add: get_frame_def get_type_def msg_prop_def)

text \<open>
  C4. A frame survives the trip through a protocol message: the message built from a frame,
  with its origin and endpoint, is a frame message from which the same frame, origin and
  endpoint are read (the data bytes past the length come back as zero).
\<close>

theorem frame_msg_roundtrip:
  assumes "xml_laws X" and "wf_frame f" and "unat (dlc f) \<le> 8" and "unat (ftype f) < 64"
  shows "\<exists>m. frame_msg X f origin endpoint = Inr m \<and> get_type X m = Inr FRAME
    \<and> get_frame X m = Inr (clear_tail f) \<and> get_origin X m = Inr origin
    \<and> (endpoint \<noteq> [] \<longrightarrow> get_endpoint X m = Inr endpoint)"
  by (rule frame_msg_read [OF assms])

theorem frame_msg_roundtrip_witness:
  "\<exists>m. frame_msg xtree_ops ((new_frame 3 16 5)\<lparr>dlc := 2, data := [10, 255, 0, 0, 0, 0, 0, 0]\<rparr>) ''h9d'' ''can0'' = Inr m
    \<and> get_frame xtree_ops m = Inr (clear_tail ((new_frame 3 16 5)\<lparr>dlc := 2, data := [10, 255, 0, 0, 0, 0, 0, 0]\<rparr>))
    \<and> get_endpoint xtree_ops m = Inr ''can0''"
  using frame_msg_roundtrip [OF xtree_laws, of "(new_frame 3 16 5)\<lparr>dlc := 2, data := [10, 255, 0, 0, 0, 0, 0, 0]\<rparr>"
      "''h9d''" "''can0''"]
  by (auto simp: new_frame_def wf_frame_def)


text \<open>
  The envelope of a message: an identifier or request identifier that was set is read back
  at its full 64 bits, a message without one has the request identifier 0, every message kind
  is recognised from its element, and a response carries its error code (0 without an error).
\<close>

theorem message_envelope:
  assumes "xml_laws X" and "t \<noteq> GENERIC" and "c < 2 ^ 31"
  shows "get_id X (set_id X i m) = Inr i
    \<and> get_request_id X (set_request_id X i m) = i
    \<and> get_request_id X (get_msg X t) = 0
    \<and> get_type X (get_msg X t) = Inr t
    \<and> get_error_code X (method_response X name) = Inr 0
    \<and> get_error_code X (method_response_error X name c msg) = Inr (of_nat c)
    \<and> get_error_message X (method_response_error X name c msg) = msg"
proof -
  note l = xml_lawsD [OF assms(1)]
  have "get_id X (set_id X i m) = Inr i" using l by (simp add: get_id_def set_id_def)
  moreover have "get_request_id X (set_request_id X i m) = i" using assms(1) by simp
  moreover have "get_request_id X (get_msg X t) = 0"
    using assms by (simp add: get_request_id_def get_msg_def new_msg_def)
  moreover have "get_type X (get_msg X t) = Inr t"
    using assms(1,2) by (cases t) (simp_all add: get_type_def)
  moreover have "get_error_code X (method_response X name) = Inr 0"
    using l by (simp add: get_error_code_def error_node_def method_response_def set_method_name_def)
  moreover have "get_error_code X (method_response_error X name c msg) = Inr (of_nat c)"
    using l assms(3) by (simp add: get_error_code_def error_node_def method_response_error_def
        method_response_def set_method_name_def add_error_def stoi_def)
  moreover have "get_error_message X (method_response_error X name c msg) = msg"
    using l by (simp add: get_error_message_def error_node_def method_response_error_def
        method_response_def set_method_name_def add_error_def)
  ultimately show ?thesis by blast
qed

theorem message_envelope_witness:
  "get_type xtree_ops (get_msg xtree_ops EXECUTEDEVICEMETHOD) = Inr EXECUTEDEVICEMETHOD
    \<and> get_error_code xtree_ops (method_response_error xtree_ops ''discover'' 101 ''x'') = Inr 101"
  using message_envelope [OF xtree_laws, of EXECUTEDEVICEMETHOD 101] by simp

text \<open>
  Parameters of a method call: a value added under a name not used before is found under
  this name, with its text unchanged; a number is read back when it fits an \<open>int\<close> and is
  otherwise an \<open>out_of_range\<close> exception, so a register value above 2147483647 cannot be
  read; the other parameters are not affected.
\<close>

theorem parameter_lookup:
  assumes "xml_laws X" and "msg_node m \<noteq> None" and "msg_value X m k = Inl Out_of_range" and "v \<noteq> []"
  shows "\<exists>n. msg_value X (add_value X k v m) k = Inr n
    \<and> get_value_as_str X n = Inr v
    \<and> (v = int_string i \<longrightarrow> get_value_as_int X n =
        (if - (2 ^ 31) \<le> i \<and> i < 2 ^ 31 then Inr i else Inl Out_of_range))
    \<and> (j \<noteq> k \<longrightarrow> msg_value X (add_value X k v m) j = msg_value X m j)"
proof -
  obtain r where r: "msg_node m = Some r" using assms(2) by auto
  let ?n = "xnew_prop X (xtext_child X ''value'' v) ''name'' k"
  have e: "find_named X k (xelems X r) = Inl Out_of_range"
    using assms(3) r by (simp add: msg_value_def value_at_def)
  have fe: "find_named X j ns = Inl e \<Longrightarrow> e = Out_of_range" for j ns e
    by (induction ns) (auto split: if_splits)
  have "msg_value X (add_value X k v m) k = Inr ?n"
    using e r assms(1)
    by (simp add: msg_value_def value_at_def add_value_def dict_add_value_def find_named_append)
  moreover have "get_value_as_str X ?n = Inr v" using assms(1,4) by (simp add: get_value_as_str_def)
  moreover have "v = int_string i \<longrightarrow> get_value_as_int X ?n =
      (if - (2 ^ 31) \<le> i \<and> i < 2 ^ 31 then Inr i else Inl Out_of_range)"
    using assms(1) by (simp add: get_value_as_int_def stoi_def)
  moreover have "j \<noteq> k \<longrightarrow> msg_value X (add_value X k v m) j = msg_value X m j"
    using r assms(1) fe
    by (auto simp: msg_value_def value_at_def add_value_def dict_add_value_def find_named_append
        split: sum.splits)
  ultimately show ?thesis by blast
qed

theorem parameter_lookup_witness:
  "\<exists>n. msg_value xtree_ops (add_value xtree_ops ''value'' (int_string 4294967295)
      (execute_method_msg xtree_ops ''x'')) ''value'' = Inr n
    \<and> get_value_as_int xtree_ops n = Inl Out_of_range"
proof -
  have "msg_value xtree_ops (execute_method_msg xtree_ops ''x'') ''value'' = Inl Out_of_range"
    using xtree_laws by (simp add: execute_method_msg_def set_method_name_def msg_value_def value_at_def)
  moreover have "msg_node (execute_method_msg xtree_ops ''x'') \<noteq> None"
    by (simp add: execute_method_msg_def set_method_name_def)
  ultimately show ?thesis
    using parameter_lookup [OF xtree_laws, of "execute_method_msg xtree_ops ''x''" "''value''"
        "int_string 4294967295" 4294967295] by auto
qed

text \<open>
  Device numbers: method calls and responses carry the 16 bit device number; a device event
  does not: its receiver casts the number to eight bits, so an event of device 256 and above
  is attributed to another device. \<open>ExecuteDeviceMethodMsg\<close> builds a response: whoever receives it
  does not take it for a call.
\<close>

theorem device_numbers:
  assumes "xml_laws X"
  shows "get_device_id X (execute_device_method_msg X dev name) = Inr dev
    \<and> get_device_id X (device_method_response X dev name) = Inr dev
    \<and> event_device_id X (device_event X dev ev) = Inr (dev AND 255)
    \<and> get_type X (execute_device_method_msg X dev name) = Inr DEVICEMETHODRESPONSE"
proof -
  note l = xml_lawsD [OF assms]
  have "unat dev < 2 ^ 16" using unsigned_less [of dev] by simp
  then have s: "unat dev < 2 ^ 63" by simp
  have "ucast (word_of_int (int (unat dev)) :: u8) = dev AND 255"
  proof -
    have "(255 :: u16) = mask 8" by (simp add: mask_eq_exp_minus_1)
    then have "dev AND 255 = dev AND mask 8" by simp
    also have "\<dots> = ucast (ucast dev :: u8)" by (rule bit_word_eqI) (auto simp: bit_simps)
    finally show ?thesis by simp
  qed
  then show ?thesis
    using l s by (simp add: get_device_id_def execute_device_method_msg_def device_method_response_def
        event_device_id_def device_event_def set_method_name_def msg_prop_def get_type_def)
qed

theorem device_numbers_witness:
  "event_device_id xtree_ops (device_event xtree_ops 300 ''register_change'') = Inr 44"
  using device_numbers [OF xtree_laws, of 300 "[]" "''register_change''"] by simp

end
