(* ===== verification/H9_Server.thy ===== *)
theory H9_Server
  imports H9_Msg H9_Driver H9_Socket "HOL-Library.AList"
begin

text \<open>
  The client side of the h9bus daemon: \<open>protocol/h9msgsocket.{h,cc}\<close>, \<open>h9bus/tcpclient\<close>,
  \<open>h9bus/servermgr\<close> and \<open>h9bus/eventmgr\<close>. The outcome of each \<open>send\<close> on a client's socket
  is an input; what a client has been sent is recorded in order. The reports of the bus
  manager (the calls of \<open>process_recv_frame\<close> and \<open>process_sent_frame\<close>, which do not act
  back on it) are handed on in the order in which it makes them.
\<close>

subsection \<open>Message sockets\<close>

definition next_id :: "u64 \<Rightarrow> u64" where
  \<comment> \<open>\<open>get_next_id\<close>: the member after the call, which is also the result\<close>
  "next_id n = (if n = 0 then 1 else n + 1)"

datatype 'n msg_recv = Got_msg "'n gmsg" | No_msg | Recv_failed os_recv

definition msg_socket_recv :: "'n libxml \<Rightarrow> (string \<Rightarrow> 'n option) \<Rightarrow> recv_result \<Rightarrow> 'n msg_recv res" where
  \<comment> \<open>\<open>H9MsgSocket::recv\<close> for a result of \<open>H9Socket::recv\<close>; the constructor of the message
      throws inside a \<open>noexcept\<close> function\<close>
  "msg_socket_recv X rd r = (case r of
       Msg s \<Rightarrow> (case parsed_msg X (rd s) of Inl _ \<Rightarrow> Inl Terminate | Inr m \<Rightarrow> Inr (Got_msg m))
     | Again \<Rightarrow> Inr No_msg
     | Ret e \<Rightarrow> Inr (Recv_failed e))"

definition EAGAIN :: int where "EAGAIN = 11"
definition ECONNRESET :: int where "ECONNRESET = 104"
definition EPIPE :: int where "EPIPE = 32"
definition EBADF :: int where "EBADF = 9"

fun recv_complete ::
  "'n libxml \<Rightarrow> (string \<Rightarrow> 'n option) \<Rightarrow> recv_result list \<Rightarrow> 'n msg_recv res option" where
  \<comment> \<open>\<open>recv_complete_msg\<close>: the loop over the results; \<open>None\<close> while it still waits\<close>
  "recv_complete X rd [] = None"
| "recv_complete X rd (r # rs) = (case msg_socket_recv X rd r of
       Inr No_msg \<Rightarrow> recv_complete X rd rs
     | Inr (Recv_failed (Os_error e)) \<Rightarrow>
         if e = EAGAIN then recv_complete X rd rs else Some (Inr (Recv_failed (Os_error e)))
     | x \<Rightarrow> Some x)"

subsection \<open>TcpClient\<close>

record 'n tcp_client =
  tc_fd :: int
  tc_entity :: string
  tc_remote :: string
  tc_active :: int
  tc_connected :: bool
  tc_next_id :: u64
  tc_sends :: nat
  tc_out :: "'n gmsg list"

type_synonym send_oracle = "int \<Rightarrow> nat \<Rightarrow> int \<times> int"
  \<comment> \<open>descriptor, number of earlier sends: result and \<open>errno\<close>\<close>

definition new_tcp_client :: "int \<Rightarrow> string \<Rightarrow> 'n tcp_client" where
  "new_tcp_client fd remote = \<lparr>tc_fd = fd, tc_entity = [], tc_remote = remote, tc_active = 0,
     tc_connected = True, tc_next_id = 0, tc_sends = 0, tc_out = []\<rparr>"

definition client_idstring :: "'n tcp_client \<Rightarrow> string" where
  \<comment> \<open>\<open>tc_remote\<close> is address, colon and port\<close>
  "client_idstring c = tc_entity c @ CHR ''@'' # tc_remote c"

definition client_send ::
  "'n libxml \<Rightarrow> send_oracle \<Rightarrow> 'n gmsg \<Rightarrow> 'n tcp_client \<Rightarrow> cxx_error option \<times> 'n tcp_client" where
  \<comment> \<open>\<open>TcpClient::send\<close>\<close>
  "client_send X so m c =
     (let i = next_id (tc_next_id c); (res, en) = so (tc_fd c) (tc_sends c);
          c1 = c\<lparr>tc_next_id := i, tc_sends := tc_sends c + 1\<rparr>
      in if res \<le> 0 then
           (Some (if res = 0 \<or> en = ECONNRESET \<or> en = EPIPE \<or> en = EBADF then Close_socket
                  else System_error en), c1)
         else (None, c1\<lparr>tc_out := tc_out c @ [set_id X i m]\<rparr>))"

definition client_on_close :: "'n tcp_client \<Rightarrow> 'n tcp_client" where
  "client_on_close c = c\<lparr>tc_connected := False\<rparr>"

subsection \<open>ServerMgr\<close>

type_synonym 'n clients = "(int \<times> 'n tcp_client) list"

definition send_or_close ::
  "'n libxml \<Rightarrow> send_oracle \<Rightarrow> 'n gmsg \<Rightarrow> 'n tcp_client \<Rightarrow> cxx_error option \<times> 'n tcp_client" where
  \<comment> \<open>the \<open>try\<close> block: a \<open>CloseSocketException\<close> closes the client, other errors pass\<close>
  "send_or_close X so m c = (case client_send X so m c of
       (Some Close_socket, c1) \<Rightarrow> (None, client_on_close c1)
     | r \<Rightarrow> r)"

fun send_msg_to_subscriber ::
  "'n libxml \<Rightarrow> send_oracle \<Rightarrow> 'n gmsg \<Rightarrow> u64 \<Rightarrow> u64 \<Rightarrow> 'n clients \<Rightarrow> cxx_error option \<times> 'n clients" where
  "send_msg_to_subscriber X so m oid omsg [] = (None, [])"
| "send_msg_to_subscriber X so m oid omsg ((fd, c) # cs) =
     (let (e, c1) =
        (if word_of_int fd = oid then send_or_close X so (set_request_id X omsg m) c
         else if tc_active c \<noteq> 0 then send_or_close X so m c
         else (None, c))
      in case e of
           Some x \<Rightarrow> (Some x, (fd, c1) # cs)
         | None \<Rightarrow> (let (e2, cs1) = send_msg_to_subscriber X so m oid omsg cs in (e2, (fd, c1) # cs1)))"

fun flush_clients ::
  "(int \<Rightarrow> int) \<Rightarrow> 'n clients \<Rightarrow> int socketmgr \<Rightarrow> 'n clients \<times> int socketmgr" where
  \<comment> \<open>the sockets of the clients are known to the socket manager by their key\<close>
  "flush_clients fdo [] sm = ([], sm)"
| "flush_clients fdo ((fd, c) # cs) sm =
     (if \<not> tc_connected c then flush_clients fdo cs (unregister_socket fdo fd sm)
      else (let (cs1, sm1) = flush_clients fdo cs sm in ((fd, c) # cs1, sm1)))"

definition on_new_connection ::
  "int \<Rightarrow> string \<Rightarrow> 'n clients \<Rightarrow> int socketmgr \<Rightarrow> ('n clients \<times> int socketmgr) res" where
  \<comment> \<open>\<open>tcp_clients[client_socket] = tmp\<close>\<close>
  "on_new_connection fd remote cs sm =
     rbind (register_socket (\<lambda>_. fd) fd sm) (\<lambda>sm1.
       Inr (AList.update fd (new_tcp_client fd remote) cs, sm1))"

definition connected_clients_count :: "'n clients \<Rightarrow> nat" where
  "connected_clients_count cs = length cs"

fun upd_client ::
  "int \<Rightarrow> ('n tcp_client \<Rightarrow> cxx_error option \<times> 'n tcp_client) \<Rightarrow> 'n clients \<Rightarrow>
   cxx_error option \<times> 'n clients" where
  "upd_client fd g [] = (Some Undefined_behaviour, [])"
| "upd_client fd g ((k, c) # cs) =
     (if k = fd then (let (e, c1) = g c in (e, (k, c1) # cs))
      else (let (e, cs1) = upd_client fd g cs in (e, (k, c) # cs1)))"

subsection \<open>EventMgr\<close>

record 'n h9bus =
  hb_bus :: busmgr
  hb_clients :: "'n clients"

record 'n hb_env =
  he_xml :: "'n libxml"
  he_bus :: bus_env
  he_send :: send_oracle
  he_version :: string
  he_uptime :: int

definition deliver_event ::
  "'n hb_env \<Rightarrow> bus_event \<Rightarrow> 'n clients \<Rightarrow> cxx_error option \<times> 'n clients" where
  \<comment> \<open>\<open>process_recv_frame\<close> and \<open>process_sent_frame\<close>\<close>
  "deliver_event env ev cs =
     (let X = he_xml env; (bf, ep, oid, omsg) = (case ev of
            Recv_event ep bf \<Rightarrow> (bf, ep, 0, 0)
          | Sent_event ep bf \<Rightarrow> (bf, ep, bf_client bf, bf_msg bf))
      in case frame_msg X (bf_frame bf) (bf_origin bf) ep of
           Inl e \<Rightarrow> (Some e, cs)
         | Inr m \<Rightarrow> send_msg_to_subscriber X (he_send env) m oid omsg cs)"

fun deliver_events :: "'n hb_env \<Rightarrow> bus_event list \<Rightarrow> 'n clients \<Rightarrow> cxx_error option \<times> 'n clients" where
  "deliver_events env [] cs = (None, cs)"
| "deliver_events env (ev # evs) cs = (case deliver_event env ev cs of
       (None, cs1) \<Rightarrow> deliver_events env evs cs1
     | (Some e, cs1) \<Rightarrow> (Some e, cs1))"

definition get_stat :: "'n hb_env \<Rightarrow> 'n h9bus \<Rightarrow> 'n gmsg res" where
  "get_stat env h =
    (let X = he_xml env; b = hb_bus h;
         cnt = (\<lambda>n c. case get_dev_counter n c b of Inr w \<Rightarrow> dec_string (unat w) | Inl _ \<Rightarrow> []);
         m = add_value X ''connected_clients_count'' (dec_string (connected_clients_count (hb_clients h)))
               (add_value X ''uptime'' (int_string (he_uptime env))
                 (add_value X ''version'' (he_version env) (method_response X ''h9bus_stat'')))
     in Inr (with_node (dict_add_array X ''endpoint'' (\<lambda>a.
          fold (\<lambda>n. array_add_dict X (\<lambda>d.
            dict_add_value X ''received_frames_counter'' (cnt n RECEIVED_FRAMES)
              (dict_add_value X ''send_frames_counter'' (cnt n SEND_FRAMES)
                (dict_add_value X ''name'' n d)))) (get_dev_list b) a)) m))"

definition event_param :: "'n libxml \<Rightarrow> 'n gmsg \<Rightarrow> string res" where
  \<comment> \<open>\<open>call_msg["event"].get_value_as_str()\<close>\<close>
  "event_param X m = rbind (msg_value X m ''event'') (get_value_as_str X)"

definition subscription_call ::
  "'n libxml \<Rightarrow> string \<Rightarrow> int \<Rightarrow> 'n gmsg \<Rightarrow> 'n tcp_client \<Rightarrow> ('n gmsg \<times> 'n tcp_client) res" where
  \<comment> \<open>the branches \<open>subscribe\<close> and \<open>unsubscribe\<close>; the answer to an unsupported event names
      the method \<open>subscribe\<close> in both\<close>
  "subscription_call X method active m c = (case event_param X m of
       Inr ev \<Rightarrow>
         if ev = ''frame'' then Inr (method_response X method, c\<lparr>tc_active := active\<rparr>)
         else Inr (method_response_error X ''subscribe'' 103 (''Unsupported event: '' @ ev), c)
     | Inl Out_of_range \<Rightarrow>
         Inr (error_msg X INVALID_PARAMETERS (''Missing '' @ CHR 0x27 # ''event'' @ CHR 0x27 # '' attribute''), c)
     | Inl Invalid_argument \<Rightarrow> Inr (error_msg X INVALID_PARAMETERS ''Invalid parameters'', c)
     | Inl e \<Rightarrow> Inl e)"

definition method_answer ::
  "'n hb_env \<Rightarrow> 'n h9bus \<Rightarrow> 'n gmsg \<Rightarrow> 'n tcp_client \<Rightarrow> ('n gmsg \<times> 'n tcp_client) res" where
  \<comment> \<open>the dispatch of \<open>execute_method\<close>: the answer and the client's new state\<close>
  "method_answer env h m c =
    (let X = he_xml env in rbind (get_method_name X m) (\<lambda>name.
       if name = ''methods_list'' then
         Inr (with_node (dict_add_array X ''methods'' (\<lambda>a. fold (array_add_value X)
           [''methods_list'', ''h9bus_stat'', ''events_list'', ''subscribe'', ''unsubscribe''] a))
           (method_response X name), c)
       else if name = ''h9bus_stat'' then rbind (get_stat env h) (\<lambda>r. Inr (r, c))
       else if name = ''events_list'' then
         Inr (with_node (dict_add_array X ''events'' (array_add_value X ''frame'')) (method_response X name), c)
       else if name = ''subscribe'' then subscription_call X ''subscribe'' 1 m c
       else if name = ''unsubscribe'' then subscription_call X ''unsubscribe'' 0 m c
       else Inr (error_msg X UNSUPPORTED_METHOD (''Unsupported method: '' @ name), c)))"

definition answer_client ::
  "'n hb_env \<Rightarrow> 'n h9bus \<Rightarrow> 'n gmsg \<Rightarrow> 'n tcp_client \<Rightarrow> cxx_error option \<times> 'n tcp_client" where
  \<comment> \<open>\<open>execute_method\<close>\<close>
  "answer_client env h m c = (case method_answer env h m c of
       Inl e \<Rightarrow> (Some e, c)
     | Inr (r, c1) \<Rightarrow>
         (case get_id (he_xml env) m of
            Inl e \<Rightarrow> (Some e, c1)
          | Inr i \<Rightarrow> client_send (he_xml env) (he_send env) (set_request_id (he_xml env) i r) c1))"

definition process_msg :: "'n hb_env \<Rightarrow> int \<Rightarrow> 'n gmsg \<Rightarrow> 'n h9bus \<Rightarrow> cxx_error option \<times> 'n h9bus" where
  \<comment> \<open>\<open>EventMgr::process_msg\<close> for the client with this descriptor; the number of the message is read
      for the log first\<close>
  "process_msg env fd m h =
    (let X = he_xml env; on_client = (\<lambda>g.
           let (e, cs) = upd_client fd g (hb_clients h) in (e, h\<lparr>hb_clients := cs\<rparr>))
     in case get_type X m of
       Inl e \<Rightarrow> (Some e, h)
     | Inr SEND_FRAME \<Rightarrow>
         (case (map_of (hb_clients h) fd, get_id X m, get_frame X m) of
            (Some c, Inr i, Inr f) \<Rightarrow>
              (let b = hb_bus h;
                   (e, b1) = bus_send_frame (he_bus env) f (client_idstring c) (word_of_int fd) i [] b;
                   evs = drop (length (events (bm_store b))) (events (bm_store b1));
                   (e2, cs) = deliver_events env evs (hb_clients h)
               in (if e2 = None then e else e2, h\<lparr>hb_bus := b1, hb_clients := cs\<rparr>))
          | (None, _, _) \<Rightarrow> (Some Undefined_behaviour, h)
          | (_, Inl e, _) \<Rightarrow> (Some e, h)
          | (_, _, Inl e) \<Rightarrow> (Some e, h))
     | Inr SUBSCRIBE \<Rightarrow> on_client (\<lambda>c. case get_id X m of
           Inl e \<Rightarrow> (Some e, c) | Inr i \<Rightarrow> (None, c\<lparr>tc_active := 1\<rparr>))
     | Inr EXECUTEMETHOD \<Rightarrow>
         (case get_id X m of Inl e \<Rightarrow> (Some e, h) | Inr i \<Rightarrow> on_client (answer_client env h m))
     | Inr _ \<Rightarrow> on_client (\<lambda>c. case get_id X m of
           Inl e \<Rightarrow> (Some e, c)
         | Inr i \<Rightarrow> client_send X (he_send env)
             (set_request_id X i (error_msg X UNSUPPORTED_MESSAGE_TYPE ''EventMgr::flush_msg'')) c))"

definition recv_msg ::
  "'n hb_env \<Rightarrow> (string \<Rightarrow> 'n option) \<Rightarrow> ('n gmsg \<Rightarrow> string option) \<Rightarrow> int \<Rightarrow> recv_result \<Rightarrow> 'n h9bus \<Rightarrow>
   cxx_error option \<times> 'n h9bus" where
  \<comment> \<open>\<open>TcpClient::recv_msg\<close>; \<open>chk\<close> is the schema validation, an error text for an invalid message\<close>
  "recv_msg env rd chk fd r h =
    (let X = he_xml env; on_client = (\<lambda>g.
           let (e, cs) = upd_client fd g (hb_clients h) in (e, h\<lparr>hb_clients := cs\<rparr>))
     in case msg_socket_recv X rd r of
       Inl e \<Rightarrow> (Some e, h)
     | Inr No_msg \<Rightarrow> (None, h)
     | Inr (Recv_failed Closed) \<Rightarrow> (Some Close_socket, h)
     | Inr (Recv_failed (Os_error e)) \<Rightarrow>
         (if e = ECONNRESET then Some Close_socket else if e = EAGAIN then None else Some (System_error e), h)
     | Inr (Recv_failed (Got _)) \<Rightarrow> (Some Undefined_behaviour, h)
     | Inr (Got_msg m) \<Rightarrow>
         (case chk m of
            Some txt \<Rightarrow> on_client (client_send X (he_send env) (error_msg X INVALID_MESSAGE_SCHEMA txt))
          | None \<Rightarrow>
              (case get_type X m of
                 Inl e \<Rightarrow> (Some e, h)
               | Inr IDENTIFICATION \<Rightarrow> on_client (\<lambda>c. case get_entity X m of
                     Inl e \<Rightarrow> (Some e, c) | Inr en \<Rightarrow> (None, c\<lparr>tc_entity := en\<rparr>))
               | Inr _ \<Rightarrow> process_msg env fd m h)))"

subsection \<open>Lemmas\<close>

definition closing :: "send_oracle \<Rightarrow> int \<Rightarrow> nat \<Rightarrow> bool" where
  \<comment> \<open>the peer is gone: the send reports the end of the connection\<close>
  "closing so fd n \<longleftrightarrow> fst (so fd n) \<le> 0 \<and>
     (fst (so fd n) = 0 \<or> snd (so fd n) \<in> {ECONNRESET, EPIPE, EBADF})"

definition sends_or_closes :: "send_oracle \<Rightarrow> bool" where
  "sends_or_closes so \<longleftrightarrow> (\<forall>fd n. 0 < fst (so fd n) \<or> closing so fd n)"

definition after_send :: "'n libxml \<Rightarrow> send_oracle \<Rightarrow> 'n gmsg \<Rightarrow> 'n tcp_client \<Rightarrow> 'n tcp_client" where
  "after_send X so m c = c\<lparr>tc_next_id := next_id (tc_next_id c), tc_sends := tc_sends c + 1,
     tc_connected := (tc_connected c \<and> 0 < fst (so (tc_fd c) (tc_sends c))),
     tc_out := tc_out c @ (if 0 < fst (so (tc_fd c) (tc_sends c))
       then [set_id X (next_id (tc_next_id c)) m] else [])\<rparr>"

lemma send_or_close_eq:
  "sends_or_closes so \<Longrightarrow> send_or_close X so m c = (None, after_send X so m c)"
  unfolding sends_or_closes_def
  by (drule spec [where x = "tc_fd c"], drule spec [where x = "tc_sends c"])
     (auto simp: send_or_close_def client_send_def closing_def after_send_def client_on_close_def
       Let_def split: prod.splits)

definition copy_for :: "'n libxml \<Rightarrow> 'n gmsg \<Rightarrow> u64 \<Rightarrow> u64 \<Rightarrow> int \<Rightarrow> 'n tcp_client \<Rightarrow> 'n gmsg option" where
  \<comment> \<open>what a client is sent: its own confirmation, the plain message, or nothing\<close>
  "copy_for X m oid omsg fd c =
     (if word_of_int fd = oid then Some (set_request_id X omsg m)
      else if tc_active c \<noteq> 0 then Some m else None)"

definition delivered :: "'n libxml \<Rightarrow> send_oracle \<Rightarrow> 'n gmsg \<Rightarrow> u64 \<Rightarrow> u64 \<Rightarrow> int \<Rightarrow> 'n tcp_client \<Rightarrow> 'n tcp_client" where
  "delivered X so m oid omsg fd c =
     (case copy_for X m oid omsg fd c of None \<Rightarrow> c | Some m1 \<Rightarrow> after_send X so m1 c)"

lemma send_msg_to_subscriber_eq:
  "sends_or_closes so \<Longrightarrow> send_msg_to_subscriber X so m oid omsg cs =
     (None, map (\<lambda>(fd, c). (fd, delivered X so m oid omsg fd c)) cs)"
  by (induction cs) (auto simp: send_or_close_eq delivered_def copy_for_def)

lemma client_send_ok:
  "0 < fst (so (tc_fd c) (tc_sends c)) \<Longrightarrow> client_send X so m c = (None, after_send X so m c)"
  by (auto simp: client_send_def after_send_def Let_def split: prod.splits)

lemma upd_client_eq:
  "distinct (map fst cs) \<Longrightarrow> map_of cs fd = Some c \<Longrightarrow> g c = (e, c1) \<Longrightarrow>
    upd_client fd g cs = (e, map (\<lambda>(k, d). (k, if k = fd then c1 else d)) cs)"
proof (induction cs)
  case Nil
  then show ?case by simp
next
  case (Cons a cs)
  show ?case
  proof (cases "fst a = fd")
    case True
    then have "fd \<notin> fst ` set cs" using Cons.prems(1) by auto
    then have "map (\<lambda>(k, d). (k, if k = fd then c1 else d)) cs = cs"
      by (intro map_idI) (auto simp: image_iff)
    then show ?thesis using True Cons.prems by (cases a) simp
  next
    case False
    then show ?thesis using Cons by (cases a) simp
  qed
qed

lemma find_named_error: "find_named X k ns = Inl e \<Longrightarrow> e = Out_of_range"
  by (induction ns) (auto split: if_splits)

lemma event_param_error:
  "msg_node m \<noteq> None \<Longrightarrow> event_param X m = Inl e \<Longrightarrow> e = Out_of_range \<or> e = Invalid_argument"
  by (auto simp: event_param_def msg_value_def value_at_def get_value_as_str_def rbind_def
      dest: find_named_error split: sum.splits option.splits)

definition new_subscription :: "'n libxml \<Rightarrow> 'n gmsg \<Rightarrow> string \<Rightarrow> int \<Rightarrow> int" where
  \<comment> \<open>the subscription of a client after a method call\<close>
  "new_subscription X m name a =
     (if event_param X m = Inr ''frame'' \<and> name = ''subscribe'' then 1
      else if event_param X m = Inr ''frame'' \<and> name = ''unsubscribe'' then 0 else a)"

lemma method_answer_total:
  assumes "get_method_name (he_xml env) m = Inr name"
  shows "\<exists>r. method_answer env h m c = Inr (r, c\<lparr>tc_active := new_subscription (he_xml env) m name (tc_active c)\<rparr>)"
proof -
  have n: "msg_node m \<noteq> None"
    using assms by (auto simp: get_method_name_def msg_prop_def split: option.splits)
  have "\<exists>r. subscription_call (he_xml env) nm a m c =
      Inr (r, if event_param (he_xml env) m = Inr ''frame'' then c\<lparr>tc_active := a\<rparr> else c)" for nm a
    using event_param_error [OF n, of "he_xml env"]
    by (cases "event_param (he_xml env) m") (auto simp: subscription_call_def)
  then show ?thesis
    using assms by (auto simp: method_answer_def get_stat_def new_subscription_def Let_def)
qed

lemma get_request_sent [simp]:
  "xml_laws X \<Longrightarrow> get_request_id X (set_id X i (set_request_id X j m)) = j"
  by (simp add: get_request_id_def set_id_def set_request_id_def)

subsection \<open>Properties\<close>


text \<open>
  C18. Every method call is answered exactly once: whatever the method and its parameters, the
  caller gets one message more, with the number of the call as its request number; only
  \<open>subscribe\<close> and \<open>unsubscribe\<close> of the event \<open>frame\<close> change its subscription; the other
  clients and the bus are not touched.
\<close>

theorem method_call_answered:
  assumes "xml_laws (he_xml env)" and "distinct (map fst (hb_clients h))"
    and "map_of (hb_clients h) fd = Some c" and "0 < fst (he_send env (tc_fd c) (tc_sends c))"
    and "get_type (he_xml env) m = Inr EXECUTEMETHOD" and "get_method_name (he_xml env) m = Inr name"
    and "get_id (he_xml env) m = Inr i"
  shows "\<exists>h' c' r. process_msg env fd m h = (None, h') \<and> hb_bus h' = hb_bus h
    \<and> hb_clients h' = map (\<lambda>(k, d). (k, if k = fd then c' else d)) (hb_clients h)
    \<and> tc_out c' = tc_out c @ [r] \<and> get_request_id (he_xml env) r = i
    \<and> tc_active c' = new_subscription (he_xml env) m name (tc_active c)"
proof -
  let ?X = "he_xml env"
  let ?c1 = "c\<lparr>tc_active := new_subscription ?X m name (tc_active c)\<rparr>"
  obtain r where r: "method_answer env h m c = Inr (r, ?c1)"
    using method_answer_total [OF assms(6)] by blast
  let ?c' = "after_send ?X (he_send env) (set_request_id ?X i r) ?c1"
  have "answer_client env h m c = (None, ?c')"
    using r assms(4,7) client_send_ok [of "he_send env" ?c1 ?X "set_request_id ?X i r"]
    by (simp add: answer_client_def)
  then have "upd_client fd (answer_client env h m) (hb_clients h)
      = (None, map (\<lambda>(k, d). (k, if k = fd then ?c' else d)) (hb_clients h))"
    by (rule upd_client_eq [OF assms(2,3)])
  then have "process_msg env fd m h
      = (None, h\<lparr>hb_clients := map (\<lambda>(k, d). (k, if k = fd then ?c' else d)) (hb_clients h)\<rparr>)"
    using assms(5,7) by (simp add: process_msg_def Let_def)
  then show ?thesis
    using assms(1,4)
    by (intro exI [of _ "h\<lparr>hb_clients := map (\<lambda>(k, d). (k, if k = fd then ?c' else d)) (hb_clients h)\<rparr>"]
        exI [of _ ?c'] exI [of _ "set_id ?X (next_id (tc_next_id c)) (set_request_id ?X i r)"])
       (simp add: after_send_def)
qed

text \<open>
  Any client can stop the daemon with one message that is not XML: the bytes arrive as a
  complete message, the constructor throws inside the \<open>noexcept\<close> function
  \<open>H9MsgSocket::recv\<close>, and the program terminates before the schema check.
\<close>

theorem malformed_message_terminates:
  assumes "length hb = 4" and "d \<noteq> []" and "s \<noteq> []" and "length s < 2 ^ 32" and "CHR 0x00 \<notin> set s"
    and "rd s = None"
  shows "fst (recv_msg env rd chk fd (fst (sock_recv g (Got (be32_bytes (length s))) (Got (to_bytes s))
      (new_h9socket hb d))) h) = Some Terminate"
proof -
  let ?s0 = "new_h9socket hb d" and ?r1 = "Got (be32_bytes (length s))" and ?r2 = "Got (to_bytes s)"
  obtain res s' where r: "sock_recv g ?r1 ?r2 ?s0 = (res, s')" by force
  have b: "be32 (overwrite 0 (be32_bytes (length s)) hb) = length s"
    using assms(1,4) by (simp add: overwrite_def)
  have "recv_allowed ?s0 ?r1 ?r2"
    using assms(3) b by (simp add: recv_allowed_def os_ok_def got_def new_h9socket_def)
  then have "sock_feed [] (consumed ?r1 ?r2 ?s0) = (received s', messages res)"
    using sock_recv_refines [OF new_socket_inv [OF assms(1,2)] _ r] by simp
  moreover have "consumed ?r1 ?r2 ?s0 = sock_wire s"
    by (simp add: consumed_def got_def new_h9socket_def sock_wire_def)
  ultimately have "messages res = [s]" using feed_message [OF assms(3-5)] by simp
  then have "res = Msg s" by (auto simp: messages_def split: recv_result.splits)
  then show ?thesis
    using assms(6) r by (simp add: recv_msg_def msg_socket_recv_def parsed_msg_def)
qed

subsection \<open>Witnesses\<close>

definition sample_clients :: "xtree clients" where
  "sample_clients = [(5, new_tcp_client 5 ''10.0.0.5:900''),
     (6, (new_tcp_client 6 ''10.0.0.6:901'')\<lparr>tc_active := 1\<rparr>), (7, new_tcp_client 7 ''10.0.0.7:902'')]"

definition sample_env :: "xtree hb_env" where
  "sample_env = \<lparr>he_xml = xtree_ops, he_bus = fifo_env, he_send = (\<lambda>fd n. (20, 0)),
     he_version = ''0.3'', he_uptime = 60\<rparr>"

definition sample_h9bus :: "xtree h9bus" where
  "sample_h9bus = \<lparr>hb_bus = one_bus [(''can0'', idle_driver SocketCAN ''can0'')],
     hb_clients = sample_clients\<rparr>"


theorem method_call_answered_witness:
  "\<exists>h' c' r. process_msg sample_env 5 (set_id xtree_ops 31 (add_value xtree_ops ''event'' ''frame''
      (execute_method_msg xtree_ops ''subscribe''))) sample_h9bus = (None, h')
    \<and> hb_clients h' = map (\<lambda>(k, d). (k, if k = 5 then c' else d)) sample_clients
    \<and> tc_out c' = [r] \<and> get_request_id xtree_ops r = 31 \<and> tc_active c' = 1"
proof -
  let ?m = "set_id xtree_ops 31 (add_value xtree_ops ''event'' ''frame'' (execute_method_msg xtree_ops ''subscribe''))"
  let ?c = "new_tcp_client 5 ''10.0.0.5:900'' :: xtree tcp_client"
  have ev: "event_param xtree_ops ?m = Inr ''frame''"
    by (simp add: event_param_def msg_value_def value_at_def add_value_def dict_add_value_def
        execute_method_msg_def set_method_name_def get_value_as_str_def xtree_laws)
  have i: "strtoull 10 (dec_string 31) = (31 :: u64)" using strtoull_dec_string [of "31 :: u64"] by simp
  have "\<exists>h' c' r. process_msg sample_env 5 ?m sample_h9bus = (None, h') \<and> hb_bus h' = hb_bus sample_h9bus
    \<and> hb_clients h' = map (\<lambda>(k, d). (k, if k = 5 then c' else d)) (hb_clients sample_h9bus)
    \<and> tc_out c' = tc_out ?c @ [r] \<and> get_request_id (he_xml sample_env) r = 31
    \<and> tc_active c' = new_subscription (he_xml sample_env) ?m ''subscribe'' (tc_active ?c)"
    by (rule method_call_answered)
       (simp_all add: sample_env_def sample_h9bus_def sample_clients_def new_tcp_client_def xtree_laws
        get_type_def get_method_name_def msg_prop_def add_value_def dict_add_value_def
        execute_method_msg_def set_method_name_def get_id_def set_id_def i)
  then show ?thesis
    using ev by (auto simp: sample_env_def sample_h9bus_def new_tcp_client_def new_subscription_def)
qed

theorem malformed_message_terminates_witness:
  "fst (recv_msg sample_env (\<lambda>_. None) (\<lambda>_. None) 5 (fst (sock_recv [] (Got (be32_bytes (length ''<''))) (Got (to_bytes ''<''))
      (new_h9socket [0, 0, 0, 0] [0]))) sample_h9bus) = Some Terminate"
  by (rule malformed_message_terminates) simp_all

end
