(* ===== verification/H9_Bus.thy ===== *)
theory H9_Bus
  imports H9_Comparator H9_Msg
begin

text \<open>
  \<open>h9d/bus.{h,cc}\<close>: the requests the h9d daemon puts on the bus, the sequence numbers, and
  the table of promises by which a thread waits for the confirmation of its frame. The calls
  of \<open>send_frame_sync\<close> run in many threads beside the receiving thread; each access under
  \<open>send_promise_map_mtx\<close> is one step, and so is \<open>get_next_id\<close> (which the code leaves
  unprotected). A promise is named by the number of the call that made it.
\<close>

subsection \<open>Results\<close>

definition BUS_OK :: int where "BUS_OK = 0"
definition NOT_CONNECTED_TO_H9BUS :: int where "NOT_CONNECTED_TO_H9BUS = -2"
definition INVALID_SOURCE_ID :: int where "INVALID_SOURCE_ID = -3"
definition INVALID_DESTINATION_ID :: int where "INVALID_DESTINATION_ID = -4"
definition INVALID_DATA_SIZE :: int where "INVALID_DATA_SIZE = -5"
definition SEND_TIMEOUT :: int where "SEND_TIMEOUT = -6"
definition H9BUS_ERROR :: int where "H9BUS_ERROR = -7"

lemmas bus_codes = BUS_OK_def NOT_CONNECTED_TO_H9BUS_def INVALID_SOURCE_ID_def
  INVALID_DESTINATION_ID_def INVALID_DATA_SIZE_def SEND_TIMEOUT_def H9BUS_ERROR_def

subsection \<open>Requests\<close>

type_synonym request = "int + h9frame"
  \<comment> \<open>the frame given to \<open>send_frame_sync\<close>, or the error code returned before that\<close>

definition request_frame :: "priority \<Rightarrow> u8 \<Rightarrow> u8 \<Rightarrow> h9frame" where
  \<comment> \<open>the first lines of every \<open>send_*\<close>\<close>
  "request_frame pr ty sq = (new_frame 0 0 0)\<lparr>priority := pr, ftype := ty, seqnum := ucast sq\<rparr>"

definition put_source :: "u16 \<Rightarrow> h9frame \<Rightarrow> request" where
  "put_source src f = (if unat src < 1 \<or> unat src \<ge> BROADCAST_ID then Inl INVALID_SOURCE_ID
     else Inr (f\<lparr>source_id := ucast src\<rparr>))"

definition put_destination :: "nat \<Rightarrow> u16 \<Rightarrow> h9frame \<Rightarrow> request" where
  \<comment> \<open>\<open>lo\<close> is 1 where the code refuses destination 0 and 0 where it does not\<close>
  "put_destination lo dst f =
     (if unat dst < lo \<or> unat dst > BROADCAST_ID then Inl INVALID_DESTINATION_ID
      else Inr (f\<lparr>destination_id := ucast dst\<rparr>))"

definition qbind :: "request \<Rightarrow> (h9frame \<Rightarrow> request) \<Rightarrow> request" where
  "qbind r g = (case r of Inl e \<Rightarrow> Inl e | Inr f \<Rightarrow> g f)"

lemma qbind_simps [simp]: "qbind (Inl e) g = Inl e" "qbind (Inr f) g = g f"
  by (simp_all add: qbind_def)

definition set_reg_request :: "priority \<Rightarrow> u8 \<Rightarrow> u16 \<Rightarrow> u16 \<Rightarrow> u8 \<Rightarrow> u8 list \<Rightarrow> request" where
  \<comment> \<open>\<open>bs\<close> is the array of \<open>nbyte\<close> bytes at \<open>data\<close>\<close>
  "set_reg_request pr sq src dst reg bs =
     qbind (put_source src (request_frame pr SET_REG sq)) (\<lambda>f1.
     qbind (put_destination 0 dst f1) (\<lambda>f2.
       if length bs > 7 then Inl INVALID_DATA_SIZE
       else Inr (f2\<lparr>dlc := of_nat (length bs) + 1,
                    data := reg # bs @ drop (length bs + 1) (data f2)\<rparr>)))"

definition get_reg_request :: "priority \<Rightarrow> u8 \<Rightarrow> u16 \<Rightarrow> u16 \<Rightarrow> u8 \<Rightarrow> request" where
  "get_reg_request pr sq src dst reg =
     qbind (put_source src (request_frame pr GET_REG sq)) (\<lambda>f1.
     qbind (put_destination 0 dst f1) (\<lambda>f2.
       Inr (f2\<lparr>data := (data f2)[0 := reg], dlc := 1\<rparr>)))"

definition bit_request :: "u8 \<Rightarrow> priority \<Rightarrow> u8 \<Rightarrow> u16 \<Rightarrow> u16 \<Rightarrow> u8 \<Rightarrow> int \<Rightarrow> request" where
  "bit_request ty pr sq src dst reg bt =
     qbind (put_source src (request_frame pr ty sq)) (\<lambda>f1.
     qbind (put_destination 1 dst f1) (\<lambda>f2.
       Inr (f2\<lparr>data := (data f2)[0 := reg, 1 := word_of_int bt], dlc := 2\<rparr>)))"

definition set_bit_request :: "priority \<Rightarrow> u8 \<Rightarrow> u16 \<Rightarrow> u16 \<Rightarrow> u8 \<Rightarrow> int \<Rightarrow> request" where
  "set_bit_request = bit_request SET_BIT"

definition clear_bit_request :: "priority \<Rightarrow> u8 \<Rightarrow> u16 \<Rightarrow> u16 \<Rightarrow> u8 \<Rightarrow> int \<Rightarrow> request" where
  "clear_bit_request = bit_request CLEAR_BIT"

definition toggle_bit_request :: "priority \<Rightarrow> u8 \<Rightarrow> u16 \<Rightarrow> u16 \<Rightarrow> u8 \<Rightarrow> int \<Rightarrow> request" where
  "toggle_bit_request = bit_request TOGGLE_BIT"

definition node_upgrade_request :: "priority \<Rightarrow> u8 \<Rightarrow> u16 \<Rightarrow> u16 \<Rightarrow> request" where
  "node_upgrade_request pr sq src dst =
     qbind (put_source src (request_frame pr NODE_UPGRADE sq)) (\<lambda>f1.
     qbind (put_destination 1 dst f1) (\<lambda>f2. Inr (f2\<lparr>dlc := 0\<rparr>)))"

definition node_reset_request :: "priority \<Rightarrow> u8 \<Rightarrow> u16 \<Rightarrow> u16 \<Rightarrow> request" where
  "node_reset_request pr sq src dst =
     qbind (put_source src (request_frame pr NODE_RESET sq)) (\<lambda>f1.
     qbind (put_destination 0 dst f1) (\<lambda>f2. Inr (f2\<lparr>dlc := 0\<rparr>)))"

definition node_discover_request :: "priority \<Rightarrow> u8 \<Rightarrow> u16 \<Rightarrow> u16 \<Rightarrow> request" where
  \<comment> \<open>the destination is not checked and cut to nine bits\<close>
  "node_discover_request pr sq src dst =
     qbind (put_source src (request_frame pr DISCOVER sq)) (\<lambda>f1.
       Inr (f1\<lparr>destination_id := ucast dst, dlc := 0\<rparr>))"

definition send_request :: "(h9frame \<Rightarrow> int) \<Rightarrow> request \<Rightarrow> int" where
  \<comment> \<open>the end of every \<open>send_*\<close>, for the result of \<open>send_frame_sync\<close>\<close>
  "send_request sync r = (case r of Inl e \<Rightarrow> e
     | Inr f \<Rightarrow> (let ret = sync f in if ret = BUS_OK then int (unat (seqnum f)) else ret))"

lemmas request_defs = request_frame_def put_source_def put_destination_def set_reg_request_def
  get_reg_request_def bit_request_def set_bit_request_def clear_bit_request_def
  toggle_bit_request_def node_upgrade_request_def node_reset_request_def node_discover_request_def

subsection \<open>Sequence numbers\<close>

type_synonym seqnums = "u8 list"

definition no_seqnums :: seqnums where
  "no_seqnums = replicate 512 0"

definition get_next_seqnum :: "u16 \<Rightarrow> seqnums \<Rightarrow> (u8 \<times> seqnums) res" where
  \<comment> \<open>a table of \<open>1 << 9\<close> counters indexed with sixteen bits\<close>
  "get_next_seqnum n t = (if unat n < length t
     then Inr ((t ! unat n) AND 31, t[unat n := t ! unat n + 1]) else Inl Undefined_behaviour)"

fun take_seqnums :: "u16 \<Rightarrow> nat \<Rightarrow> seqnums \<Rightarrow> (u8 list \<times> seqnums) res" where
  \<comment> \<open>the results of a number of calls for the same node\<close>
  "take_seqnums n 0 t = Inr ([], t)"
| "take_seqnums n (Suc k) t = rbind (get_next_seqnum n t) (\<lambda>(q, t1).
     rbind (take_seqnums n k t1) (\<lambda>(qs, t2). Inr (q # qs, t2)))"

subsection \<open>Promises\<close>

datatype send_call =
    Numbered u64 | Registered u64 | Sent u64 | Expired u64 | Returned u64 int
  \<comment> \<open>how far a call of \<open>send_frame_sync\<close> is, with its message number\<close>

fun call_id :: "send_call \<Rightarrow> u64" where
  "call_id (Numbered i) = i" | "call_id (Registered i) = i" | "call_id (Sent i) = i"
| "call_id (Expired i) = i" | "call_id (Returned i r) = i"

record promises =
  pm_next :: u64
  pm_map :: "u64 \<rightharpoonup> nat"
  pm_value :: "nat \<rightharpoonup> int"
  pm_calls :: "send_call list"
  pm_answers :: "(u64 \<times> int) list"
  pm_satisfied_twice :: bool
    \<comment> \<open>set when \<open>set_value\<close> meets a promise that has its value: it throws \<open>future_error\<close>\<close>

definition bus_connected :: promises where
  \<comment> \<open>after \<open>load_config\<close>: the identification and the subscription have used the numbers 1 and 2\<close>
  "bus_connected = \<lparr>pm_next = 2, pm_map = Map.empty, pm_value = Map.empty, pm_calls = [],
     pm_answers = [], pm_satisfied_twice = False\<rparr>"

definition number_call :: "promises \<Rightarrow> promises" where
  "number_call s = (let i = (if pm_next s = 0 then 1 else pm_next s + 1) in
     s\<lparr>pm_next := i, pm_calls := pm_calls s @ [Numbered i]\<rparr>)"

definition register_promise :: "nat \<Rightarrow> u64 \<Rightarrow> promises \<Rightarrow> promises" where
  "register_promise k i s =
     s\<lparr>pm_map := (pm_map s)(i \<mapsto> k), pm_calls := (pm_calls s)[k := Registered i]\<rparr>"

definition send_done :: "nat \<Rightarrow> u64 \<Rightarrow> bool \<Rightarrow> promises \<Rightarrow> promises" where
  \<comment> \<open>\<open>h9bus_connector->send\<close> returns, or throws and the handler runs\<close>
  "send_done k i ok s = (if ok then s\<lparr>pm_calls := (pm_calls s)[k := Sent i]\<rparr>
     else s\<lparr>pm_map := (pm_map s)(i := None),
            pm_calls := (pm_calls s)[k := Returned i NOT_CONNECTED_TO_H9BUS]\<rparr>)"

definition wait_ends :: "nat \<Rightarrow> u64 \<Rightarrow> promises \<Rightarrow> promises" where
  \<comment> \<open>\<open>wait_for\<close>: the value is taken when it is there, else the call has expired\<close>
  "wait_ends k i s = s\<lparr>pm_calls := (pm_calls s)[k :=
     (case pm_value s k of Some v \<Rightarrow> Returned i v | None \<Rightarrow> Expired i)]\<rparr>"

definition drop_promise :: "nat \<Rightarrow> u64 \<Rightarrow> promises \<Rightarrow> promises" where
  "drop_promise k i s = s\<lparr>pm_map := (pm_map s)(i := None),
     pm_calls := (pm_calls s)[k := Returned i SEND_TIMEOUT]\<rparr>"

definition settle :: "u64 \<Rightarrow> int \<Rightarrow> promises \<Rightarrow> promises" where
  \<comment> \<open>the block of \<open>recv_thread\<close> under the mutex, for a request number other than 0\<close>
  "settle i v s = (let s1 = s\<lparr>pm_answers := pm_answers s @ [(i, v)]\<rparr> in
     case pm_map s i of None \<Rightarrow> s1
     | Some k \<Rightarrow> s1\<lparr>pm_value := (pm_value s)(k \<mapsto> v), pm_map := (pm_map s)(i := None),
                    pm_satisfied_twice := (pm_satisfied_twice s \<or> pm_value s k \<noteq> None)\<rparr>)"

definition bus_recv :: "'n libxml \<Rightarrow> 'o subject \<Rightarrow> 'n gmsg \<Rightarrow> promises \<Rightarrow> (('o \<times> h9frame) list \<times> promises) res" where
  \<comment> \<open>one turn of \<open>recv_thread\<close>: the calls of \<open>on_frame_recv\<close>, then the promise; an exception
      is thrown again and leaves the thread\<close>
  "bus_recv X obs m s = rbind (get_type X m) (\<lambda>ty.
     if ty = FRAME then rbind (get_frame X m) (\<lambda>f.
       Inr (map (\<lambda>ob. (ob, f)) (notify_frame_observer obs f),
            if get_request_id X m \<noteq> 0 then settle (get_request_id X m) BUS_OK s else s))
     else if ty = ERROR_MSG then rbind (get_id X m) (\<lambda>_.
       Inr ([], if get_request_id X m \<noteq> 0 then settle (get_request_id X m) H9BUS_ERROR s else s))
     else Inr ([], s))"

inductive bus_step :: "promises \<Rightarrow> promises \<Rightarrow> bool" where
  number: "bus_step s (number_call s)"
| register: "k < length (pm_calls s) \<Longrightarrow> pm_calls s ! k = Numbered i \<Longrightarrow> bus_step s (register_promise k i s)"
| send: "k < length (pm_calls s) \<Longrightarrow> pm_calls s ! k = Registered i \<Longrightarrow> bus_step s (send_done k i ok s)"
| wait: "k < length (pm_calls s) \<Longrightarrow> pm_calls s ! k = Sent i \<Longrightarrow> bus_step s (wait_ends k i s)"
| expire: "k < length (pm_calls s) \<Longrightarrow> pm_calls s ! k = Expired i \<Longrightarrow> bus_step s (drop_promise k i s)"
| answer: "i \<noteq> 0 \<Longrightarrow> v = BUS_OK \<or> v = H9BUS_ERROR \<Longrightarrow> bus_step s (settle i v s)"

inductive_cases bus_stepE: "bus_step s t"

lemma bus_recv_step: "bus_recv X obs m s = Inr (ns, t) \<Longrightarrow> t = s \<or> bus_step s t"
  by (auto simp: bus_recv_def rbind_Inr_iff intro: bus_step.answer split: if_splits)

subsection \<open>The table of promises\<close>

definition call_number :: "nat \<Rightarrow> u64" where
  "call_number k = of_nat (k + 3)"

lemma of_nat_u64: "n < 2 ^ 64 \<Longrightarrow> unat (of_nat n :: u64) = n"
  by (simp add: unsigned_of_nat take_bit_nat_eq_self)

lemma call_number_inj:
  assumes "j < 2 ^ 64 - 3" and "k < 2 ^ 64 - 3"
  shows "call_number j = call_number k \<longleftrightarrow> j = k"
proof -
  have "unat (call_number j) = j + 3" "unat (call_number k) = k + 3"
    unfolding call_number_def by (intro of_nat_u64; use assms in arith)+
  then show ?thesis by (metis add_right_cancel)
qed

fun in_flight :: "send_call \<Rightarrow> bool" where
  "in_flight (Registered i) = True" | "in_flight (Sent i) = True" | "in_flight (Expired i) = True"
| "in_flight (Numbered i) = False" | "in_flight (Returned i r) = False"

definition numbers_ok :: "promises \<Rightarrow> bool" where
  "numbers_ok s \<longleftrightarrow> pm_next s = of_nat (length (pm_calls s)) + 2 \<and>
     (\<forall>k < length (pm_calls s). call_id (pm_calls s ! k) = call_number k)"

definition map_ok :: "promises \<Rightarrow> bool" where
  "map_ok s \<longleftrightarrow> (\<forall>i k. pm_map s i = Some k \<longleftrightarrow> k < length (pm_calls s) \<and>
     in_flight (pm_calls s ! k) \<and> i = call_number k \<and> pm_value s k = None)"

definition values_ok :: "promises \<Rightarrow> bool" where
  "values_ok s \<longleftrightarrow> (\<forall>k v. pm_value s k = Some v \<longrightarrow> k < length (pm_calls s) \<and>
     (\<forall>i. pm_calls s ! k \<noteq> Numbered i) \<and> (call_number k, v) \<in> set (pm_answers s))"

definition results_ok :: "promises \<Rightarrow> bool" where
  "results_ok s \<longleftrightarrow> \<not> pm_satisfied_twice s \<and>
     (\<forall>(i, v) \<in> set (pm_answers s). v = BUS_OK \<or> v = H9BUS_ERROR) \<and>
     (\<forall>k < length (pm_calls s). \<forall>i r. pm_calls s ! k = Returned i r \<longrightarrow>
        r = NOT_CONNECTED_TO_H9BUS \<or> r = SEND_TIMEOUT \<or> pm_value s k = Some r)"

definition promises_ok :: "promises \<Rightarrow> bool" where
  \<comment> \<open>up to the wrap-around of the message numbers\<close>
  "promises_ok s \<longleftrightarrow> (length (pm_calls s) < 2 ^ 64 - 3 \<longrightarrow>
     numbers_ok s \<and> map_ok s \<and> values_ok s \<and> results_ok s)"

lemmas promise_ops = number_call_def register_promise_def send_done_def wait_ends_def
  drop_promise_def settle_def

lemma numbers_ok_id: "numbers_ok s \<Longrightarrow> k < length (pm_calls s) \<Longrightarrow> call_number k = call_id (pm_calls s ! k)"
  by (simp add: numbers_ok_def)

lemma numbers_ok_step:
  assumes "bus_step s t" and "numbers_ok s" and "length (pm_calls t) < 2 ^ 64 - 3"
  shows "numbers_ok t"
  using assms(1)
proof cases
  case number
  let ?n = "length (pm_calls s)"
  have n: "?n + 2 < 2 ^ 64" using assms(3) number by (simp add: number_call_def Let_def)
  have "unat (pm_next s) = ?n + 2"
    using of_nat_u64 [OF n] assms(2) by (simp add: numbers_ok_def add.commute)
  then have "pm_next s \<noteq> 0" by auto
  moreover have "pm_next s + 1 = call_number ?n" "call_number ?n = of_nat (Suc ?n) + 2"
    using assms(2) by (simp_all add: numbers_ok_def call_number_def)
  ultimately show ?thesis
    using assms(2) number by (auto simp: numbers_ok_def number_call_def Let_def nth_append less_Suc_eq)
qed (use assms(2) in \<open>auto simp: numbers_ok_def promise_ops Let_def nth_list_update split: if_splits option.splits\<close>)
lemma map_okI:
  assumes "\<And>j m. pm_map s j = Some m \<longleftrightarrow> m < length (pm_calls s) \<and> in_flight (pm_calls s ! m) \<and>
    j = call_number m \<and> pm_value s m = None"
  shows "map_ok s"
  using assms by (simp add: map_ok_def)

lemma map_okD:
  "map_ok s \<Longrightarrow> pm_map s j = Some m \<longleftrightarrow> m < length (pm_calls s) \<and> in_flight (pm_calls s ! m) \<and>
    j = call_number m \<and> pm_value s m = None"
  by (simp add: map_ok_def)

lemma map_ok_update:
  assumes m: "map_ok s" and k: "k < length (pm_calls s)" and i: "i = call_number k"
    and inj: "\<forall>j < length (pm_calls s). call_number j = call_number k \<longrightarrow> j = k"
    and t: "pm_calls t = (pm_calls s)[k := c]" "pm_value t = pm_value s"
      "\<forall>j. j \<noteq> i \<longrightarrow> pm_map t j = pm_map s j"
      "pm_map t i = (if in_flight c \<and> pm_value s k = None then Some k else None)"
  shows "map_ok t"
proof (rule map_okI)
  fix j n
  show "pm_map t j = Some n \<longleftrightarrow> n < length (pm_calls t) \<and> in_flight (pm_calls t ! n) \<and>
      j = call_number n \<and> pm_value t n = None"
  proof (cases "j = i")
    case True
    show ?thesis
    proof (cases "n = k")
      case True
      then show ?thesis using \<open>j = i\<close> k i t by simp
    next
      case False
      then have "\<not> (n < length (pm_calls s) \<and> i = call_number n)" using inj i by metis
      then show ?thesis using \<open>j = i\<close> \<open>n \<noteq> k\<close> t(1,4) by auto
    qed
  next
    case False
    then have "pm_map t j = pm_map s j" "\<not> (j = call_number k)" using t(3) i by auto
    then show ?thesis using k t(1,2) map_okD [OF m, of j n] by (cases "n = k") simp_all
  qed
qed

lemma map_ok_at:
  assumes "map_ok s" and "k < length (pm_calls s)" and "in_flight (pm_calls s ! k)"
    and "\<forall>j < length (pm_calls s). call_number j = call_number k \<longrightarrow> j = k"
  shows "pm_map s (call_number k) = (if pm_value s k = None then Some k else None)"
proof (cases "pm_map s (call_number k)")
  case None
  then show ?thesis using map_okD [OF assms(1), of "call_number k" k] assms(2,3) by simp
next
  case (Some n)
  then have "n < length (pm_calls s)" "call_number n = call_number k" "pm_value s n = None"
    using map_okD [OF assms(1), of "call_number k" n] by simp_all
  moreover then have "n = k" using assms(4) by metis
  ultimately show ?thesis using Some by simp
qed

lemma map_ok_step:
  assumes "bus_step s t" and "numbers_ok s" and "map_ok s" and "values_ok s"
    and small: "length (pm_calls t) < 2 ^ 64 - 3"
  shows "map_ok t"
proof -
  have inj: "\<forall>j < length (pm_calls t). call_number j = call_number k \<longrightarrow> j = k"
    if "k < length (pm_calls t)" for k
    using small that by (metis call_number_inj less_trans)
  have none: "pm_value s (length (pm_calls s)) = None"
    using assms(4) by (cases "pm_value s (length (pm_calls s))") (auto simp: values_ok_def)
  have unset: "pm_value s k = None" if "k < length (pm_calls s)" "pm_calls s ! k = Numbered i" for k i
    using assms(4) that by (cases "pm_value s k") (auto simp: values_ok_def)
  show ?thesis
    using assms(1)
  proof cases
    case number
    then show ?thesis
      using assms(3) none
      by (auto simp: map_ok_def number_call_def Let_def nth_append less_Suc_eq)
  next
    case (register k i)
    then have i: "i = call_number k" using numbers_ok_id [OF assms(2)] by simp
    have j: "\<forall>j < length (pm_calls s). call_number j = call_number k \<longrightarrow> j = k"
      using inj [of k] register by (simp add: register_promise_def)
    show ?thesis
      by (rule map_ok_update [OF assms(3) register(2) i j, where c = "Registered i"])
         (use register unset [of k i] in \<open>auto simp: register_promise_def\<close>)
  next
    case (send k i ok)
    then have i: "i = call_number k" using numbers_ok_id [OF assms(2)] by simp
    have j: "\<forall>j < length (pm_calls s). call_number j = call_number k \<longrightarrow> j = k"
      using inj [of k] send by (simp add: send_done_def split: if_splits)
    show ?thesis
      by (rule map_ok_update [OF assms(3) send(2) i j, where c = "if ok then Sent i else Returned i NOT_CONNECTED_TO_H9BUS"])
         (use send map_ok_at [OF assms(3) send(2) _ j] i in \<open>auto simp: send_done_def\<close>)
  next
    case (wait k i)
    then show ?thesis
      using assms(3) by (auto simp: map_ok_def wait_ends_def nth_list_update split: option.splits)
  next
    case (expire k i)
    then have i: "i = call_number k" using numbers_ok_id [OF assms(2)] by simp
    have j: "\<forall>j < length (pm_calls s). call_number j = call_number k \<longrightarrow> j = k"
      using inj [of k] expire by (simp add: drop_promise_def)
    show ?thesis
      by (rule map_ok_update [OF assms(3) expire(2) i j, where c = "Returned i SEND_TIMEOUT"])
         (use expire in \<open>auto simp: drop_promise_def\<close>)
  next
    case (answer i v)
    show ?thesis
    proof (cases "pm_map s i")
      case None
      then show ?thesis using assms(3) answer(1) by (simp add: map_ok_def settle_def)
    next
      case (Some k)
      then have k: "k < length (pm_calls s)" "i = call_number k"
        using map_okD [OF assms(3), of i k] by simp_all
      have j: "\<forall>j < length (pm_calls s). call_number j = call_number k \<longrightarrow> j = k"
        using inj [of k] k(1) answer(1) Some by (simp add: settle_def)
      show ?thesis
      proof (rule map_okI)
        fix l n
        have "\<not> (n < length (pm_calls s) \<and> n \<noteq> k \<and> i = call_number n)" using j k by metis
        then show "pm_map t l = Some n \<longleftrightarrow> n < length (pm_calls t) \<and> in_flight (pm_calls t ! n) \<and>
            l = call_number n \<and> pm_value t n = None"
          using map_okD [OF assms(3), of l n] answer(1) Some k(2)
          by (cases "l = i"; cases "n = k") (simp_all add: settle_def)
      qed
    qed
  qed
qed

lemma values_ok_step:
  assumes "bus_step s t" and "map_ok s" and "values_ok s"
  shows "values_ok t"
  using assms(1)
proof cases
  case (answer i v)
  have "in_flight c \<Longrightarrow> c \<noteq> Numbered j" for c j by (cases c) auto
  then show ?thesis
    using answer assms(2,3)
    by (fastforce simp: values_ok_def map_ok_def settle_def Let_def split: option.splits if_splits)
qed (use assms(3) in \<open>auto simp: values_ok_def promise_ops Let_def nth_list_update nth_append less_SucI
       split: if_splits option.splits\<close>)

lemma results_ok_step:
  assumes "bus_step s t" and "map_ok s" and "values_ok s" and "results_ok s"
  shows "results_ok t"
  using assms(1)
proof cases
  case (answer i v)
  have "\<not> in_flight (Returned j r)" for j r by simp
  then show ?thesis
    using answer assms(2,4)
    by (fastforce simp: results_ok_def map_ok_def settle_def Let_def split: option.splits if_splits)
qed (use assms(4) in \<open>auto simp: results_ok_def promise_ops Let_def nth_list_update nth_append less_Suc_eq
       split: if_splits option.splits\<close>)

lemma bus_step_calls: "bus_step s t \<Longrightarrow> length (pm_calls s) \<le> length (pm_calls t)"
  by (erule bus_stepE) (auto simp: promise_ops Let_def split: option.splits)

interpretation bus: step_system "\<lambda>s. s = bus_connected" bus_step promises_ok
proof
  show "s = bus_connected \<Longrightarrow> promises_ok s" for s
    by (simp add: promises_ok_def numbers_ok_def map_ok_def values_ok_def results_ok_def bus_connected_def)
  show "promises_ok s \<Longrightarrow> bus_step s t \<Longrightarrow> promises_ok t" for s t
    using bus_step_calls [of s t] numbers_ok_step [of s t] map_ok_step [of s t]
      values_ok_step [of s t] results_ok_step [of s t]
    unfolding promises_ok_def by (meson le_less_trans)
qed

subsection \<open>Lemmas on requests and sequence numbers\<close>

definition request_ok :: "nat \<Rightarrow> u16 \<Rightarrow> u16 \<Rightarrow> bool" where
  \<comment> \<open>what the checks of a request let through\<close>
  "request_ok lo src dst \<longleftrightarrow> 1 \<le> unat src \<and> unat src < 511 \<and> lo \<le> unat dst \<and> unat dst \<le> 511"

lemma ucast_9: "unat (w :: u16) \<le> 511 \<Longrightarrow> unat (ucast w :: 9 word) = unat w"
  by (simp add: unsigned_ucast_eq take_bit_word_eq_self take_bit_nat_eq_self)

lemma put_source_Inr: "put_source src f = Inr g \<longleftrightarrow>
    1 \<le> unat src \<and> unat src < 511 \<and> g = f\<lparr>source_id := ucast src\<rparr>"
  by (auto simp: put_source_def BROADCAST_ID_def)

lemma put_destination_Inr: "put_destination lo dst f = Inr g \<longleftrightarrow>
    lo \<le> unat dst \<and> unat dst \<le> 511 \<and> g = f\<lparr>destination_id := ucast dst\<rparr>"
  by (auto simp: put_destination_def BROADCAST_ID_def)

lemma qbind_Inr: "qbind r g = Inr f \<longleftrightarrow> (\<exists>h. r = Inr h \<and> g h = Inr f)"
  by (cases r) simp_all

lemma take_seqnums_eq:
  "unat n < length t \<Longrightarrow> \<exists>t'. take_seqnums n k t = Inr (map (\<lambda>i. (t ! unat n + of_nat i) AND 31) [0..<k], t')"
proof (induction k arbitrary: t)
  case 0
  then show ?case by simp
next
  case (Suc k)
  let ?t1 = "t[unat n := t ! unat n + 1]"
  have "map (\<lambda>i. (t ! unat n + of_nat i) AND 31) [0..<Suc k]
      = (t ! unat n AND 31) # map (\<lambda>i. (?t1 ! unat n + of_nat i) AND 31) [0..<k]"
    using Suc.prems by (simp add: upt_conv_Cons map_Suc_upt [symmetric] add.assoc comp_def del: upt_Suc)
  moreover obtain t2 where "take_seqnums n k ?t1
      = Inr (map (\<lambda>i. (?t1 ! unat n + of_nat i) AND 31) [0..<k], t2)"
    using Suc.IH [of ?t1] Suc.prems by auto
  ultimately show ?case using Suc.prems by (simp add: get_next_seqnum_def)
qed
lemma seqnum_value: "unat ((x + of_nat i) AND 31 :: u8) = (unat x + i) mod 32"
proof -
  have "(x + of_nat i) AND 31 = take_bit 5 (x + of_nat i :: u8)"
    by (simp add: take_bit_eq_mask mask_eq_exp_minus_1)
  moreover have "unat (take_bit 5 (x + of_nat i :: u8)) = (unat x + i) mod 32"
    by (simp add: unsigned_take_bit_eq unat_word_ariths unsigned_of_nat take_bit_eq_mod mod_mod_cancel mod_add_right_eq)
  ultimately show ?thesis by simp
qed

lemma mod_32_inj: "i < 32 \<Longrightarrow> j < 32 \<Longrightarrow> (a + i) mod 32 = (a + j) mod (32 :: nat) \<longleftrightarrow> i = j"
proof (induction i j rule: linorder_wlog)
  case (le i j)
  then show ?case
    using mod_eq_dvd_iff_nat [of "a + i" "a + j" 32] by (auto dest: dvd_imp_le)
next
  case (sym i j)
  then show ?case by metis
qed

lemma take_two: "take 2 ((replicate 8 x)[0 := a, Suc 0 := b]) = [a, b]"
  "take (Suc 0) ((replicate 8 x)[0 := a]) = [a]"
  by (simp_all add: numeral_eq_Suc)

definition carries :: "priority \<Rightarrow> u8 \<Rightarrow> u8 \<Rightarrow> u16 \<Rightarrow> nat \<Rightarrow> u8 list \<Rightarrow> h9frame \<Rightarrow> bool" where
  \<comment> \<open>a frame with exactly these contents, which every transport can carry\<close>
  "carries pr ty sq src dst bs f \<longleftrightarrow> valid_frame f \<and> priority f = pr \<and> ftype f = ty \<and>
     unat (seqnum f) = unat sq mod 32 \<and> unat (source_id f) = unat src \<and>
     unat (destination_id f) = dst \<and> frame_bytes f = Inr bs"

lemma unat_ucast_5: "unat (ucast (w :: u8) :: 5 word) = unat w mod 32"
  by (simp add: unsigned_ucast_eq unsigned_take_bit_eq take_bit_eq_mod)

lemma unat_ucast_9: "unat (ucast (w :: u16) :: 9 word) = unat w mod 512"
  by (simp add: unsigned_ucast_eq unsigned_take_bit_eq take_bit_eq_mod)

subsection \<open>Properties\<close>

text \<open>
  What a request puts on the bus: a request is refused with a negative code exactly when the
  source, the destination or the size is outside the range of its check, and otherwise the frame
  has the type, priority, addresses and bytes asked for, the sequence number modulo 32, and is a
  frame every transport can carry. The discovery request does not check its destination.
\<close>

theorem requests_exact:
  "(case set_reg_request pr sq src dst reg bs of
      Inr f \<Rightarrow> request_ok 0 src dst \<and> length bs \<le> 7 \<and> carries pr SET_REG sq src (unat dst) (reg # bs) f
    | Inl e \<Rightarrow> e < 0 \<and> \<not> (request_ok 0 src dst \<and> length bs \<le> 7)) \<and>
   (case get_reg_request pr sq src dst reg of
      Inr f \<Rightarrow> request_ok 0 src dst \<and> carries pr GET_REG sq src (unat dst) [reg] f
    | Inl e \<Rightarrow> e < 0 \<and> \<not> request_ok 0 src dst) \<and>
   (case set_bit_request pr sq src dst reg bt of
      Inr f \<Rightarrow> request_ok 1 src dst \<and> carries pr SET_BIT sq src (unat dst) [reg, word_of_int bt] f
    | Inl e \<Rightarrow> e < 0 \<and> \<not> request_ok 1 src dst) \<and>
   (case clear_bit_request pr sq src dst reg bt of
      Inr f \<Rightarrow> request_ok 1 src dst \<and> carries pr CLEAR_BIT sq src (unat dst) [reg, word_of_int bt] f
    | Inl e \<Rightarrow> e < 0 \<and> \<not> request_ok 1 src dst) \<and>
   (case toggle_bit_request pr sq src dst reg bt of
      Inr f \<Rightarrow> request_ok 1 src dst \<and> carries pr TOGGLE_BIT sq src (unat dst) [reg, word_of_int bt] f
    | Inl e \<Rightarrow> e < 0 \<and> \<not> request_ok 1 src dst) \<and>
   (case node_upgrade_request pr sq src dst of
      Inr f \<Rightarrow> request_ok 1 src dst \<and> carries pr NODE_UPGRADE sq src (unat dst) [] f
    | Inl e \<Rightarrow> e < 0 \<and> \<not> request_ok 1 src dst) \<and>
   (case node_reset_request pr sq src dst of
      Inr f \<Rightarrow> request_ok 0 src dst \<and> carries pr NODE_RESET sq src (unat dst) [] f
    | Inl e \<Rightarrow> e < 0 \<and> \<not> request_ok 0 src dst) \<and>
   (case node_discover_request pr sq src dst of
      Inr f \<Rightarrow> 1 \<le> unat src \<and> unat src < 511 \<and> carries pr DISCOVER sq src (unat dst mod 512) [] f
    | Inl e \<Rightarrow> e < 0 \<and> \<not> (1 \<le> unat src \<and> unat src < 511))"
proof (intro conjI)
  show "case set_reg_request pr sq src dst reg bs of
      Inr f \<Rightarrow> request_ok 0 src dst \<and> length bs \<le> 7 \<and> carries pr SET_REG sq src (unat dst) (reg # bs) f
    | Inl e \<Rightarrow> e < 0 \<and> \<not> (request_ok 0 src dst \<and> length bs \<le> 7)"
  proof (cases "length bs \<le> 7")
    case True
    then have "unat (of_nat (length bs) + 1 :: u8) = length bs + 1"
      by (simp add: unat_word_ariths unsigned_of_nat take_bit_nat_eq_self)
    then show ?thesis
      using True
      by (auto simp: request_defs qbind_def request_ok_def carries_def bus_codes BROADCAST_ID_def valid_frame_def
          wf_frame_def new_frame_def unat_ucast_5 unat_ucast_9 frame_bytes_def)
  qed (auto simp: request_defs qbind_def request_ok_def bus_codes BROADCAST_ID_def)
qed (auto simp: request_defs qbind_def request_ok_def carries_def bus_codes BROADCAST_ID_def valid_frame_def
    wf_frame_def new_frame_def unat_ucast_5 unat_ucast_9 frame_bytes_def take_two)

text \<open>
  Sequence numbers: for a node the table knows, any 32 successive requests carry different
  numbers below 32 and the next one repeats the first, whatever was sent before; a node number
  of 512 or more reads outside the table.
\<close>

theorem seqnums_cycle:
  assumes "length t = 512"
  shows "if unat n < 512
    then \<exists>qs t'. take_seqnums n 33 t = Inr (qs, t') \<and> distinct (take 32 qs) \<and> qs ! 32 = qs ! 0
      \<and> length qs = 33 \<and> list_all (\<lambda>q. q < 32) qs
    else get_next_seqnum n t = Inl Undefined_behaviour"
proof (cases "unat n < 512")
  case True
  let ?q = "\<lambda>i. (t ! unat n + of_nat i) AND 31"
  obtain t' where t': "take_seqnums n 33 t = Inr (map ?q [0..<33], t')"
    using take_seqnums_eq [of n t 33] True assms by auto
  have "distinct (map ?q [0..<32])"
    by (auto simp: distinct_map inj_on_def mod_32_inj dest!: arg_cong [where f = unat] simp: seqnum_value)
  moreover have "?q 32 = ?q 0"
    by (rule word_unat_eq_iff [THEN iffD2]) (simp only: seqnum_value, simp)
  moreover have "?q i < 32" for i
    by (simp add: word_less_nat_alt seqnum_value)
  ultimately show ?thesis
    using True t'
    by (auto intro!: exI [of _ "map ?q [0..<33]"] exI [of _ t'] simp: take_map list_all_iff nth_append)
qed (simp add: get_next_seqnum_def assms)


subsection \<open>Witnesses\<close>

theorem seqnums_cycle_witness:
  "\<exists>qs t'. take_seqnums 16 33 no_seqnums = Inr (qs, t') \<and> distinct (take 32 qs) \<and> qs ! 32 = qs ! 0"
  using seqnums_cycle [of no_seqnums 16] by (auto simp: no_seqnums_def)

definition sample_send :: promises where
  \<comment> \<open>one frame sent and confirmed\<close>
  "sample_send = wait_ends 0 3 (settle 3 BUS_OK (send_done 0 3 True (register_promise 0 3 (number_call bus_connected))))"

lemma sample_send_reachable: "bus_step\<^sup>*\<^sup>* bus_connected sample_send"
proof -
  let ?s1 = "number_call bus_connected"
  let ?s2 = "register_promise 0 3 ?s1"
  let ?s3 = "send_done 0 3 True ?s2"
  let ?s4 = "settle 3 BUS_OK ?s3"
  have "bus_step bus_connected ?s1" by (rule bus_step.number)
  moreover have "bus_step ?s1 ?s2"
    by (rule bus_step.register) (simp_all add: promise_ops bus_connected_def)
  moreover have "bus_step ?s2 ?s3"
    by (rule bus_step.send) (simp_all add: promise_ops bus_connected_def)
  moreover have "bus_step ?s3 ?s4" by (rule bus_step.answer) simp_all
  moreover have "bus_step ?s4 sample_send"
    unfolding sample_send_def by (rule bus_step.wait) (simp_all add: promise_ops bus_connected_def)
  ultimately show ?thesis by (meson rtranclp.rtrancl_into_rtrancl rtranclp.rtrancl_refl)
qed


end
