(* ===== verification/H9_Node.thy ===== *)
theory H9_Node
  imports H9_Bus
begin

text \<open>
  \<open>h9d/node.{h,cc}\<close>: the register protocol with one node. A call registers a promise with a
  filter for the answer, sends its request and waits; \<open>on_frame_recv\<close>, which the receiving
  thread calls for each frame of the node, settles the promises. Times are nanoseconds of the
  steady clock. The frames a call meets (with their times, up to the end of its waiting) are an
  input, the entries that other threads have in the list are part of the state.
\<close>

subsection \<open>State\<close>

type_synonym promise_list = "(comparator \<times> nat \<times> int) list"

record node =
  nd_id :: u16
  nd_list :: promise_list
  nd_futures :: "nat \<rightharpoonup> h9frame option"
    \<comment> \<open>a settled future: \<open>None\<close> when its promise was destroyed, \<open>get\<close> then throws\<close>
  nd_count :: nat

definition new_node :: "u16 \<Rightarrow> node" where
  "new_node n = \<lparr>nd_id = n, nd_list = [], nd_futures = Map.empty, nd_count = 0\<rparr>"

definition node_source :: u16 where
  \<comment> \<open>the member \<open>source_id\<close>\<close>
  "node_source = 1"

definition seconds :: "int \<Rightarrow> int" where
  "seconds n = n * 10 ^ 9"

fun promise_scan ::
  "h9frame \<Rightarrow> int \<Rightarrow> promise_list \<Rightarrow> (nat \<rightharpoonup> h9frame option) \<Rightarrow> promise_list \<times> (nat \<rightharpoonup> h9frame option)" where
  \<comment> \<open>the loop of \<open>on_frame_recv\<close>\<close>
  "promise_scan f now [] fs = ([], fs)"
| "promise_scan f now ((c, k, dl) # es) fs =
     (if frame_matches c f then promise_scan f now es (fs(k \<mapsto> Some f))
      else if dl < now then promise_scan f now es (fs(k \<mapsto> None))
      else (let (es1, fs1) = promise_scan f now es fs in ((c, k, dl) # es1, fs1)))"

definition node_on_frame_recv :: "h9frame \<Rightarrow> int \<Rightarrow> node \<Rightarrow> node" where
  "node_on_frame_recv f now n =
     (let (es, fs) = promise_scan f now (nd_list n) (nd_futures n) in n\<lparr>nd_list := es, nd_futures := fs\<rparr>)"

definition create_frame_future :: "comparator \<Rightarrow> int \<Rightarrow> int \<Rightarrow> node \<Rightarrow> nat \<times> node" where
  \<comment> \<open>with \<open>recv_timeout\<close> and the time of the call\<close>
  "create_frame_future c timeout now n =
     (nd_count n, n\<lparr>nd_list := nd_list n @ [(c, nd_count n, now + seconds (timeout + 3))],
                    nd_count := nd_count n + 1\<rparr>)"

subsection \<open>Calls\<close>

record node_env =
  ne_seqnum :: u8
    \<comment> \<open>the result of \<open>get_next_seqnum(node_id)\<close>\<close>
  ne_timeout :: int
  ne_now :: int
  ne_frames :: "(int \<times> h9frame) list"
    \<comment> \<open>what reaches \<open>on_frame_recv\<close> from the registration to the end of the waiting\<close>

definition await :: "comparator \<Rightarrow> node_env \<Rightarrow> node \<Rightarrow> h9frame option res \<times> node" where
  \<comment> \<open>from \<open>create_frame_future\<close> to \<open>future.get()\<close>; \<open>None\<close> when \<open>wait_for\<close> times out; an
      exception of \<open>get\<close> leaves a \<open>noexcept\<close> function\<close>
  "await c env n = (let (k, n1) = create_frame_future c (ne_timeout env) (ne_now env) n;
       n2 = fold (\<lambda>(t, f). node_on_frame_recv f t) (ne_frames env) n1
     in (case nd_futures n2 k of None \<Rightarrow> Inr None | Some None \<Rightarrow> Inl Terminate
         | Some (Some f) \<Rightarrow> Inr (Some f), n2))"

definition answer_comparator :: "u16 \<Rightarrow> u8 \<Rightarrow> comparator" where
  "answer_comparator nid ty = set_type ty (set_source_id nid H9FrameComparator)"

definition register_comparator :: "u16 \<Rightarrow> u8 \<Rightarrow> u8 \<Rightarrow> u8 \<Rightarrow> comparator" where
  \<comment> \<open>the filter of the register calls\<close>
  "register_comparator nid ty reg sq =
     set_seqnum sq (set_first_data_byte reg (answer_comparator nid ty))"

definition frame_word :: "h9frame \<Rightarrow> nat \<Rightarrow> u16" where
  \<comment> \<open>\<open>res.data[i] << 8 | res.data[i + 1]\<close>\<close>
  "frame_word f i = push_bit 8 (ucast (data f ! i)) OR ucast (data f ! (i + 1))"

type_synonym 'a call_result = "request \<times> 'a res \<times> node"
  \<comment> \<open>what was sent (its result is not looked at), and what the call returns\<close>

definition node_reset :: "node_env \<Rightarrow> node \<Rightarrow> int call_result" where
  \<comment> \<open>\<open>Node::reset\<close>\<close>
  "node_reset env n =
     (let (r, n1) = await (set_seqnum 0 (answer_comparator (nd_id n) NODE_TURNED_ON)) env n
      in (node_reset_request LOW (ne_seqnum env) node_source (nd_id n),
          rbind r (\<lambda>x. Inr (case x of None \<Rightarrow> -1 | Some f \<Rightarrow> 0)), n1))"

definition get_node_type :: "node_env \<Rightarrow> node \<Rightarrow> int call_result" where
  "get_node_type env n =
     (let (r, n1) = await (register_comparator (nd_id n) REG_VALUE 1 (ne_seqnum env)) env n
      in (get_reg_request LOW (ne_seqnum env) node_source (nd_id n) 1,
          rbind r (\<lambda>x. Inr (case x of None \<Rightarrow> -1
            | Some f \<Rightarrow> if ftype f = ERROR then -10 else uint (frame_word f 1))), n1))"

definition get_node_version :: "node_env \<Rightarrow> node \<Rightarrow> (u64 \<times> (u16 \<times> u16 \<times> u16) option) call_result" where
  \<comment> \<open>\<open>return -1\<close> of an unsigned function; the three numbers are left alone then\<close>
  "get_node_version env n =
     (let (r, n1) = await (register_comparator (nd_id n) REG_VALUE 2 (ne_seqnum env)) env n
      in (get_reg_request LOW (ne_seqnum env) node_source (nd_id n) 2,
          rbind r (\<lambda>x. Inr (case x of None \<Rightarrow> (- 1, None)
            | Some f \<Rightarrow> (fold (\<lambda>i v. push_bit 8 v OR ucast (data f ! i)) [1..<7] 0,
                         Some (frame_word f 1, frame_word f 3, frame_word f 5)))), n1))"

definition copied_bytes :: "nat \<Rightarrow> h9frame \<Rightarrow> u8 list res" where
  \<comment> \<open>the bytes the copy loops read; \<open>dlc - 1\<close> is compared as an unsigned number\<close>
  "copied_bytes nbyte f =
     (let k = (if dlc f = 0 then nbyte else min nbyte (unat (dlc f) - 1))
      in if k + 1 \<le> length (data f) then Inr (take k (drop 1 (data f))) else Inl Undefined_behaviour)"

definition set_raw_reg :: "u8 \<Rightarrow> u8 list \<Rightarrow> node_env \<Rightarrow> node \<Rightarrow> (int \<times> u8 list) call_result" where
  \<comment> \<open>the result and the bytes written to \<open>setted\<close>\<close>
  "set_raw_reg reg bs env n =
     (let (r, n1) = await (register_comparator (nd_id n) REG_EXTERNALLY_CHANGED reg (ne_seqnum env)) env n
      in (set_reg_request LOW (ne_seqnum env) node_source (nd_id n) reg bs,
          rbind r (\<lambda>x. case x of None \<Rightarrow> Inr (-1, [])
            | Some f \<Rightarrow> rbind (copied_bytes (length bs) f) (\<lambda>out. Inr (int (unat (dlc f)) - 1, out))), n1))"

definition be_bytes :: "nat \<Rightarrow> 'a::len word \<Rightarrow> u8 list" where
  \<comment> \<open>\<open>htons\<close> and \<open>htonl\<close>: the bytes of a value in network order\<close>
  "be_bytes k v = map (\<lambda>i. ucast (drop_bit (8 * (k - 1 - i)) v)) [0..<k]"

definition be_value :: "u8 list \<Rightarrow> nat" where
  "be_value = foldl (\<lambda>v b. v * 256 + unat b) 0"

definition set_raw_value :: "nat \<Rightarrow> u8 \<Rightarrow> 'a::len word \<Rightarrow> u8 list \<Rightarrow> node_env \<Rightarrow> node \<Rightarrow> (int \<times> nat) call_result" where
  \<comment> \<open>the overloads for 1, 2 and 4 bytes; \<open>tmp\<close> is the uninitialised local variable, whose
      remaining bytes stay in the value that is read back\<close>
  "set_raw_value k reg v tmp env n = (let (q, r, n1) = set_raw_reg reg (be_bytes k v) env n
     in (q, rbind r (\<lambda>(ret, out). Inr (ret, be_value (out @ drop (length out) tmp))), n1))"

definition set_node_id ::
  "u16 \<Rightarrow> u8 \<Rightarrow> (request \<Rightarrow> int) \<Rightarrow> node_env \<Rightarrow> node \<Rightarrow> request list \<times> int res \<times> node" where
  \<comment> \<open>\<open>sq2\<close> is the second sequence number, \<open>snt\<close> the result of the second request\<close>
  "set_node_id i sq2 snt env n = (let (q, r, n1) = set_raw_reg 4 (be_bytes 2 i) env n;
       q2 = node_reset_request LOW sq2 node_source (nd_id n)
     in case r of Inl e \<Rightarrow> ([q], Inl e, n1)
        | Inr (ret, out) \<Rightarrow> if ret \<le> 0 then ([q], Inr (-1), n1) else ([q, q2], Inr (snt q2), n1))"

definition get_raw_reg :: "u8 \<Rightarrow> nat \<Rightarrow> node_env \<Rightarrow> node \<Rightarrow> (int \<times> u8 list) call_result" where
  \<comment> \<open>the result and the bytes written to \<open>buf\<close>\<close>
  "get_raw_reg reg nbyte env n =
     (let (r, n1) = await (register_comparator (nd_id n) REG_VALUE reg (ne_seqnum env)) env n
      in (get_reg_request LOW (ne_seqnum env) node_source (nd_id n) reg,
          rbind r (\<lambda>x. case x of None \<Rightarrow> Inr (-1, [])
            | Some f \<Rightarrow> rbind (copied_bytes nbyte f) (\<lambda>out. Inr (int (length out), out))), n1))"

subsection \<open>Promises of a node\<close>

abbreviation entry_id :: "comparator \<times> nat \<times> int \<Rightarrow> nat" where
  "entry_id e \<equiv> fst (snd e)"

definition node_ok :: "node \<Rightarrow> bool" where
  \<comment> \<open>each promise is in the list or settled, once\<close>
  "node_ok n \<longleftrightarrow> distinct (map entry_id (nd_list n)) \<and>
     (\<forall>e \<in> set (nd_list n). entry_id e < nd_count n \<and> nd_futures n (entry_id e) = None) \<and>
     (\<forall>k. nd_futures n k \<noteq> None \<longrightarrow> k < nd_count n)"

inductive node_step :: "node \<Rightarrow> node \<Rightarrow> bool" where
  node_create: "node_step n (snd (create_frame_future c timeout now n))"
| node_recv: "node_step n (node_on_frame_recv f now n)"

inductive_cases node_stepE: "node_step n m"

definition keeps :: "h9frame \<Rightarrow> int \<Rightarrow> comparator \<times> nat \<times> int \<Rightarrow> bool" where
  "keeps f now e \<longleftrightarrow> \<not> frame_matches (fst e) f \<and> \<not> snd (snd e) < now"

lemma scan_list: "fst (promise_scan f now es fs) = filter (keeps f now) es"
  by (induction es arbitrary: fs) (auto simp: keeps_def case_prod_beta)

lemma scan_other: "k \<notin> entry_id ` set es \<Longrightarrow> snd (promise_scan f now es fs) k = fs k"
  by (induction es arbitrary: fs) (auto split: prod.split simp: case_prod_beta)

lemma scan_entry:
  "distinct (map entry_id es) \<Longrightarrow> (c, k, dl) \<in> set es \<Longrightarrow> snd (promise_scan f now es fs) k =
    (if frame_matches c f then Some (Some f) else if dl < now then Some None else fs k)"
  by (induction es arbitrary: fs) (auto simp: case_prod_beta scan_other image_iff)

lemma recv_list: "nd_list (node_on_frame_recv f now n) = filter (keeps f now) (nd_list n)"
  using scan_list [of f now "nd_list n" "nd_futures n"]
  by (simp add: node_on_frame_recv_def case_prod_beta)

lemma recv_futures:
  "nd_futures (node_on_frame_recv f now n) k = snd (promise_scan f now (nd_list n) (nd_futures n)) k"
  by (simp add: node_on_frame_recv_def case_prod_beta)

lemma recv_count [simp]:
  "nd_count (node_on_frame_recv f now n) = nd_count n" "nd_id (node_on_frame_recv f now n) = nd_id n"
  by (simp_all add: node_on_frame_recv_def case_prod_beta)

lemma node_ok_recv:
  assumes "node_ok n"
  shows "node_ok (node_on_frame_recv f now n)"
proof -
  have d: "distinct (map entry_id (nd_list n))" using assms by (simp add: node_ok_def)
  have "snd (promise_scan f now (nd_list n) (nd_futures n)) (entry_id e) = None"
    if e: "e \<in> set (filter (keeps f now) (nd_list n))" for e
    using e assms scan_entry [OF d, of "fst e" "entry_id e" "snd (snd e)"]
    by (auto simp: keeps_def node_ok_def)
  moreover have "k < nd_count n" if "snd (promise_scan f now (nd_list n) (nd_futures n)) k \<noteq> None" for k
  proof (cases "k \<in> entry_id ` set (nd_list n)")
    case True
    then show ?thesis using assms by (auto simp: node_ok_def)
  next
    case False
    then show ?thesis using assms that by (simp add: node_ok_def scan_other)
  qed
  ultimately show ?thesis
    using assms by (auto simp: node_ok_def recv_list recv_futures distinct_map_filter)
qed

lemma node_ok_create: "node_ok n \<Longrightarrow> node_ok (snd (create_frame_future c timeout now n))"
  by (fastforce simp: node_ok_def create_frame_future_def)

interpretation nodes: step_system "\<lambda>n. \<exists>i. n = new_node i" node_step node_ok
proof
  show "\<exists>i. n = new_node i \<Longrightarrow> node_ok n" for n by (auto simp: node_ok_def new_node_def)
  show "node_ok n \<Longrightarrow> node_step n m \<Longrightarrow> node_ok m" for n m
    by (erule node_stepE) (simp_all add: node_ok_create node_ok_recv)
qed

fun fate :: "comparator \<Rightarrow> int \<Rightarrow> (int \<times> h9frame) list \<Rightarrow> h9frame option option" where
  \<comment> \<open>what becomes of one entry: settled by the first frame that matches, destroyed by a frame
      after its deadline\<close>
  "fate c dl [] = None"
| "fate c dl ((t, f) # es) =
     (if frame_matches c f then Some (Some f) else if dl < t then Some None else fate c dl es)"

abbreviation recv_all :: "(int \<times> h9frame) list \<Rightarrow> node \<Rightarrow> node" where
  "recv_all evs \<equiv> fold (\<lambda>(t, f). node_on_frame_recv f t) evs"

lemma settled_stays:
  "k \<notin> entry_id ` set (nd_list n) \<Longrightarrow> nd_futures (recv_all evs n) k = nd_futures n k"
proof (induction evs arbitrary: n)
  case (Cons e evs)
  have "k \<notin> entry_id ` set (nd_list (node_on_frame_recv (snd e) (fst e) n))"
    using Cons.prems by (auto simp: recv_list)
  then show ?case
    using Cons by (cases e) (simp add: recv_futures scan_other)
qed simp

lemma entry_fate:
  "node_ok n \<Longrightarrow> (c, k, dl) \<in> set (nd_list n) \<Longrightarrow> nd_futures (recv_all evs n) k = fate c dl evs"
proof (induction evs arbitrary: n)
  case Nil
  then show ?case by (fastforce simp: node_ok_def)
next
  case (Cons e evs)
  obtain t f where e: "e = (t, f)" by force
  let ?m = "node_on_frame_recv f t n"
  have ok: "node_ok ?m" by (rule node_ok_recv [OF Cons.prems(1)])
  have d: "distinct (map entry_id (nd_list n))" using Cons.prems(1) by (simp add: node_ok_def)
  show ?case
  proof (cases "keeps f t (c, k, dl)")
    case True
    then have "(c, k, dl) \<in> set (nd_list ?m)" using Cons.prems(2) by (simp add: recv_list)
    then show ?thesis using Cons.IH [OF ok] True e by (simp add: keeps_def)
  next
    case False
    have "k \<notin> entry_id ` set (nd_list ?m)"
      using d False Cons.prems(2) unfolding recv_list
      by (auto simp: distinct_map inj_on_def) (metis fst_conv prod.collapse snd_conv)
    then have "nd_futures (recv_all evs ?m) k = nd_futures ?m k" by (rule settled_stays)
    then show ?thesis
      using e False scan_entry [OF d Cons.prems(2)] by (auto simp: recv_futures keeps_def)
  qed
qed

definition deadline :: "node_env \<Rightarrow> int" where
  "deadline env = ne_now env + seconds (ne_timeout env + 3)"

lemma await_fate:
  assumes "node_ok n"
  shows "fst (await c env n) = (case fate c (deadline env) (ne_frames env) of
     None \<Rightarrow> Inr None | Some None \<Rightarrow> Inl Terminate | Some (Some f) \<Rightarrow> Inr (Some f))"
proof -
  have "(c, nd_count n, deadline env) \<in> set (nd_list (snd (create_frame_future c (ne_timeout env) (ne_now env) n)))"
    by (simp add: create_frame_future_def deadline_def)
  then have "nd_futures (recv_all (ne_frames env) (snd (create_frame_future c (ne_timeout env) (ne_now env) n))) (nd_count n)
      = fate c (deadline env) (ne_frames env)"
    by (rule entry_fate [OF node_ok_create [OF assms]])
  then show ?thesis by (simp add: await_def create_frame_future_def Let_def)
qed

definition in_time :: "node_env \<Rightarrow> bool" where
  "in_time env \<longleftrightarrow> (\<forall>(t, f) \<in> set (ne_frames env). t \<le> deadline env)"

lemma fate_in_time:
  "\<forall>(t, f) \<in> set evs. t \<le> dl \<Longrightarrow> fate c dl evs = map_option Some (find (frame_matches c) (map snd evs))"
  by (induction evs) auto

lemma await_in_time:
  "node_ok n \<Longrightarrow> in_time env \<Longrightarrow>
    fst (await c env n) = Inr (find (frame_matches c) (map snd (ne_frames env)))"
  using fate_in_time [of "ne_frames env" "deadline env" c]
  by (simp add: await_fate in_time_def split: option.split)

subsection \<open>What the filters accept\<close>

definition is_answer :: "u16 \<Rightarrow> u8 \<Rightarrow> u8 \<Rightarrow> u8 \<Rightarrow> h9frame \<Rightarrow> bool" where
  \<comment> \<open>the destination is not looked at\<close>
  "is_answer nid ty reg sq f \<longleftrightarrow> ucast (source_id f) = nid \<and> ftype f = ty \<and> ucast (seqnum f) = sq \<and>
     \<not> dlc f < 1 \<and> data f ! 0 = reg"

lemma register_matches: "frame_matches (register_comparator nid ty reg sq) = is_answer nid ty reg sq"
  by (rule ext) (auto simp: frame_matches_def register_comparator_def answer_comparator_def comparator_defs
      is_answer_def)

lemma node_id_const: "node_step\<^sup>*\<^sup>* m n \<Longrightarrow> nd_id n = nd_id m"
  by (induction rule: rtranclp_induct) (auto elim!: node_stepE simp: create_frame_future_def)

lemma reachable_node:
  "node_step\<^sup>*\<^sup>* (new_node i) n \<Longrightarrow> node_ok n \<and> nd_id n = i"
  using nodes.reachable_inv [of "new_node i" n] node_id_const [of "new_node i" n]
  by (auto simp: new_node_def)

lemma copied_valid:
  "valid_frame f \<Longrightarrow> 1 \<le> dlc f \<Longrightarrow>
    copied_bytes nbyte f = Inr (take nbyte (take (unat (dlc f) - 1) (drop 1 (data f))))"
  by (auto simp: copied_bytes_def valid_frame_def wf_frame_def word_le_nat_alt min_def Let_def)

lemma find_answerD:
  assumes "find (is_answer i ty reg sq) fs = Some f" and "\<forall>g \<in> set fs. valid_frame g"
  shows "valid_frame f" and "1 \<le> dlc f"
proof -
  have "f \<in> set fs \<and> is_answer i ty reg sq f" using assms(1) by (auto simp: find_Some_iff)
  then show "valid_frame f" "1 \<le> dlc f"
    using assms(2) not_less [of "dlc f" 1] unfolding is_answer_def by blast+
qed

lemma foldl_be_value: "foldl (\<lambda>v b. v * 256 + unat b) a bs = a * 256 ^ length bs + be_value (bs :: u8 list)"
proof (induction bs arbitrary: a)
  case (Cons b bs)
  show ?case
    using Cons [of "a * 256 + unat b"] Cons [of "unat b"] by (simp add: be_value_def algebra_simps)
qed (simp add: be_value_def)

lemma be_value_Cons: "be_value (b # bs) = unat b * 256 ^ length bs + be_value bs"
  using foldl_be_value [of "unat b" bs] by (simp add: be_value_def)

lemma length_be_bytes [simp]: "length (be_bytes k v) = k"
  by (simp add: be_bytes_def)

lemma be_bytes_Suc: "be_bytes (Suc k) v = ucast (drop_bit (8 * k) v) # be_bytes k v"
  by (rule nth_equalityI) (auto simp: be_bytes_def nth_Cons' simp del: upt_Suc)

lemma be_value_bytes: "be_value (be_bytes k (v :: 'a::len word)) = unat v mod 256 ^ k"
proof (induction k)
  case 0
  then show ?case by (simp add: be_value_def be_bytes_def)
next
  case (Suc k)
  have "unat (drop_bit (8 * k) v) = drop_bit (8 * k) (unat v)"
    by (simp add: unsigned_drop_bit_eq take_bit_nat_eq_self unsigned_less)
  also have "\<dots> = unat v div 256 ^ k" by (simp add: drop_bit_eq_div power_mult)
  finally have "unat (ucast (drop_bit (8 * k) v) :: u8) = unat v div 256 ^ k mod 256"
    by (simp add: unsigned_ucast_eq unsigned_take_bit_eq take_bit_eq_mod)
  then have "be_value (be_bytes (Suc k) v) = unat v div 256 ^ k mod 256 * 256 ^ k + be_value (be_bytes k v)"
    by (simp add: be_bytes_Suc be_value_Cons)
  also have "\<dots> = unat v mod 256 ^ Suc k"
    using mod_mult2_eq [of "unat v" "256 ^ k" 256] by (simp add: Suc algebra_simps)
  finally show ?case .
qed

lemma get_raw_reg_answer:
  assumes "node_ok n" and "nd_id n = i" and "in_time env" and "\<forall>f \<in> snd ` set (ne_frames env). valid_frame f"
  shows "\<exists>n1. get_raw_reg reg nbyte env n = (get_reg_request LOW (ne_seqnum env) 1 i reg,
    Inr (case find (is_answer i REG_VALUE reg (ne_seqnum env)) (map snd (ne_frames env)) of
      None \<Rightarrow> (-1, [])
    | Some f \<Rightarrow> (let out = take nbyte (take (unat (dlc f) - 1) (drop 1 (data f))) in (int (length out), out))), n1)"
proof -
  let ?c = "register_comparator i REG_VALUE reg (ne_seqnum env)"
  let ?fs = "map snd (ne_frames env)"
  obtain r n1 where a: "await ?c env n = (r, n1)" by force
  have "r = Inr (find (is_answer i REG_VALUE reg (ne_seqnum env)) ?fs)"
    using await_in_time [OF assms(1,3), of ?c] a by (simp add: register_matches)
  moreover have "valid_frame f \<and> 1 \<le> dlc f" if "find (is_answer i REG_VALUE reg (ne_seqnum env)) ?fs = Some f" for f
    using find_answerD [OF that] assms(4) by simp
  ultimately show ?thesis
    using a assms(2)
    by (cases "find (is_answer i REG_VALUE reg (ne_seqnum env)) ?fs")
       (simp_all add: get_raw_reg_def node_source_def copied_valid Let_def)
qed

subsection \<open>Properties\<close>

text \<open>
  C22. Reading a register: if no frame arrives after the deadline of the promise, the call asks the
  node for the register and returns the data bytes of the first frame that is the node's value of
  this register with this sequence number, at most as many as the buffer holds, and -1 when there
  is none. The node may serve any number of other calls at the same time.
\<close>

theorem register_read:
  assumes "node_step\<^sup>*\<^sup>* (new_node i) n" and "in_time env" and "\<forall>f \<in> snd ` set (ne_frames env). valid_frame f"
  shows "\<exists>n1. get_raw_reg reg nbyte env n = (get_reg_request LOW (ne_seqnum env) 1 i reg,
    Inr (case find (is_answer i REG_VALUE reg (ne_seqnum env)) (map snd (ne_frames env)) of
      None \<Rightarrow> (-1, [])
    | Some f \<Rightarrow> (let out = take nbyte (take (unat (dlc f) - 1) (drop 1 (data f))) in (int (length out), out))), n1)"
  using get_raw_reg_answer [of n i env reg nbyte] reachable_node [OF assms(1)] assms(2,3) by simp

text \<open>
  Writing a register: the value goes out in network byte order, and when the node confirms with
  the bytes it was sent, the call returns their number and reads back exactly the value written,
  for every width; without a confirmation it returns -1 and the caller's value is the content of
  an uninitialised variable.
\<close>

theorem register_write:
  assumes "node_step\<^sup>*\<^sup>* (new_node i) n" and "in_time env" and "\<forall>f \<in> snd ` set (ne_frames env). valid_frame f"
    and "k \<in> {1, 2, 4}" and "LENGTH('a) = 8 * k" and "length tmp = k"
    and "find (is_answer i REG_EXTERNALLY_CHANGED reg (ne_seqnum env)) (map snd (ne_frames env)) = a"
    and "a = None \<or> a = Some f \<and> unat (dlc f) = k + 1 \<and> take k (drop 1 (data f)) = be_bytes k v"
  shows "\<exists>n1. set_raw_value k reg (v :: 'a::len word) tmp env n =
    (set_reg_request LOW (ne_seqnum env) 1 i reg (be_bytes k v),
     Inr (if a = None then (-1, be_value tmp) else (int k, unat v)), n1)"
proof -
  let ?c = "register_comparator i REG_EXTERNALLY_CHANGED reg (ne_seqnum env)"
  obtain r n1 where w: "await ?c env n = (r, n1)" by force
  have n: "node_ok n" "nd_id n = i" using reachable_node [OF assms(1)] by simp_all
  have r: "r = Inr a"
    using await_in_time [OF n(1) assms(2), of ?c] w assms(7) by (simp add: register_matches)
  have v: "be_value (be_bytes k v) = unat v"
  proof -
    have "unat v < 2 ^ (8 * k)" using assms(5) unsigned_less [of v] by metis
    then have "unat v < 256 ^ k" by (simp add: power_mult)
    then show ?thesis by (simp add: be_value_bytes)
  qed
  show ?thesis
  proof (cases a)
    case None
    then show ?thesis
      using w r n(2) by (simp add: set_raw_value_def set_raw_reg_def node_source_def)
  next
    case (Some g)
    then have g: "g = f" "unat (dlc f) = k + 1" "take k (drop 1 (data f)) = be_bytes k v"
      using assms(8) by auto
    have "valid_frame f" "1 \<le> dlc f"
      using find_answerD [of i REG_EXTERNALLY_CHANGED reg "ne_seqnum env" "map snd (ne_frames env)" f]
        assms(3,7) Some g(1) by auto
    then have "copied_bytes k f = Inr (be_bytes k v)" using copied_valid [of f k] g(2,3) by simp
    moreover have "int (unat (dlc f)) - 1 = int k" unfolding g(2) by simp
    ultimately show ?thesis
      using w r n(2) Some g(1) v assms(6)
      by (simp add: set_raw_value_def set_raw_reg_def node_source_def)
  qed
qed

text \<open>
  A late frame stops the daemon: a call whose sending took so long that a frame of the node
  arrives after the deadline of its promise finds the promise destroyed, \<open>get\<close> throws inside a
  \<open>noexcept\<close> function, and the program terminates, whatever the call waits for.
\<close>

theorem late_frame_terminates:
  assumes "node_step\<^sup>*\<^sup>* (new_node i) n" and "ne_frames env = pre @ (t, f) # post" and "deadline env < t"
    and "\<forall>g \<in> set (f # map snd pre). ftype g \<notin> {REG_VALUE, REG_EXTERNALLY_CHANGED, NODE_TURNED_ON}"
  shows "fst (snd (get_raw_reg reg nbyte env n)) = Inl Terminate \<and>
    fst (snd (set_raw_reg reg bs env n)) = Inl Terminate \<and> fst (snd (node_reset env n)) = Inl Terminate"
proof -
  have n: "node_ok n" "nd_id n = i" using reachable_node [OF assms(1)] by simp_all
  have "fate c (deadline env) (pre @ (t, f) # post) = Some None"
    if "\<forall>g \<in> set (f # map snd pre). \<not> frame_matches c g" for c
    using that assms(3) by (induction pre) auto
  then have "fst (await c env n) = Inl Terminate"
    if "\<forall>g \<in> set (f # map snd pre). \<not> frame_matches c g" for c
    using that assms(2) by (simp add: await_fate [OF n(1)])
  moreover have "\<not> frame_matches (set_seqnum 0 (answer_comparator i NODE_TURNED_ON)) g"
    if "ftype g \<noteq> NODE_TURNED_ON" for g
    using that by (simp add: frame_matches_def answer_comparator_def comparator_defs)
  ultimately show ?thesis
    using assms(4) n(2)
    by (simp add: get_raw_reg_def set_raw_reg_def node_reset_def case_prod_beta register_matches is_answer_def)
qed

subsection \<open>Witnesses\<close>

definition value_frame :: "u8 \<Rightarrow> u8 list \<Rightarrow> h9frame" where
  \<comment> \<open>an answer of node 16 about register 10\<close>
  "value_frame ty bs = (new_frame 5 1 16)\<lparr>ftype := ty, dlc := of_nat (length bs) + 1,
     data := 10 # bs @ replicate (7 - length bs) 0\<rparr>"

definition sample_node_env :: "(int \<times> h9frame) list \<Rightarrow> node_env" where
  "sample_node_env evs = \<lparr>ne_seqnum = 5, ne_timeout = 3, ne_now = 0, ne_frames = evs\<rparr>"

theorem register_read_witness:
  "\<exists>n1. get_raw_reg 10 8 (sample_node_env [(50, new_frame 0 0 16), (70, value_frame REG_VALUE [2, 7])]) (new_node 16)
    = (get_reg_request LOW 5 1 16 10, Inr (2, [2, 7]), n1)"
proof -
  let ?e = "sample_node_env [(50, new_frame 0 0 16), (70, value_frame REG_VALUE [2, 7])]"
  have t: "in_time ?e" by (simp add: in_time_def sample_node_env_def deadline_def seconds_def)
  have v: "\<forall>f \<in> snd ` set (ne_frames ?e). valid_frame f"
    by (simp add: sample_node_env_def value_frame_def valid_frame_def wf_frame_def new_frame_def)
  show ?thesis
    using register_read [OF rtranclp.rtrancl_refl t v, where i = 16 and reg = 10 and nbyte = 8]
    by (simp add: sample_node_env_def value_frame_def new_frame_def is_answer_def Let_def)
qed

theorem register_write_witness:
  "\<exists>n1. set_raw_value 2 10 (0x0107 :: u16) [0, 0] (sample_node_env [(70, value_frame REG_EXTERNALLY_CHANGED [1, 7])]) (new_node 16)
    = (set_reg_request LOW 5 1 16 10 (be_bytes 2 (0x0107 :: u16)), Inr (2, 0x0107), n1)"
proof -
  let ?e = "sample_node_env [(70, value_frame REG_EXTERNALLY_CHANGED [1, 7])]"
  have t: "in_time ?e" by (simp add: in_time_def sample_node_env_def deadline_def seconds_def)
  have v: "\<forall>f \<in> snd ` set (ne_frames ?e). valid_frame f"
    by (simp add: sample_node_env_def value_frame_def valid_frame_def wf_frame_def new_frame_def)
  have f: "find (is_answer 16 REG_EXTERNALLY_CHANGED 10 (ne_seqnum ?e)) (map snd (ne_frames ?e))
      = Some (value_frame REG_EXTERNALLY_CHANGED [1, 7])"
    by (simp add: sample_node_env_def value_frame_def new_frame_def is_answer_def)
  have b: "be_bytes 2 (0x0107 :: u16) = [1, 7]"
    by (simp add: be_bytes_def upt_rec)
  have "\<exists>n1. set_raw_value 2 10 (0x0107 :: u16) [0, 0] ?e (new_node 16)
    = (set_reg_request LOW (ne_seqnum ?e) 1 16 10 (be_bytes 2 (0x0107 :: u16)),
       Inr (if Some (value_frame REG_EXTERNALLY_CHANGED [1, 7]) = None then (-1, be_value [0, 0])
            else (int 2, unat (0x0107 :: u16))), n1)"
    by (rule register_write [OF rtranclp.rtrancl_refl t v, where f = "value_frame REG_EXTERNALLY_CHANGED [1, 7]"])
       (simp_all only: f b, simp_all add: value_frame_def)
  then show ?thesis by (simp add: sample_node_env_def)
qed

theorem late_frame_terminates_witness:
  "fst (snd (get_raw_reg 10 8 (sample_node_env [(7 * 10 ^ 9, value_frame NODE_HEARTBEAT [1])]) (new_node 16))) = Inl Terminate"
  using late_frame_terminates [of 16 "new_node 16" "sample_node_env [(7 * 10 ^ 9, value_frame NODE_HEARTBEAT [1])]" "[]"
      "7 * 10 ^ 9" "value_frame NODE_HEARTBEAT [1]" "[]", where reg = 10 and nbyte = 8]
  by (simp add: sample_node_env_def deadline_def seconds_def value_frame_def)

end
