(* ===== verification/H9_Device.thy ===== *)
theory H9_Device
  imports H9_Node
begin

text \<open>
  \<open>common/devicedescloader\<close>, \<open>h9d/device\<close>, \<open>devices/antennaswitch\<close> and \<open>h9d/devmgr\<close>: the
  descriptions of the device types, one device with its registers and the subscribers of its
  events, and the manager that follows the frames of the bus. A \<open>std::map\<close> is the list of its
  entries in the order of the keys, a \<open>std::set\<close> of client pointers the ordered list of them.
  The configuration file as libconfuse has read it and the clock are inputs.
\<close>

subsection \<open>Ordered maps\<close>

fun map_put :: "'k::linorder \<Rightarrow> 'v \<Rightarrow> ('k \<times> 'v) list \<Rightarrow> ('k \<times> 'v) list" where
  \<comment> \<open>\<open>m[k] = v\<close>\<close>
  "map_put k v [] = [(k, v)]"
| "map_put k v ((j, w) # m) =
     (if j < k then (j, w) # map_put k v m else if k < j then (k, v) # (j, w) # m else (k, v) # m)"

lemma map_of_map_put: "map_of (map_put k v m) = (map_of m)(k \<mapsto> v)"
  by (induction k v m rule: map_put.induct) auto

lemma map_put_keys: "fst ` set (map_put k v m) = insert k (fst ` set m)"
  by (induction k v m rule: map_put.induct) auto

lemma map_put_sorted: "sorted_wrt (<) (map fst m) \<Longrightarrow> sorted_wrt (<) (map fst (map_put k v m))"
proof (induction k v m rule: map_put.induct)
  case (2 k v j w m)
  have "\<forall>x \<in> fst ` set (map_put k v m). j < x" if "j < k"
    using 2(2) that by (simp add: map_put_keys)
  then show ?case using 2 by (auto dest: order.strict_trans)
qed simp

lemma sorted_keys_distinct: "sorted_wrt (<) (map fst m) \<Longrightarrow> distinct (map fst (m :: ('k::linorder \<times> 'v) list))"
  using strict_sorted_iff by blast

subsection \<open>Descriptions of device types\<close>

record register_desc =
  rg_number :: u8
  rg_name :: string
  rg_type :: string
  rg_size :: int
  rg_readable :: bool
  rg_writable :: bool
  rg_bits_names :: "string list"
  rg_description :: string

record device_desc =
  dd_name :: string
  dd_description :: string
  dd_registers :: "(u16 \<times> register_desc) list"

type_synonym device_descs = "(u16 \<times> device_desc) list"

record register_section =
  rs_title :: string
  rs_name :: "string option"
  rs_type :: "string option"
  rs_size :: int
  rs_readable :: bool
  rs_writable :: bool
  rs_bits_names :: "string list"
  rs_description :: string
    \<comment> \<open>what the file says; \<open>None\<close> where the default is \<open>nullptr\<close>\<close>

record device_section =
  ds_title :: string
  ds_name :: "string option"
  ds_description :: string
  ds_registers :: "register_section list"

definition stoul :: "string \<Rightarrow> int res" where
  "stoul s = (case strto 10 s of None \<Rightarrow> Inl Invalid_argument
     | Some v \<Rightarrow> if \<bar>v\<bar> < 2 ^ 64 then Inr (v mod 2 ^ 64) else Inl Out_of_range)"

definition to_int32 :: "int \<Rightarrow> int" where
  "to_int32 v = sint (word_of_int v :: u32)"

definition c_str :: "string option \<Rightarrow> string res" where
  \<comment> \<open>\<open>std::string(const char*)\<close>\<close>
  "c_str s = (case s of None \<Rightarrow> Inl Undefined_behaviour | Some t \<Rightarrow> Inr t)"

definition load_register :: "register_section \<Rightarrow> device_desc \<Rightarrow> device_desc res" where
  \<comment> \<open>one turn of the loop over the registers of a device\<close>
  "load_register s d = rbind (stoul (rs_title s)) (\<lambda>t. let num = to_int32 t in
     if num < 10 \<or> num > 0xff then Inr d
     else rbind (c_str (rs_name s)) (\<lambda>nm. rbind (c_str (rs_type s)) (\<lambda>ty.
       Inr (d\<lparr>dd_registers := map_put (word_of_int num)
         \<lparr>rg_number = word_of_int num, rg_name = nm, rg_type = ty, rg_size = rs_size s,
          rg_readable = rs_readable s, rg_writable = rs_writable s,
          rg_bits_names = (case map_of (dd_registers d) (word_of_int num) of
             None \<Rightarrow> [] | Some r \<Rightarrow> rg_bits_names r) @ rev (rs_bits_names s),
          rg_description = rs_description s\<rparr> (dd_registers d)\<rparr>))))"

fun fold_res :: "('a \<Rightarrow> 's \<Rightarrow> 's res) \<Rightarrow> 'a list \<Rightarrow> 's \<Rightarrow> 's res" where
  "fold_res f [] s = Inr s"
| "fold_res f (x # xs) s = rbind (f x s) (fold_res f xs)"

definition load_device :: "device_section \<Rightarrow> device_descs \<Rightarrow> device_descs res" where
  "load_device s m = rbind (stoul (ds_title s)) (\<lambda>t. let ty = word_of_int (to_int32 t);
       d = (case map_of m ty of None \<Rightarrow> \<lparr>dd_name = [], dd_description = [], dd_registers = []\<rparr> | Some d \<Rightarrow> d)
     in rbind (c_str (ds_name s)) (\<lambda>nm.
        rbind (fold_res load_register (ds_registers s)
          (d\<lparr>dd_name := nm, dd_description := ds_description s\<rparr>)) (\<lambda>d1. Inr (map_put ty d1 m))))"

definition load_file :: "device_section list \<Rightarrow> device_descs \<Rightarrow> device_descs res" where
  "load_file = fold_res load_device"

definition get_device_name_by_type :: "u16 \<Rightarrow> device_descs \<Rightarrow> string" where
  "get_device_name_by_type t m = (case map_of m t of None \<Rightarrow> [] | Some d \<Rightarrow> dd_name d)"

definition get_device_description_by_type :: "u16 \<Rightarrow> device_descs \<Rightarrow> string" where
  "get_device_description_by_type t m = (case map_of m t of None \<Rightarrow> [] | Some d \<Rightarrow> dd_description d)"

definition get_device_register_by_type :: "u16 \<Rightarrow> device_descs \<Rightarrow> (u16 \<times> register_desc) list" where
  "get_device_register_by_type t m = (case map_of m t of None \<Rightarrow> [] | Some d \<Rightarrow> dd_registers d)"

subsection \<open>Device\<close>

record 'o device =
  dv_node :: node
  dv_type :: u16
  dv_version :: u64
  dv_name :: string
  dv_description :: string
  dv_created :: int
  dv_last_seen :: int
  dv_registers :: "(u8 \<times> register_desc) list"
  dv_observers :: "string \<Rightarrow> 'o list"
  dv_antenna :: bool
    \<comment> \<open>an object of the class \<open>AntennaSwitch\<close>\<close>

definition standard_registers :: "(u8 \<times> register_desc) list" where
  "standard_registers = map (\<lambda>(n, nm, ty, sz, wr). (n,
     \<lparr>rg_number = n, rg_name = nm, rg_type = ty, rg_size = sz, rg_readable = True, rg_writable = wr,
      rg_bits_names = [], rg_description = []\<rparr>))
     [(1, ''Node type'', ''uint'', 16, False), (2, ''Node version'', ''uint'', 48, False),
      (3, ''Build metadata'', ''char'', 48, False), (4, ''Node id'', ''uint'', 9, True),
      (5, ''MCU type'', ''uint'', 8, False)]"

definition new_device :: "device_descs \<Rightarrow> int \<Rightarrow> u16 \<Rightarrow> u16 \<Rightarrow> u64 \<Rightarrow> 'o device" where
  \<comment> \<open>\<open>Device::Device\<close>\<close>
  "new_device dsc now nid ty ver =
     (let known = get_device_name_by_type ty dsc \<noteq> [] in
      \<lparr>dv_node = new_node nid, dv_type = ty, dv_version = ver,
       dv_name = (if known then get_device_name_by_type ty dsc else ''unknown''),
       dv_description = (if known then get_device_description_by_type ty dsc else []),
       dv_created = now, dv_last_seen = now,
       dv_registers = fold (\<lambda>(k, r). map_put (ucast k) r) (get_device_register_by_type ty dsc) standard_registers,
       dv_observers = (\<lambda>_. []), dv_antenna = False\<rparr>)"

definition new_antenna_switch :: "device_descs \<Rightarrow> int \<Rightarrow> u16 \<Rightarrow> u16 \<Rightarrow> 'o device" where
  "new_antenna_switch dsc now nid ver = (new_device dsc now nid 5 (ucast ver))\<lparr>dv_antenna := True\<rparr>"

definition build_device :: "device_descs \<Rightarrow> int \<Rightarrow> u16 \<Rightarrow> u16 \<Rightarrow> u64 \<Rightarrow> 'o device" where
  \<comment> \<open>the version is cut to the sixteen bits of the parameter of \<open>AntennaSwitch\<close>\<close>
  "build_device dsc now nid ty ver = (if ty = 5 then new_antenna_switch dsc now nid (ucast ver)
     else new_device dsc now nid ty ver)"

definition get_events_list :: "'o device \<Rightarrow> string list" where
  "get_events_list d = [''register_change'']"

definition get_registers_list :: "'o device \<Rightarrow> register_desc list" where
  "get_registers_list d = map snd (dv_registers d)"

definition get_device_specific_methods :: "'o device \<Rightarrow> string list" where
  "get_device_specific_methods d = (if dv_antenna d then [''select_antenna'', ''get_selected_antenna''] else [])"

definition version_major :: "'o device \<Rightarrow> u16" where
  "version_major d = ucast (drop_bit 32 (dv_version d))"

definition version_minor :: "'o device \<Rightarrow> u16" where
  "version_minor d = ucast (drop_bit 16 (dv_version d))"

definition version_patch :: "'o device \<Rightarrow> u16" where
  "version_patch d = ucast (dv_version d)"

definition device_attach :: "string \<Rightarrow> 'o::linorder \<Rightarrow> 'o device \<Rightarrow> 'o device" where
  \<comment> \<open>\<open>Device::attach_event_observer\<close>\<close>
  "device_attach ev ob d = d\<lparr>dv_observers := (dv_observers d)(ev := insort_insert ob (dv_observers d ev))\<rparr>"

definition device_detach :: "string \<Rightarrow> 'o::linorder \<Rightarrow> 'o device \<Rightarrow> 'o device" where
  \<comment> \<open>\<open>Device::detach_event_observer\<close>\<close>
  "device_detach ev ob d = d\<lparr>dv_observers := (dv_observers d)(ev := removeAll ob (dv_observers d ev))\<rparr>"

definition device_notify :: "string \<Rightarrow> 'n gmsg \<Rightarrow> 'o device \<Rightarrow> ('o \<times> 'n gmsg) list" where
  \<comment> \<open>\<open>notify_event_observer\<close>: the calls of \<open>send_msg\<close>, whose errors are caught\<close>
  "device_notify ev m d = map (\<lambda>ob. (ob, m)) (dv_observers d ev)"

definition register_change_event :: "'n libxml \<Rightarrow> u16 \<Rightarrow> h9frame \<Rightarrow> u8 list \<Rightarrow> 'n gmsg" where
  "register_change_event X nid f bs =
     add_value X ''value'' (dec_string (unat (fold (\<lambda>b v. push_bit 8 v OR ucast b) bs (0 :: u64))))
       (add_value X ''value_len'' (int_string (int (unat (dlc f)) - 1))
         (add_value X ''register_id'' (dec_string (unat (data f ! 0)))
           (device_event X nid ''register_change'')))"

definition update_device_state ::
  "'n libxml \<Rightarrow> int \<Rightarrow> h9frame \<Rightarrow> 'o device \<Rightarrow> (('o \<times> 'n gmsg) list \<times> 'o device) res" where
  "update_device_state X now f d = (let d1 = d\<lparr>dv_last_seen := now\<rparr> in
     if ftype f = REG_EXTERNALLY_CHANGED \<or> ftype f = REG_INTERNALLY_CHANGED \<or> ftype f = REG_VALUE_BROADCAST
     then rbind (frame_bytes f) (\<lambda>bs. Inr (device_notify ''register_change''
       (register_change_event X (nd_id (dv_node d)) f (drop 1 bs)) d1, d1))
     else Inr ([], d1))"

definition on_node :: "(node \<Rightarrow> 'r \<times> 'a res \<times> node) \<Rightarrow> 'o device \<Rightarrow> 'r \<times> 'a res \<times> 'o device" where
  \<comment> \<open>a call of a member of the base class \<open>Node\<close>\<close>
  "on_node g d = (let (q, r, n) = g (dv_node d) in (q, r, d\<lparr>dv_node := n\<rparr>))"

definition get_register_str :: "u8 \<Rightarrow> node_env \<Rightarrow> 'o device \<Rightarrow> request \<times> (int \<times> string) res \<times> 'o device" where
  \<comment> \<open>\<open>get_register(reg, std::string&)\<close>: the terminator goes to \<open>tmp[ret]\<close> of eight bytes, and the
      string ends at its first zero byte\<close>
  "get_register_str reg env d = (let (q, r, d1) = on_node (get_raw_reg reg 8 env) d in
     (q, rbind r (\<lambda>(ret, out). if ret > 0 then
        (if ret < 8 then Inr (ret, map (char_of \<circ> unat) (takeWhile (\<lambda>b. b \<noteq> 0) out)) else Inl Undefined_behaviour)
      else Inr (-1, [])), d1))"

definition get_register_int :: "u8 \<Rightarrow> node_env \<Rightarrow> 'o device \<Rightarrow> request \<times> (int \<times> i64 option) res \<times> 'o device" where
  \<comment> \<open>\<open>get_register(reg, std::int64_t&)\<close>; without an answer the variable keeps its value\<close>
  "get_register_int reg env d = (let (q, r, d1) = on_node (get_raw_reg reg 8 env) d in
     (q, rbind r (\<lambda>(ret, out). Inr (if ret > 0 then (ret, Some (fold (\<lambda>b v. push_bit 8 v OR ucast b) out 0))
        else (-1, None))), d1))"

definition set_register_str :: "u8 \<Rightarrow> string \<Rightarrow> node_env \<Rightarrow> 'o device \<Rightarrow> request list \<times> int res \<times> 'o device" where
  \<comment> \<open>the size of the register, in bits, bounds the number of bytes; what the node answers is not
      looked at\<close>
  "set_register_str reg s env d = (case map_of (dv_registers d) reg of
       Some rd \<Rightarrow>
         if length s < 8 then
           (let n = (if rg_size rd < 0 then length s else min (length s) (nat (rg_size rd)));
                (q, r, d1) = on_node (set_raw_reg reg (map (\<lambda>c. of_nat (of_char c)) (take n s)) env) d
            in ([q], rbind r (\<lambda>_. Inr (int n)), d1))
         else ([], Inr (-1), d)
     | None \<Rightarrow> ([], Inr (-1), d))"

definition set_register_int ::
  "u8 \<Rightarrow> i64 \<Rightarrow> u8 list \<Rightarrow> node_env \<Rightarrow> 'o device \<Rightarrow> request list \<times> (int \<times> nat option) res \<times> 'o device" where
  \<comment> \<open>the second result is what \<open>*setted\<close> gets; \<open>tmp\<close> the content of the local variable\<close>
  "set_register_int reg v tmp env d = (case map_of (dv_registers d) reg of
       None \<Rightarrow> ([], Inr (-1, None), d)
     | Some rd \<Rightarrow> (let n = (rg_size rd + 7) div 8;
           snt = (\<lambda>g. let (q, r, d1) = on_node g d in ([q], rbind r (\<lambda>(ret, w). Inr (ret, Some w)), d1))
         in if n = 1 then snt (set_raw_value 1 reg (ucast v :: u8) (take 1 tmp) env)
            else if n = 2 then snt (set_raw_value 2 reg (ucast v :: u16) (take 2 tmp) env)
            else if n > 2 then snt (set_raw_value 4 reg (ucast v :: u32) (take 4 tmp) env)
            else ([], Inr (-1, None), d)))"

datatype h9value = Int_value int | Str_value string

definition execute_device_specific_method ::
  "string \<Rightarrow> node_env \<Rightarrow> 'o device \<Rightarrow> request list \<times> h9value res \<times> 'o device" where
  \<comment> \<open>every path without a \<open>return\<close> runs into \<open>assert\<close>; \<open>H9Value(buf)\<close> takes an \<open>int\<close>\<close>
  "execute_device_specific_method name env d =
     (if dv_antenna d \<and> name = ''get_selected_antenna'' then
        (let (q, r, d1) = get_register_int 10 env d in
         ([q], rbind r (\<lambda>(ret, v). case v of
            Some w \<Rightarrow> if ret = 1 then Inr (Int_value (to_int32 (uint w))) else Inl Assertion_failed
          | None \<Rightarrow> Inl Assertion_failed), d1))
      else ([], Inl Assertion_failed, d))"

subsection \<open>Subscribers\<close>

definition subscriptions :: "'o device \<Rightarrow> (string \<times> 'o) set" where
  "subscriptions d = {(ev, ob). ob \<in> set (dv_observers d ev)}"

definition observers_ok :: "'o::linorder device \<Rightarrow> bool" where
  "observers_ok d \<longleftrightarrow> (\<forall>ev. sorted (dv_observers d ev) \<and> distinct (dv_observers d ev))"

interpretation device_events: registry device_attach device_detach subscriptions "\<lambda>_ _. True"
  by unfold_locales
     (auto simp: subscriptions_def device_attach_def device_detach_def set_insort_insert split: if_splits)

lemma observers_ok_attach: "observers_ok d \<Longrightarrow> observers_ok (device_attach ev ob d)"
  by (simp add: observers_ok_def device_attach_def sorted_insort_insert distinct_insort_insert)

lemma observers_ok_detach: "observers_ok d \<Longrightarrow> observers_ok (device_detach ev ob d)"
  by (simp add: observers_ok_def device_detach_def filter_removeAll sorted_wrt_filter)

subsection \<open>Values of several bytes\<close>

lemma fold_be_value:
  "unat w < 2 ^ (64 - 8 * length bs) \<Longrightarrow> length bs \<le> 8 \<Longrightarrow>
    unat (fold (\<lambda>b v. push_bit 8 v OR ucast b) bs (w :: u64)) = unat w * 256 ^ length bs + be_value bs"
proof (induction bs arbitrary: w)
  case Nil
  then show ?case by (simp add: be_value_def)
next
  case (Cons b bs)
  let ?w = "push_bit 8 w OR ucast b"
  have lt: "unat w * 256 + 255 < 2 ^ 64"
  proof -
    have "(2 :: nat) ^ (64 - 8 * length (b # bs)) \<le> 2 ^ 56" by (rule power_increasing) simp_all
    then show ?thesis using Cons.prems(1) by simp
  qed
  have "push_bit 8 w AND ucast b = 0"
    by (rule bit_word_eqI) (auto simp: bit_simps dest: bit_imp_le_length)
  then have "?w = w * 256 + ucast b"
    by (simp add: push_bit_eq_mult disjunctive_add_eq_or)
  moreover have "unat (ucast b :: u64) = unat b" 
    using unat_u8_less [of b] by (simp add: unsigned_ucast_eq take_bit_nat_eq_self)
  ultimately have u: "unat ?w = unat w * 256 + unat b"
    using lt unat_u8_less [of b] by (simp add: unat_word_ariths mod_mult_left_eq mod_add_left_eq)
  have "2 ^ (64 - 8 * length bs) = (256 :: nat) * 2 ^ (64 - 8 * length (b # bs))"
  proof -
    have "64 - 8 * length bs = 8 + (64 - 8 * length (b # bs))" using Cons.prems(2) by simp
    then show ?thesis by (simp only: power_add) simp
  qed
  then have "unat ?w < 2 ^ (64 - 8 * length bs)"
    using u Cons.prems(1) unat_u8_less [of b] by simp
  then have "unat (fold (\<lambda>b v. push_bit 8 v OR ucast b) bs ?w) = unat ?w * 256 ^ length bs + be_value bs"
    using Cons.IH Cons.prems(2) by simp
  then show ?case by (simp add: u be_value_Cons algebra_simps)
qed

end
