(* ===== verification/H9_DevMgr.thy ===== *)
theory H9_DevMgr
  imports H9_Device
begin

text \<open>
  \<open>h9d/devmgr.{h,cc}\<close>: the queue of received frames, the thread that works on it, and the
  directory of devices. Each operation runs under the lock of the directory and is one step.
  What the thread causes (events for clients, discovery requests) is recorded in order.
\<close>

subsection \<open>Frames\<close>

record 'o devmgr =
  dm_devices :: "(u16 \<times> 'o device) list"
  dm_queue :: "h9frame list"
  dm_seqnums :: seqnums

datatype ('o, 'n) dm_output = Event 'o "'n gmsg" | Discovery request

definition new_devmgr :: "'o devmgr" where
  "new_devmgr = \<lparr>dm_devices = [], dm_queue = [], dm_seqnums = no_seqnums\<rparr>"

definition devmgr_on_frame_recv :: "h9frame \<Rightarrow> 'o devmgr \<Rightarrow> 'o devmgr" where
  "devmgr_on_frame_recv f m = m\<lparr>dm_queue := dm_queue m @ [f]\<rparr>"

definition add_device :: "device_descs \<Rightarrow> int \<Rightarrow> u16 \<Rightarrow> u16 \<Rightarrow> u64 \<Rightarrow> 'o devmgr \<Rightarrow> 'o devmgr" where
  "add_device dsc now nid ty ver m =
     (let put = (\<lambda>d. m\<lparr>dm_devices := map_put nid d (dm_devices m)\<rparr>) in
      case map_of (dm_devices m) nid of
        Some d \<Rightarrow> if dv_type d \<noteq> ty \<or> dv_version d \<noteq> ver then put (build_device dsc now nid ty ver)
                  else put (d\<lparr>dv_last_seen := now\<rparr>)
      | None \<Rightarrow> put (build_device dsc now nid ty ver))"

definition info_version :: "h9frame \<Rightarrow> u64" where
  "info_version f = push_bit 16 (push_bit 16 (ucast (frame_word f 2)) OR ucast (frame_word f 4))
     OR ucast (frame_word f 6)"

definition handle_frame ::
  "device_descs \<Rightarrow> 'n libxml \<Rightarrow> int \<Rightarrow> h9frame \<Rightarrow> 'o devmgr \<Rightarrow> (('o, 'n) dm_output list \<times> 'o devmgr) res" where
  \<comment> \<open>the body of the loop of \<open>devices_update_thread\<close>\<close>
  "handle_frame dsc X now f m = (let src = ucast (source_id f) in
     if ftype f = NODE_INFO then Inr ([], add_device dsc now src (frame_word f 0) (info_version f) m)
     else if ftype f = NODE_TURNED_ON then Inr ([], add_device dsc now src (frame_word f 0) (info_version f) m)
     else if ftype f \<ge> REG_EXTERNALLY_CHANGED then
       (case map_of (dm_devices m) src of
          Some d \<Rightarrow> rbind (update_device_state X now f d) (\<lambda>(es, d1).
            Inr (map (\<lambda>(ob, e). Event ob e) es, m\<lparr>dm_devices := map_put src d1 (dm_devices m)\<rparr>))
        | None \<Rightarrow> rbind (get_next_seqnum 1 (dm_seqnums m)) (\<lambda>(sq, t).
            Inr ([Discovery (node_discover_request LOW sq 1 src)], m\<lparr>dm_seqnums := t\<rparr>)))
     else Inr ([], m))"

definition devices_update ::
  "device_descs \<Rightarrow> 'n libxml \<Rightarrow> int \<Rightarrow> 'o devmgr \<Rightarrow> (('o, 'n) dm_output list \<times> 'o devmgr) res option" where
  \<comment> \<open>one turn of the thread; \<open>None\<close> while it waits for a frame\<close>
  "devices_update dsc X now m = (case dm_queue m of [] \<Rightarrow> None
     | f # q \<Rightarrow> Some (handle_frame dsc X now f (m\<lparr>dm_queue := q\<rparr>)))"

definition discover :: "'o devmgr \<Rightarrow> (request \<times> int \<times> 'o devmgr) res" where
  "discover m = rbind (get_next_seqnum 1 (dm_seqnums m)) (\<lambda>(sq, t).
     Inr (node_discover_request LOW sq 1 (of_nat BROADCAST_ID), 0, m\<lparr>dm_seqnums := t\<rparr>))"

subsection \<open>Directory\<close>

definition active_devices_count :: "'o devmgr \<Rightarrow> nat" where
  "active_devices_count m = length (dm_devices m)"

definition is_device_exist :: "u16 \<Rightarrow> 'o devmgr \<Rightarrow> bool" where
  "is_device_exist i m \<longleftrightarrow> map_of (dm_devices m) i \<noteq> None"

record device_dsc =
  dc_id :: u16
  dc_type :: u16
  dc_major :: u16
  dc_minor :: u16
  dc_patch :: u16
  dc_name :: string

record device_info = device_dsc +
  di_created :: int
  di_last_seen :: int
  di_description :: string

definition get_devices_list :: "'o devmgr \<Rightarrow> device_dsc list" where
  "get_devices_list m = map (\<lambda>(i, d). \<lparr>dc_id = i, dc_type = dv_type d, dc_major = version_major d,
     dc_minor = version_minor d, dc_patch = version_patch d, dc_name = dv_name d\<rparr>) (dm_devices m)"

definition with_device :: "u16 \<Rightarrow> 'a \<Rightarrow> ('o device \<Rightarrow> 'a) \<Rightarrow> 'o devmgr \<Rightarrow> 'a" where
  \<comment> \<open>the common shape of the members that ask one device\<close>
  "with_device i dflt g m = (case map_of (dm_devices m) i of None \<Rightarrow> dflt | Some d \<Rightarrow> g d)"

definition change_device :: "u16 \<Rightarrow> 'r \<Rightarrow> ('o device \<Rightarrow> 'r \<times> 'o device) \<Rightarrow> 'o devmgr \<Rightarrow> 'r \<times> 'o devmgr" where
  \<comment> \<open>the common shape of the members that change one device\<close>
  "change_device i dflt g m = (case map_of (dm_devices m) i of None \<Rightarrow> (dflt, m)
     | Some d \<Rightarrow> (let (r, d1) = g d in (r, m\<lparr>dm_devices := map_put i d1 (dm_devices m)\<rparr>)))"

definition attach_event_observer :: "'o::linorder \<Rightarrow> string \<Rightarrow> u16 \<Rightarrow> 'o devmgr \<Rightarrow> int \<times> 'o devmgr" where
  "attach_event_observer ob ev i = change_device i 0 (\<lambda>d. (0, device_attach ev ob d))"

definition detach_event_observer :: "'o::linorder \<Rightarrow> string \<Rightarrow> u16 \<Rightarrow> 'o devmgr \<Rightarrow> int \<times> 'o devmgr" where
  "detach_event_observer ob ev i = change_device i 0 (\<lambda>d. (0, device_detach ev ob d))"

definition dm_events_list :: "u16 \<Rightarrow> 'o devmgr \<Rightarrow> string list" where
  "dm_events_list i = with_device i [] get_events_list"

definition dm_specific_methods :: "u16 \<Rightarrow> 'o devmgr \<Rightarrow> string list" where
  "dm_specific_methods i = with_device i [] get_device_specific_methods"

definition dm_registers_list :: "u16 \<Rightarrow> 'o devmgr \<Rightarrow> register_desc list" where
  "dm_registers_list i = with_device i [] get_registers_list"

definition device_call ::
  "u16 \<Rightarrow> 'a res \<Rightarrow> ('o device \<Rightarrow> request list \<times> 'a res \<times> 'o device) \<Rightarrow> 'o devmgr \<Rightarrow>
   (request list \<times> 'a res) \<times> 'o devmgr" where
  "device_call i dflt g = change_device i ([], dflt) (\<lambda>d. let (q, r, d1) = g d in ((q, r), d1))"

definition dm_execute_specific_method ::
  "u16 \<Rightarrow> string \<Rightarrow> node_env \<Rightarrow> 'o devmgr \<Rightarrow> (request list \<times> h9value res) \<times> 'o devmgr" where
  "dm_execute_specific_method i name env =
     device_call i (Inl Assertion_failed) (execute_device_specific_method name env)"

definition get_device_register_str ::
  "u16 \<Rightarrow> u8 \<Rightarrow> node_env \<Rightarrow> 'o devmgr \<Rightarrow> (request list \<times> (int \<times> string) res) \<times> 'o devmgr" where
  "get_device_register_str i reg env = device_call i (Inr (-1, []))
     (\<lambda>d. let (q, r, d1) = get_register_str reg env d in ([q], r, d1))"

definition get_device_register_int ::
  "u16 \<Rightarrow> u8 \<Rightarrow> node_env \<Rightarrow> 'o devmgr \<Rightarrow> (request list \<times> (int \<times> i64 option) res) \<times> 'o devmgr" where
  "get_device_register_int i reg env = device_call i (Inr (-1, None))
     (\<lambda>d. let (q, r, d1) = get_register_int reg env d in ([q], r, d1))"

definition set_device_register_str ::
  "u16 \<Rightarrow> u8 \<Rightarrow> string \<Rightarrow> node_env \<Rightarrow> 'o devmgr \<Rightarrow> (request list \<times> int res) \<times> 'o devmgr" where
  "set_device_register_str i reg v env = device_call i (Inr (-1)) (set_register_str reg v env)"

definition set_device_register_int ::
  "u16 \<Rightarrow> u8 \<Rightarrow> i64 \<Rightarrow> u8 list \<Rightarrow> node_env \<Rightarrow> 'o devmgr \<Rightarrow> (request list \<times> (int \<times> nat option) res) \<times> 'o devmgr" where
  "set_device_register_int i reg v tmp env = device_call i (Inr (-1, None)) (set_register_int reg v tmp env)"

definition get_device_info :: "u16 \<Rightarrow> 'o devmgr \<Rightarrow> device_info option" where
  \<comment> \<open>the result is 0 with the structure filled in, or -1\<close>
  "get_device_info i = with_device i None (\<lambda>d. Some \<lparr>dc_id = i, dc_type = dv_type d, dc_major = version_major d,
     dc_minor = version_minor d, dc_patch = version_patch d, dc_name = dv_name d, di_created = dv_created d,
     di_last_seen = dv_last_seen d, di_description = dv_description d\<rparr>)"

definition device_reset :: "u16 \<Rightarrow> node_env \<Rightarrow> 'o devmgr \<Rightarrow> (request list \<times> int res) \<times> 'o devmgr" where
  "device_reset i env = device_call i (Inr (-1))
     (\<lambda>d. let (q, r, d1) = on_node (node_reset env) d in ([q], r, d1))"

subsection \<open>Subscriptions in the directory\<close>

definition directory_attach :: "u16 \<times> string \<Rightarrow> 'o::linorder \<Rightarrow> 'o devmgr \<Rightarrow> 'o devmgr" where
  "directory_attach t ob m = snd (attach_event_observer ob (snd t) (fst t) m)"

definition directory_detach :: "u16 \<times> string \<Rightarrow> 'o::linorder \<Rightarrow> 'o devmgr \<Rightarrow> 'o devmgr" where
  "directory_detach t ob m = snd (detach_event_observer ob (snd t) (fst t) m)"

definition directory_subs :: "'o devmgr \<Rightarrow> ((u16 \<times> string) \<times> 'o) set" where
  "directory_subs m = {((i, ev), ob). \<exists>d. map_of (dm_devices m) i = Some d \<and> ob \<in> set (dv_observers d ev)}"

interpretation directory_events: registry directory_attach directory_detach directory_subs
  "\<lambda>t m. map_of (dm_devices m) (fst t) \<noteq> None"
proof
  fix t and ob :: "'o::linorder" and m :: "'o devmgr"
  show "directory_subs (directory_attach t ob m) \<subseteq> insert (t, ob) (directory_subs m)"
    by (auto simp: directory_subs_def directory_attach_def attach_event_observer_def change_device_def
        device_attach_def map_of_map_put set_insort_insert split: option.splits if_splits)
  show "map_of (dm_devices m) (fst t) \<noteq> None \<Longrightarrow> directory_subs (directory_attach t ob m) = insert (t, ob) (directory_subs m)"
    by (auto simp: directory_subs_def directory_attach_def attach_event_observer_def change_device_def
        device_attach_def map_of_map_put set_insort_insert split: option.splits if_splits)
  show "directory_subs (directory_detach t ob m) = directory_subs m - {(t, ob)}"
    by (auto simp: directory_subs_def directory_detach_def detach_event_observer_def change_device_def
        device_detach_def map_of_map_put split: option.splits if_splits)
qed

subsection \<open>What the directory knows\<close>

definition announces :: "h9frame \<Rightarrow> bool" where
  "announces f \<longleftrightarrow> ftype f = NODE_INFO \<or> ftype f = NODE_TURNED_ON"

definition kept_version :: "u16 \<Rightarrow> u64 \<Rightarrow> u64" where
  \<comment> \<open>an antenna switch keeps sixteen bits of its version\<close>
  "kept_version ty ver = (if ty = 5 then take_bit 16 ver else ver)"

definition announced :: "h9frame list \<Rightarrow> u16 \<rightharpoonup> u16 \<times> u64" where
  \<comment> \<open>the abstract directory: the last announcement of each node\<close>
  "announced fs = fold (\<lambda>f t. if announces f
     then t(ucast (source_id f) \<mapsto> (frame_word f 0, kept_version (frame_word f 0) (info_version f))) else t)
     fs Map.empty"

definition directory :: "'o devmgr \<Rightarrow> u16 \<rightharpoonup> u16 \<times> u64" where
  "directory m i = map_option (\<lambda>d. (dv_type d, dv_version d)) (map_of (dm_devices m) i)"

fun handle_frames ::
  "device_descs \<Rightarrow> 'n libxml \<Rightarrow> (int \<times> h9frame) list \<Rightarrow> 'o devmgr \<Rightarrow> (('o, 'n) dm_output list \<times> 'o devmgr) res" where
  "handle_frames dsc X [] m = Inr ([], m)"
| "handle_frames dsc X ((now, f) # fs) m = rbind (handle_frame dsc X now f m) (\<lambda>(out, m1).
     rbind (handle_frames dsc X fs m1) (\<lambda>(outs, m2). Inr (out @ outs, m2)))"

definition devmgr_ok :: "'o devmgr \<Rightarrow> bool" where
  "devmgr_ok m \<longleftrightarrow> sorted_wrt (<) (map fst (dm_devices m)) \<and> length (dm_seqnums m) = 512 \<and>
     (\<forall>i d. map_of (dm_devices m) i = Some d \<longrightarrow>
        node_ok (dv_node d) \<and> nd_id (dv_node d) = i \<and> kept_version (dv_type d) (dv_version d) = dv_version d)"

lemma build_device_fields [simp]:
  "dv_type (build_device dsc now nid ty ver) = ty"
  "dv_version (build_device dsc now nid ty ver) = kept_version ty ver"
  "dv_observers (build_device dsc now nid ty ver) = (\<lambda>_. [])"
  "nd_id (dv_node (build_device dsc now nid ty ver)) = nid"
  "node_ok (dv_node (build_device dsc now nid ty ver))"
proof -
  have "ucast (ucast ver :: u16) = take_bit 16 ver" by (rule bit_word_eqI) (auto simp: bit_simps)
  then show "dv_version (build_device dsc now nid ty ver) = kept_version ty ver"
    by (simp add: build_device_def new_antenna_switch_def new_device_def kept_version_def Let_def)
qed (simp_all add: build_device_def new_antenna_switch_def new_device_def new_node_def node_ok_def Let_def)

lemma kept_version_idem [simp]: "kept_version ty (kept_version ty ver) = kept_version ty ver"
  by (simp add: kept_version_def)

lemma directory_put:
  "directory (m\<lparr>dm_devices := map_put i d (dm_devices m)\<rparr>) = (directory m)(i \<mapsto> (dv_type d, dv_version d))"
  by (auto simp: directory_def map_of_map_put)

lemma devmgr_ok_put:
  "devmgr_ok m \<Longrightarrow> node_ok (dv_node d) \<Longrightarrow> nd_id (dv_node d) = i \<Longrightarrow> kept_version (dv_type d) (dv_version d) = dv_version d \<Longrightarrow>
    devmgr_ok (m\<lparr>dm_devices := map_put i d (dm_devices m)\<rparr>)"
  by (auto simp: devmgr_ok_def map_of_map_put map_put_sorted)

lemma add_device_ok:
  assumes "devmgr_ok m"
  shows "devmgr_ok (add_device dsc now nid ty ver m) \<and>
    directory (add_device dsc now nid ty ver m) = (directory m)(nid \<mapsto> (ty, kept_version ty ver))"
proof (cases "map_of (dm_devices m) nid")
  case None
  then show ?thesis
    using devmgr_ok_put [OF assms, of "build_device dsc now nid ty ver" nid]
    by (simp add: add_device_def directory_put)
next
  case (Some d)
  have d: "node_ok (dv_node d)" "nd_id (dv_node d) = nid" "kept_version (dv_type d) (dv_version d) = dv_version d"
    using assms Some by (auto simp: devmgr_ok_def)
  show ?thesis
    using Some d devmgr_ok_put [OF assms, of "build_device dsc now nid ty ver" nid]
      devmgr_ok_put [OF assms, of "d\<lparr>dv_last_seen := now\<rparr>" nid]
    by (auto simp: add_device_def directory_put)
qed

lemma update_state_ok:
  assumes "valid_frame f"
  shows "\<exists>es. update_device_state X now f d = Inr (es, d\<lparr>dv_last_seen := now\<rparr>)"
  using valid_frameD [OF assms] by (simp add: update_device_state_def frame_bytes_def Let_def)

lemma handle_frame_ok:
  assumes "devmgr_ok m" and "valid_frame f"
  shows "\<exists>out m1. handle_frame dsc X now f m = Inr (out, m1) \<and> devmgr_ok m1 \<and>
    directory m1 = (if announces f
      then (directory m)(ucast (source_id f) \<mapsto> (frame_word f 0, kept_version (frame_word f 0) (info_version f)))
      else directory m)"
proof (cases "announces f")
  case True
  then show ?thesis
    using add_device_ok [OF assms(1)] by (auto simp: handle_frame_def Let_def announces_def)
next
  case False
  let ?src = "ucast (source_id f) :: u16"
  show ?thesis
  proof (cases "map_of (dm_devices m) ?src")
    case None
    then show ?thesis
      using False assms(1)
      by (auto simp: handle_frame_def Let_def announces_def get_next_seqnum_def devmgr_ok_def directory_def fun_eq_iff)
  next
    case (Some d)
    obtain es where es: "update_device_state X now f d = Inr (es, d\<lparr>dv_last_seen := now\<rparr>)"
      using update_state_ok [OF assms(2)] by blast
    have d: "node_ok (dv_node d)" "nd_id (dv_node d) = ?src" "kept_version (dv_type d) (dv_version d) = dv_version d"
      using assms(1) Some by (auto simp: devmgr_ok_def)
    have "(directory m)(?src \<mapsto> (dv_type d, dv_version d)) = directory m"
      using Some by (auto simp: directory_def)
    then show ?thesis
      using False Some es d assms(1) devmgr_ok_put [OF assms(1), of "d\<lparr>dv_last_seen := now\<rparr>" ?src]
      by (auto simp: handle_frame_def Let_def announces_def directory_put)
  qed
qed

lemma handle_frames_ok:
  assumes "devmgr_ok m" and "\<forall>f \<in> snd ` set fs. valid_frame f"
  shows "\<exists>outs m1. handle_frames dsc X fs m = Inr (outs, m1) \<and> devmgr_ok m1 \<and>
    directory m1 = fold (\<lambda>f t. if announces f
      then t(ucast (source_id f) \<mapsto> (frame_word f 0, kept_version (frame_word f 0) (info_version f))) else t)
      (map snd fs) (directory m)"
  using assms
proof (induction fs arbitrary: m)
  case Nil
  then show ?case by simp
next
  case (Cons e fs)
  obtain now f where e: "e = (now, f)" by force
  obtain out m1 where h: "handle_frame dsc X now f m = Inr (out, m1)" "devmgr_ok m1"
    and d: "directory m1 = (if announces f
      then (directory m)(ucast (source_id f) \<mapsto> (frame_word f 0, kept_version (frame_word f 0) (info_version f)))
      else directory m)"
    using handle_frame_ok [OF Cons.prems(1), of f dsc X now] Cons.prems(2) e by (auto simp: image_iff)
  then show ?case using Cons.IH [OF h(2)] Cons.prems(2) e by fastforce
qed

lemma register_change_read:
  assumes "xml_laws X"
  shows "get_type X (register_change_event X nid f bs) = Inr DEVICEEVENT"
    "msg_prop X (register_change_event X nid f bs) ''device-id'' = Inr (dec_string (unat nid))"
    "event_name X (register_change_event X nid f bs) = Inr ''register_change''"
    "rbind (msg_value X (register_change_event X nid f bs) ''register_id'') (get_value_as_int X)
      = Inr (int (unat (data f ! 0)))"
    "rbind (msg_value X (register_change_event X nid f bs) ''value_len'') (get_value_as_int X)
      = Inr (int (unat (dlc f)) - 1)"
    "rbind (msg_value X (register_change_event X nid f bs) ''value'') (get_value_as_str X)
      = Inr (dec_string (unat (fold (\<lambda>b v. push_bit 8 v OR ucast b) bs (0 :: u64))))"
proof -
  note d = register_change_event_def add_value_def dict_add_value_def device_event_def msg_value_def
    value_at_def get_value_as_int_def get_value_as_str_def
  have i: "stoi 10 (int_string (int (unat (dlc f)) - 1)) = Inr (int (unat (dlc f)) - 1)"
  proof -
    have "uint (dlc f) < 256" "0 \<le> uint (dlc f)" using uint_bounded [of "dlc f"] by simp_all
    then have "- 2147483648 < uint (dlc f)" "uint (dlc f) < 2147483649" by linarith+
    then show ?thesis by (simp add: stoi_def)
  qed
  have r: "stoi 10 (dec_string (unat (data f ! 0))) = Inr (int (unat (data f ! 0)))"
  proof -
    have "uint (data f ! 0) < 256" "0 \<le> uint (data f ! 0)" using uint_bounded [of "data f ! 0"] by simp_all
    then have "- 2147483648 \<le> uint (data f ! 0)" "uint (data f ! 0) < 2147483648" by linarith+
    then show ?thesis by (simp add: stoi_def)
  qed
  show "get_type X (register_change_event X nid f bs) = Inr DEVICEEVENT"
    using assms by (simp add: d get_type_def)
  show "msg_prop X (register_change_event X nid f bs) ''device-id'' = Inr (dec_string (unat nid))"
    using assms by (simp add: d msg_prop_def)
  show "event_name X (register_change_event X nid f bs) = Inr ''register_change''"
    using assms by (simp add: d event_name_def msg_prop_def)
  show "rbind (msg_value X (register_change_event X nid f bs) ''register_id'') (get_value_as_int X)
      = Inr (int (unat (data f ! 0)))"
    using assms r by (simp add: d)
  show "rbind (msg_value X (register_change_event X nid f bs) ''value_len'') (get_value_as_int X)
      = Inr (int (unat (dlc f)) - 1)"
    using assms i by (simp add: d)
  show "rbind (msg_value X (register_change_event X nid f bs) ''value'') (get_value_as_str X)
      = Inr (dec_string (unat (fold (\<lambda>b v. push_bit 8 v OR ucast b) bs (0 :: u64))))"
    using assms by (simp add: d)
qed

lemma unat_ucast_9_16: "unat (ucast (w :: 9 word) :: u16) = unat w"
proof -
  have "unat w < 2 ^ 16" using unsigned_less [of w, where ?'a = nat] by simp
  then show ?thesis by (simp add: unsigned_ucast_eq take_bit_nat_eq_self)
qed

lemma be_bytes_ucast:
  "8 * k \<le> LENGTH('b::len) \<Longrightarrow> be_bytes k (ucast (v :: 'a::len word) :: 'b word) = be_bytes k v"
  by (auto simp: be_bytes_def intro!: bit_word_eqI simp: bit_simps)

lemma new_devmgr_ok: "devmgr_ok new_devmgr" "directory new_devmgr = Map.empty"
  by (simp_all add: devmgr_ok_def new_devmgr_def no_seqnums_def directory_def fun_eq_iff)

lemma get_register_int_value:
  \<comment> \<open>a register is read as the big-endian number of its data bytes\<close>
  assumes "node_ok (dv_node d)" and "nd_id (dv_node d) = i" and "in_time env"
    and "\<forall>f \<in> snd ` set (ne_frames env). valid_frame f"
    and "find (is_answer i REG_VALUE reg (ne_seqnum env)) (map snd (ne_frames env)) = Some f" and "1 < dlc f"
  shows "\<exists>w d1. get_register_int reg env d = (get_reg_request LOW (ne_seqnum env) 1 i reg,
      Inr (int (unat (dlc f)) - 1, Some w), d1) \<and> unat w = be_value (take (unat (dlc f) - 1) (drop 1 (data f)))"
proof -
  let ?bs = "take (unat (dlc f) - 1) (drop 1 (data f))"
  have f: "valid_frame f" using find_answerD(1) [OF assms(5)] assms(4) by simp
  have len: "length ?bs = unat (dlc f) - 1" "length ?bs \<le> 7" using valid_frameD(1,2) [OF f] by simp_all
  have t: "take 8 ?bs = ?bs" using len(2) by (intro take_all) linarith
  have dlc: "1 < unat (dlc f)" using assms(6) by (simp add: word_less_nat_alt)
  obtain n1 where "get_raw_reg reg 8 env (dv_node d) = (get_reg_request LOW (ne_seqnum env) 1 i reg,
      Inr (int (length ?bs), ?bs), n1)"
    using get_raw_reg_answer [OF assms(1-4), of reg 8] unfolding assms(5) option.case Let_def t by blast
  moreover have "unat (fold (\<lambda>b v. push_bit 8 v OR ucast b) ?bs (0 :: u64)) = be_value ?bs"
    using fold_be_value [of 0 ?bs] len(2) by simp
  moreover have "int (length ?bs) = int (unat (dlc f)) - 1" "0 < int (length ?bs)"
    unfolding len(1) using dlc by linarith+
  ultimately show ?thesis by (simp add: get_register_int_def on_node_def)
qed

subsection \<open>Properties\<close>

text \<open>
  C8. The directory of devices refines the history of the bus: after any sequence of frames the
  manager has not failed, and it knows exactly the nodes that have announced themselves, each with
  the type and version of its last announcement (an antenna switch with sixteen bits of the
  version), listed once, in the order of the node numbers.
\<close>

theorem devmgr_tracks:
  assumes "\<forall>f \<in> snd ` set fs. valid_frame f"
  shows "\<exists>outs (m :: 'o devmgr). handle_frames dsc X fs new_devmgr = Inr (outs, m) \<and> directory m = announced (map snd fs) \<and>
    sorted_wrt (<) (map dc_id (get_devices_list m)) \<and>
    (\<forall>i. i \<in> set (map dc_id (get_devices_list m)) \<longleftrightarrow> announced (map snd fs) i \<noteq> None)"
proof -
  obtain outs and m :: "'o devmgr" where m: "handle_frames dsc X fs new_devmgr = Inr (outs, m)" "devmgr_ok m"
      "directory m = announced (map snd fs)"
    using handle_frames_ok [OF new_devmgr_ok(1) assms, of dsc X] by (auto simp: announced_def new_devmgr_ok(2))
  have "map dc_id (get_devices_list m) = map fst (dm_devices m)"
    by (simp add: get_devices_list_def case_prod_beta comp_def)
  moreover have "i \<in> fst ` set (dm_devices m) \<longleftrightarrow> directory m i \<noteq> None" for i
    by (simp add: directory_def map_of_eq_None_iff)
  ultimately show ?thesis
    using m by (intro exI [of _ outs] exI [of _ m]) (simp add: devmgr_ok_def)
qed


text \<open>
  Subscriptions survive a node that announces itself again, and only for an antenna switch with
  a version of 65536 or more (any with a major or minor number) they do not: the directory compares
  the full version with the sixteen bits it kept, builds the device anew on every announcement, and
  the subscribers of the old one are forgotten.
\<close>

theorem reannounced_subscriptions:
  "(let m1 = add_device dsc now nid ty ver new_devmgr;
        m2 = snd (attach_event_observer ob ev nid m1);
        m3 = add_device dsc now' nid ty ver m2
    in with_device nid [] (\<lambda>d. dv_observers d ev) m3) =
   (if ty = 5 \<and> 2 ^ 16 \<le> unat ver then [] else [ob])"
proof -
  have "take_bit 16 ver = ver \<longleftrightarrow> unat ver < 2 ^ 16"
    by (metis take_bit_nat_eq_self take_bit_nat_less_exp unsigned_take_bit_eq word_unat_eq_iff)
  then show ?thesis
    by (auto simp: add_device_def new_devmgr_def attach_event_observer_def change_device_def with_device_def
        device_attach_def kept_version_def insort_insert_key_def Let_def)
qed

text \<open>
  The width of a register on the wire: a value is sent in one, two or four bytes by the size of
  the register in bits, so only its low bits reach the node, and of a register of more than 32 bits
  only the low 32; a register that is not described, or has no size, is not written.
\<close>

theorem register_width:
  "fst (set_register_int reg v tmp env d) = (case map_of (dv_registers d) reg of
     None \<Rightarrow> []
   | Some rd \<Rightarrow> (let w = (if rg_size rd \<le> 0 then 0 else if rg_size rd \<le> 8 then 1 else if rg_size rd \<le> 16 then 2 else 4)
       in if w = 0 then [] else [set_reg_request LOW (ne_seqnum env) 1 (nd_id (dv_node d)) reg (be_bytes w v)])) \<and>
   be_value (be_bytes w v) = unat v mod 256 ^ w"
proof -
  have b: "be_bytes (Suc 0) (ucast v :: u8) = be_bytes (Suc 0) v" "be_bytes 2 (ucast v :: u16) = be_bytes 2 v"
      "be_bytes 4 (ucast v :: u32) = be_bytes 4 v"
    by (simp_all add: be_bytes_ucast)
  show ?thesis
    by (auto simp: set_register_int_def on_node_def set_raw_value_def set_raw_reg_def case_prod_beta Let_def b
        be_value_bytes node_source_def split: option.split)
qed

subsection \<open>Witnesses\<close>

definition info_frame :: "9 word \<Rightarrow> u8 list \<Rightarrow> h9frame" where
  "info_frame src bs = (new_frame 0 511 src)\<lparr>ftype := NODE_INFO, dlc := 8, data := bs\<rparr>"

definition change_frame :: "9 word \<Rightarrow> h9frame" where
  "change_frame src = (new_frame 0 511 src)\<lparr>ftype := REG_INTERNALLY_CHANGED, dlc := 3, data := [10, 1, 2, 0, 0, 0, 0, 0]\<rparr>"

theorem devmgr_tracks_witness:
  "\<exists>outs (m :: nat devmgr). handle_frames [] xtree_ops [(1, info_frame 16 [0, 7, 0, 1, 0, 2, 0, 3]), (2, change_frame 17)] new_devmgr
      = Inr (outs, m) \<and> set (map dc_id (get_devices_list m)) = {16}"
proof -
  let ?fs = "[(1, info_frame 16 [0, 7, 0, 1, 0, 2, 0, 3]), (2, change_frame 17)]"
  have v: "\<forall>f \<in> snd ` set ?fs. valid_frame f"
    by (simp add: info_frame_def change_frame_def valid_frame_def wf_frame_def new_frame_def)
  have "announced (map snd ?fs) i \<noteq> None \<longleftrightarrow> i = 16" for i
    by (simp add: announced_def announces_def info_frame_def change_frame_def new_frame_def)
  then show ?thesis
    using devmgr_tracks [OF v, where dsc = "[]" and X = xtree_ops and ?'o = nat] by fastforce
qed


end
