(* ===== verification/H9_Executor.thy ===== *)
theory H9_Executor
  imports H9_DevMgr
begin

text \<open>
  \<open>h9d/executor\<close> and \<open>h9d/executoradapter\<close>: the methods a client of the h9d daemon can call,
  their answers, and what is done when its connection ends. A client is named by its number (the
  pointer in the code). The result of a call holds the answer, the requests sent to the bus, and
  the new states of the adapter and of the directory.
\<close>

subsection \<open>Environment\<close>

record 'n ex_env =
  ee_xml :: "'n libxml"
  ee_version :: string
  ee_uptime :: int
  ee_clients :: nat
  ee_node :: node_env
    \<comment> \<open>what a register call of this method meets\<close>
  ee_tmp :: "u8 list"
    \<comment> \<open>the content of an uninitialised local variable\<close>
  ee_time :: "int \<Rightarrow> string"
    \<comment> \<open>\<open>strftime\<close> of \<open>gmtime\<close>\<close>

type_synonym memento = "(u16 \<times> string) list"

datatype 'n answer = Answer "'n gmsg" "request list"

fun answer_msg :: "'n answer \<Rightarrow> 'n gmsg" where
  "answer_msg (Answer m qs) = m"

subsection \<open>Executor\<close>

definition executor_is_device_exist :: "u16 \<Rightarrow> 'o devmgr \<Rightarrow> bool" where
  "executor_is_device_exist i m \<longleftrightarrow> unat i < BROADCAST_ID \<and> is_device_exist i m"

definition executor_discover :: "'n libxml \<Rightarrow> 'o devmgr \<Rightarrow> ('n answer \<times> 'o devmgr) res" where
  \<comment> \<open>the error names the method \<open>subscribe\<close>\<close>
  "executor_discover X m = rbind (discover m) (\<lambda>(q, r, m1). Inr (Answer
     (if r < 0 then method_response_error X ''subscribe'' 101 ''Generic error'' else method_response X ''discover'') [q], m1))"

definition executor_attach :: "'n libxml \<Rightarrow> 'o::linorder \<Rightarrow> u16 \<Rightarrow> string \<Rightarrow> 'o devmgr \<Rightarrow> 'n gmsg \<times> 'o devmgr" where
  \<comment> \<open>the answer is a method response that becomes a device method response without a device number\<close>
  "executor_attach X cl i ev m = (let (r, m1) = attach_event_observer cl ev i m in
     (if r < 0 then method_response_error X ''subscribe'' 101 ''Generic error'' else method_response X ''subscribe'', m1))"

definition executor_detach :: "'n libxml \<Rightarrow> 'o::linorder \<Rightarrow> u16 \<Rightarrow> string \<Rightarrow> 'o devmgr \<Rightarrow> 'n gmsg \<times> 'o devmgr" where
  "executor_detach X cl i ev m = (let (r, m1) = detach_event_observer cl ev i m in
     (if r < 0 then method_response_error X ''unsubscribe'' 101 ''Generic error'' else method_response X ''unsubscribe'', m1))"

definition device_methods_list :: "u16 \<Rightarrow> 'o devmgr \<Rightarrow> string list" where
  "device_methods_list i m = [''set_register'', ''get_register'', ''reset'', ''info''] @ dm_specific_methods i m"

definition has_device_specific_method :: "u16 \<Rightarrow> string \<Rightarrow> 'o devmgr \<Rightarrow> bool" where
  "has_device_specific_method i name m \<longleftrightarrow> name \<in> set (device_methods_list i m)"

definition int_param :: "'n libxml \<Rightarrow> 'n gmsg \<Rightarrow> string \<Rightarrow> int res" where
  "int_param X m k = rbind (msg_value X m k) (get_value_as_int X)"

definition str_param :: "'n libxml \<Rightarrow> 'n gmsg \<Rightarrow> string \<Rightarrow> string res" where
  "str_param X m k = rbind (msg_value X m k) (get_value_as_str X)"

definition version_string :: "'x device_dsc_scheme \<Rightarrow> string" where
  "version_string d = dec_string (unat (dc_major d)) @ ''.'' @ dec_string (unat (dc_minor d)) @ ''.''
     @ dec_string (unat (dc_patch d))"

definition info_response :: "'n ex_env \<Rightarrow> u16 \<Rightarrow> device_info \<Rightarrow> 'n gmsg" where
  "info_response env i d = (let X = ee_xml env in
     add_value X ''description'' (di_description d)
       (add_value X ''last_seen_time'' (ee_time env (di_last_seen d))
         (add_value X ''created_time'' (ee_time env (di_created d))
           (add_value X ''name'' (dc_name d)
             (add_value X ''version'' (version_string d)
               (add_value X ''type'' (dec_string (unat (dc_type d)))
                 (add_value X ''id'' (dec_string (unat (dc_id d)))
                   (device_method_response X i ''info''))))))))"

definition register_response :: "'n libxml \<Rightarrow> u16 \<Rightarrow> string \<Rightarrow> int \<Rightarrow> int \<Rightarrow> 'n gmsg" where
  "register_response X i name reg v = add_value X ''value'' (int_string v)
     (add_value X ''register'' (int_string reg) (device_method_response X i name))"

definition executor_execute_device_method ::
  "'n ex_env \<Rightarrow> u16 \<Rightarrow> string \<Rightarrow> 'n gmsg \<Rightarrow> 'o devmgr \<Rightarrow> ('n answer \<times> 'o devmgr) res" where
  \<comment> \<open>\<open>Executor::execute_device_method\<close>; the number of a register is cut to eight bits; the
      result of a method of an antenna switch is thrown away\<close>
  "executor_execute_device_method env i name msg m =
    (let X = ee_xml env; timeout = device_method_response_error X i name 102 ''Timeout'' in
     if name = ''set_register'' then
       rbind (int_param X msg ''register'') (\<lambda>reg. rbind (int_param X msg ''value'') (\<lambda>v.
         let ((qs, r), m1) = set_device_register_int i (word_of_int reg) (word_of_int v) (ee_tmp env) (ee_node env) m
         in rbind r (\<lambda>(ret, setted). Inr (Answer (case setted of
              Some w \<Rightarrow> if ret < 0 then timeout else register_response X i name reg (int w)
            | None \<Rightarrow> timeout) qs, m1))))
     else if name = ''get_register'' then
       rbind (int_param X msg ''register'') (\<lambda>reg.
         let ((qs, r), m1) = get_device_register_int i (word_of_int reg) (ee_node env) m
         in rbind r (\<lambda>(ret, buf). Inr (Answer (case buf of
              Some w \<Rightarrow> if ret < 0 then timeout else register_response X i name reg (sint w)
            | None \<Rightarrow> timeout) qs, m1)))
     else if name = ''reset'' then
       (let ((qs, r), m1) = device_reset i (ee_node env) m
        in rbind r (\<lambda>ret. Inr (Answer (if ret < 0 then timeout else device_method_response X i name) qs, m1)))
     else if name = ''info'' then
       Inr (Answer (case get_device_info i m of None \<Rightarrow> timeout | Some d \<Rightarrow> info_response env i d) [], m)
     else (let ((qs, r), m1) = dm_execute_specific_method i name (ee_node env) m
           in rbind r (\<lambda>_. Inr (Answer (device_method_response X i name) qs, m1))))"

subsection \<open>ExecutorAdapter\<close>

definition with_request_id :: "'n libxml \<Rightarrow> 'n gmsg \<Rightarrow> 'n answer \<Rightarrow> 'n answer res" where
  \<comment> \<open>\<open>res.set_request_id(execmsg.get_id())\<close>\<close>
  "with_request_id X msg a = (case a of Answer r qs \<Rightarrow>
     rbind (get_id X msg) (\<lambda>i. Inr (Answer (set_request_id X i r) qs)))"

definition adapter_method ::
  "'n ex_env \<Rightarrow> string \<Rightarrow> 'o devmgr \<Rightarrow> ('n answer \<times> 'o devmgr) res" where
  \<comment> \<open>the branches of \<open>ExecutorAdapter::execute_method\<close>\<close>
  "adapter_method env name m =
    (let X = ee_xml env in
     if name = ''methods_list'' then
       Inr (Answer (with_node (dict_add_array X ''methods'' (\<lambda>a. fold (array_add_value X)
         [''methods_list'', ''h9d_stat'', ''devices_list'', ''discover''] a)) (method_response X name)) [], m)
     else if name = ''h9d_stat'' then
       Inr (Answer (add_value X ''active_devices_count'' (dec_string (active_devices_count m))
         (add_value X ''connected_clients_count'' (dec_string (ee_clients env))
           (add_value X ''uptime'' (int_string (ee_uptime env))
             (add_value X ''version'' (ee_version env) (method_response X name))))) [], m)
     else if name = ''devices_list'' then
       Inr (Answer (with_node (dict_add_array X ''devices'' (\<lambda>a. fold (\<lambda>d. array_add_dict X (\<lambda>n.
         dict_add_value X ''name'' (dc_name d) (dict_add_value X ''version'' (version_string d)
           (dict_add_value X ''type'' (dec_string (unat (dc_type d)))
             (dict_add_value X ''id'' (dec_string (unat (dc_id d))) n))))) (get_devices_list m) a))
         (method_response X name)) [], m)
     else if name = ''discover'' then executor_discover X m
     else Inr (Answer (error_msg X UNSUPPORTED_METHOD (''Unsupported method: '' @ name)) [], m))"

definition adapter_execute_method ::
  "'n ex_env \<Rightarrow> 'n gmsg \<Rightarrow> 'o devmgr \<Rightarrow> ('n answer \<times> 'o devmgr) res" where
  "adapter_execute_method env msg m = rbind (get_method_name (ee_xml env) msg) (\<lambda>name.
     rbind (adapter_method env name m) (\<lambda>(a, m1).
     rbind (with_request_id (ee_xml env) msg a) (\<lambda>a1. Inr (a1, m1))))"

definition registers_response :: "'n libxml \<Rightarrow> register_desc list \<Rightarrow> 'n \<Rightarrow> 'n" where
  "registers_response X rs = dict_add_array X ''registers'' (\<lambda>a. fold (\<lambda>r. array_add_dict X (\<lambda>n.
     let n1 = dict_add_value X ''description'' (rg_description r)
           (dict_add_value X ''writable'' (dec_string (of_bool (rg_writable r)))
             (dict_add_value X ''readable'' (dec_string (of_bool (rg_readable r)))
               (dict_add_value X ''size'' (int_string (rg_size r))
                 (dict_add_value X ''type'' (rg_type r)
                   (dict_add_value X ''name'' (rg_name r)
                     (dict_add_value X ''register'' (dec_string (unat (rg_number r))) n))))))
     in if rg_bits_names r = [] then n1
        else dict_add_array X ''bits_names'' (\<lambda>b. fold (array_add_value X) (rg_bits_names r) b) n1)) rs a)"

definition adapter_device_method ::
  "'n ex_env \<Rightarrow> 'o::linorder \<Rightarrow> u16 \<Rightarrow> string \<Rightarrow> 'n gmsg \<Rightarrow> memento \<Rightarrow> 'o devmgr \<Rightarrow>
   ('n answer \<times> memento \<times> 'o devmgr) res" where
  \<comment> \<open>the branches inside the \<open>try\<close> block, and the unknown method\<close>
  "adapter_device_method env cl i name msg mem m =
    (let X = ee_xml env in
     if name = ''methods_list'' then
       Inr (Answer (with_node (dict_add_array X ''methods'' (\<lambda>a. fold (array_add_value X)
         ([''methods_list'', ''events_list'', ''registers_list'', ''subscribe'', ''unsubscribe'', ''reset'']
          @ device_methods_list i m) a)) (device_method_response X i name)) [], mem, m)
     else if name = ''events_list'' then
       Inr (Answer (with_node (dict_add_array X ''events'' (\<lambda>a. fold (array_add_value X) (dm_events_list i m) a))
         (device_method_response X i name)) [], mem, m)
     else if name = ''registers_list'' then
       Inr (Answer (with_node (registers_response X (dm_registers_list i m)) (device_method_response X i name)) [], mem, m)
     else if name = ''subscribe'' then
       rbind (str_param X msg ''event'') (\<lambda>ev. let (r, m1) = executor_attach X cl i ev m in
         Inr (Answer r [], mem @ [(i, ev)], m1))
     else if name = ''unsubscribe'' then
       rbind (str_param X msg ''event'') (\<lambda>ev. let (r, m1) = executor_detach X cl i ev m in
         Inr (Answer r [], removeAll (i, ev) mem, m1))
     else if has_device_specific_method i name m then
       rbind (executor_execute_device_method env i name msg m) (\<lambda>(a, m1). Inr (a, mem, m1))
     else Inr (Answer (error_msg X UNSUPPORTED_DEVICE_METHOD
       (''Unsupported device (id: '' @ dec_string (unat i) @ '') method: '' @ name)) [], mem, m))"

definition catch_parameters ::
  "'n libxml \<Rightarrow> memento \<Rightarrow> 'o devmgr \<Rightarrow> ('n answer \<times> memento \<times> 'o devmgr) res \<Rightarrow>
   ('n answer \<times> memento \<times> 'o devmgr) res" where
  \<comment> \<open>the two \<open>catch\<close> blocks\<close>
  "catch_parameters X mem m r = (case r of
       Inl Out_of_range \<Rightarrow> Inr (Answer (error_msg X INVALID_PARAMETERS ''Missing parameters'') [], mem, m)
     | Inl Invalid_argument \<Rightarrow> Inr (Answer (error_msg X INVALID_PARAMETERS ''Invalid parameters'') [], mem, m)
     | x \<Rightarrow> x)"

definition adapter_execute_device_method ::
  "'n ex_env \<Rightarrow> 'o::linorder \<Rightarrow> 'n gmsg \<Rightarrow> memento \<Rightarrow> 'o devmgr \<Rightarrow> ('n answer \<times> memento \<times> 'o devmgr) res" where
  "adapter_execute_device_method env cl msg mem m =
    (let X = ee_xml env in
     rbind (get_device_id X msg) (\<lambda>i. rbind (get_method_name X msg) (\<lambda>name.
     rbind (if \<not> executor_is_device_exist i m
            then Inr (Answer (error_msg X INVALID_DEVICE (''Invalid device (id: '' @ dec_string (unat i) @ '')'')) [], mem, m)
            else catch_parameters X mem m (adapter_device_method env cl i name msg mem m)) (\<lambda>(a, mem1, m1).
     rbind (with_request_id X msg a) (\<lambda>a1. Inr (a1, mem1, m1))))))"

definition cleanup_connection :: "'o::linorder \<Rightarrow> memento \<Rightarrow> 'o devmgr \<Rightarrow> 'o devmgr" where
  "cleanup_connection cl mem m = fold (\<lambda>t m. directory_detach t cl m) mem m"

subsection \<open>Calls of a device\<close>

lemma await_node:
  assumes "node_ok n"
  shows "node_ok (snd (await c env n)) \<and> nd_id (snd (await c env n)) = nd_id n"
proof -
  have "node_ok m \<Longrightarrow> node_ok (recv_all evs m) \<and> nd_id (recv_all evs m) = nd_id m" for evs m
    by (induction evs arbitrary: m) (auto simp: node_ok_recv)
  from this [OF node_ok_create [OF assms]] show ?thesis
    by (simp add: await_def create_frame_future_def Let_def)
qed

definition calm :: "('o device \<Rightarrow> 'q \<times> 'a res \<times> 'o device) \<Rightarrow> bool" where
  \<comment> \<open>a call that leaves the device what it is, but for the promises of its node\<close>
  "calm g \<longleftrightarrow> (\<forall>d. node_ok (dv_node d) \<longrightarrow> (\<exists>q r n. g d = (q, r, d\<lparr>dv_node := n\<rparr>) \<and> node_ok n \<and>
     nd_id n = nd_id (dv_node d)))"

definition node_calm :: "(node \<Rightarrow> 'q \<times> 'a res \<times> node) \<Rightarrow> bool" where
  "node_calm g \<longleftrightarrow> (\<forall>n. node_ok n \<longrightarrow> (\<exists>q r n1. g n = (q, r, n1) \<and> node_ok n1 \<and> nd_id n1 = nd_id n))"

lemma node_calm_calls:
  "node_calm (get_raw_reg reg k env)" "node_calm (set_raw_reg reg bs env)" "node_calm (node_reset env)"
  "node_calm (set_raw_value w reg v tmp env)"
  by (simp_all add: node_calm_def get_raw_reg_def set_raw_reg_def node_reset_def set_raw_value_def case_prod_beta
      await_node)

lemma calm_on_node: "node_calm g \<Longrightarrow> calm (on_node g)"
  by (fastforce simp: node_calm_def calm_def on_node_def)

lemma calm_map:
  "calm g \<Longrightarrow> calm (\<lambda>d. let (q, r, d1) = g d in (f q, h r, d1))"
  unfolding calm_def by (fastforce split: prod.splits)

lemma calm_const: "calm (\<lambda>d. (q, r, d))"
  by (auto simp: calm_def) (metis device.surjective device.update_convs(1))

lemma calm_get_register_int: "calm (\<lambda>d. let (q, r, d1) = get_register_int reg env d in ([q], r, d1))"
  using calm_map [OF calm_on_node [OF node_calm_calls(1) [of reg 8 env]]]
  by (simp add: get_register_int_def case_prod_beta Let_def)

lemma device_call_calm:
  assumes "devmgr_ok m" and "calm g"
  shows "devmgr_ok (snd (device_call i dflt g m)) \<and> directory_subs (snd (device_call i dflt g m)) = directory_subs m"
proof (cases "map_of (dm_devices m) i")
  case None
  then show ?thesis using assms(1) by (simp add: device_call_def change_device_def)
next
  case (Some d)
  then have d: "node_ok (dv_node d)" "nd_id (dv_node d) = i" "kept_version (dv_type d) (dv_version d) = dv_version d"
    using assms(1) by (auto simp: devmgr_ok_def)
  obtain q r n where g: "g d = (q, r, d\<lparr>dv_node := n\<rparr>)" "node_ok n" "nd_id n = nd_id (dv_node d)"
    using assms(2) d(1) unfolding calm_def by blast
  have "snd (device_call i dflt g m) = m\<lparr>dm_devices := map_put i (d\<lparr>dv_node := n\<rparr>) (dm_devices m)\<rparr>"
    using Some g(1) by (simp add: device_call_def change_device_def)
  then show ?thesis
    using devmgr_ok_put [OF assms(1), of "d\<lparr>dv_node := n\<rparr>" i] d g(2,3) Some
    by (auto simp: directory_subs_def map_of_map_put split: if_splits)
qed

definition quiet :: "node_env \<Rightarrow> bool" where
  \<comment> \<open>valid frames, none after the deadline\<close>
  "quiet env \<longleftrightarrow> in_time env \<and> (\<forall>f \<in> snd ` set (ne_frames env). valid_frame f)"

lemma quiet_calls:
  assumes "quiet env" and "node_ok n"
  shows "\<exists>x. fst (snd (get_raw_reg reg k env n)) = Inr x" "\<exists>x. fst (snd (set_raw_reg reg bs env n)) = Inr x"
    "\<exists>x. fst (snd (node_reset env n)) = Inr x" "\<exists>x. fst (snd (set_raw_value w reg v tmp env n)) = Inr x"
proof -
  have a: "fst (await c env n) = Inr (find (frame_matches c) (map snd (ne_frames env)))" for c
    using assms await_in_time by (simp add: quiet_def)
  have c: "\<exists>x. copied_bytes k f = Inr x"
    if "find (is_answer i ty r sq) (map snd (ne_frames env)) = Some f" for k f i ty r sq
    using copied_valid find_answerD [OF that] assms(1) by (fastforce simp: quiet_def)
  have s: "\<exists>x. fst (snd (set_raw_reg reg bs env n)) = Inr x" for bs
  proof (cases "find (is_answer (nd_id n) REG_EXTERNALLY_CHANGED reg (ne_seqnum env)) (map snd (ne_frames env))")
    case None
    then show ?thesis by (simp add: set_raw_reg_def case_prod_beta a register_matches)
  next
    case (Some f)
    then show ?thesis using c [OF Some, of "length bs"]
      by (auto simp: set_raw_reg_def case_prod_beta a register_matches)
  qed
  then show "\<exists>x. fst (snd (set_raw_reg reg bs env n)) = Inr x" .
  show "\<exists>x. fst (snd (set_raw_value w reg v tmp env n)) = Inr x"
    using s [of "be_bytes w v"] by (auto simp: set_raw_value_def case_prod_beta)
  show "\<exists>x. fst (snd (node_reset env n)) = Inr x" by (simp add: node_reset_def case_prod_beta a)
  show "\<exists>x. fst (snd (get_raw_reg reg k env n)) = Inr x"
  proof (cases "find (is_answer (nd_id n) REG_VALUE reg (ne_seqnum env)) (map snd (ne_frames env))")
    case None
    then show ?thesis by (simp add: get_raw_reg_def case_prod_beta a register_matches)
  next
    case (Some f)
    then show ?thesis using c [OF Some, of k]
      by (auto simp: get_raw_reg_def case_prod_beta a register_matches)
  qed
qed

subsection \<open>Every call has one answer\<close>

lemma calm_set_register_int: "calm (set_register_int reg v tmp env)"
proof -
  have *: "calm (\<lambda>d. let (q, r, d1) = on_node (set_raw_value w reg x tm env) d in ([q], rbind r (\<lambda>(ret, y). Inr (ret, Some y)), d1))"
    for w and x :: "'x::len word" and tm
    by (rule calm_map [OF calm_on_node [OF node_calm_calls(4)]])
  show ?thesis
    unfolding calm_def
  proof (intro allI impI)
    fix d :: "'o device" assume d: "node_ok (dv_node d)"
    note const = calm_const [of "[]" "Inr (-1, None)", unfolded calm_def, rule_format, OF d]
    note one = * [of 1 "ucast v :: u8" "take 1 tmp", unfolded calm_def, rule_format, OF d]
    note two = * [of 2 "ucast v :: u16" "take 2 tmp", unfolded calm_def, rule_format, OF d]
    note four = * [of 4 "ucast v :: u32" "take 4 tmp", unfolded calm_def, rule_format, OF d]
    show "\<exists>q r n. set_register_int reg v tmp env d = (q, r, d\<lparr>dv_node := n\<rparr>) \<and> node_ok n \<and> nd_id n = nd_id (dv_node d)"
    proof (cases "map_of (dv_registers d) reg")
      case None
      then show ?thesis using const by (simp add: set_register_int_def)
    next
      case (Some rd)
      show ?thesis
        using one two four const by (simp add: set_register_int_def Some Let_def split del: if_split split: if_split)
    qed
  qed
qed

lemma device_call_Inr:
  assumes "devmgr_ok m" and "\<And>d. node_ok (dv_node d) \<Longrightarrow> \<exists>x. fst (snd (g d)) = Inr x" and "\<exists>x. dflt = Inr x"
  shows "\<exists>qs x m1. device_call i dflt g m = ((qs, Inr x), m1)"
proof (cases "map_of (dm_devices m) i")
  case None
  then show ?thesis using assms(3) by (auto simp: device_call_def change_device_def)
next
  case (Some d)
  then have "node_ok (dv_node d)" using assms(1) by (auto simp: devmgr_ok_def)
  then obtain x where "fst (snd (g d)) = Inr x" using assms(2) by blast
  then show ?thesis using Some by (cases "g d") (auto simp: device_call_def change_device_def)
qed

definition antenna_methods :: "string list" where
  "antenna_methods = [''select_antenna'', ''get_selected_antenna'']"

lemma param_error: "msg_node msg \<noteq> None \<Longrightarrow> rbind (msg_value X msg k) g = Inl e \<Longrightarrow> \<forall>n e. g n = Inl e \<longrightarrow> e = Out_of_range \<or> e = Invalid_argument \<Longrightarrow>
  e = Out_of_range \<or> e = Invalid_argument"
proof -
  have "find_named X k ns = Inl e \<Longrightarrow> e = Out_of_range" for ns e by (induction ns) (auto split: if_splits)
  then show "msg_node msg \<noteq> None \<Longrightarrow> rbind (msg_value X msg k) g = Inl e \<Longrightarrow>
    \<forall>n e. g n = Inl e \<longrightarrow> e = Out_of_range \<or> e = Invalid_argument \<Longrightarrow> e = Out_of_range \<or> e = Invalid_argument"
    by (auto simp: msg_value_def value_at_def rbind_def split: sum.splits option.splits)
qed

lemma int_param_error: "msg_node msg \<noteq> None \<Longrightarrow> int_param X msg k = Inl e \<Longrightarrow> e = Out_of_range \<or> e = Invalid_argument"
  unfolding int_param_def
  by (erule param_error, assumption) (auto simp: get_value_as_int_def stoi_def split: option.splits if_splits)

lemma str_param_error: "msg_node msg \<noteq> None \<Longrightarrow> str_param X msg k = Inl e \<Longrightarrow> e = Out_of_range \<or> e = Invalid_argument"
  unfolding str_param_def
  by (erule param_error, assumption) (auto simp: get_value_as_str_def split: option.splits)

definition good :: "'o devmgr \<Rightarrow> ('n answer \<times> 'o devmgr) res \<Rightarrow> bool" where
  \<comment> \<open>an answer, or an exception about the parameters; the subscriptions are as before\<close>
  "good m r \<longleftrightarrow> (case r of Inr (a, m1) \<Rightarrow> devmgr_ok m1 \<and> directory_subs m1 = directory_subs m
     | Inl e \<Rightarrow> e = Out_of_range \<or> e = Invalid_argument)"

lemma executor_good:
  assumes "devmgr_ok m" and "quiet (ee_node env)" and "msg_node msg \<noteq> None"
    and "name \<in> {''set_register'', ''get_register'', ''reset'', ''info''}"
  shows "good m (executor_execute_device_method env i name msg m)"
proof -
  let ?e = "ee_node env"
  have set_ok: "\<exists>x. fst (snd (set_register_int reg v tmp ?e d)) = Inr x" if "node_ok (dv_node d)" for reg v tmp and d :: "'o device"
  proof -
    note q = quiet_calls(4) [OF assms(2) that]
    obtain x1 x2 x4 where x: "fst (snd (set_raw_value 1 reg (ucast v :: u8) (take 1 tmp) ?e (dv_node d))) = Inr x1"
      "fst (snd (set_raw_value 2 reg (ucast v :: u16) (take 2 tmp) ?e (dv_node d))) = Inr x2"
      "fst (snd (set_raw_value 4 reg (ucast v :: u32) (take 4 tmp) ?e (dv_node d))) = Inr x4"
      using q [of 1 reg "ucast v :: u8" "take 1 tmp"] q [of 2 reg "ucast v :: u16" "take 2 tmp"]
        q [of 4 reg "ucast v :: u32" "take 4 tmp"] by blast
    show ?thesis
      by (cases "map_of (dv_registers d) reg")
         (simp_all add: set_register_int_def on_node_def case_prod_beta Let_def x [simplified])
  qed
  have get_ok: "\<exists>x. fst (snd (let (q, r, d1) = get_register_int reg ?e d in ([q], r, d1))) = Inr x"
    if "node_ok (dv_node d)" for reg and d :: "'o device"
  proof -
    obtain x where "fst (snd (get_raw_reg reg 8 ?e (dv_node d))) = Inr x"
      using quiet_calls(1) [OF assms(2) \<open>node_ok (dv_node d)\<close>] by blast
    then show ?thesis by (simp add: get_register_int_def on_node_def case_prod_beta)
  qed
  have res_ok: "\<exists>x. fst (snd (let (q, r, d1) = on_node (node_reset ?e) d in ([q], r, d1))) = Inr x"
    if "node_ok (dv_node d)" for d :: "'o device"
    using quiet_calls(3) [OF assms(2) that] by (auto simp: on_node_def case_prod_beta)
  note c = device_call_calm [OF assms(1)]
  have "good m (executor_execute_device_method env i ''set_register'' msg m)"
  proof (cases "rbind (int_param (ee_xml env) msg ''register'') (\<lambda>r. rbind (int_param (ee_xml env) msg ''value'') (\<lambda>v. Inr (r, v)))")
    case (Inl e)
    then have "e = Out_of_range \<or> e = Invalid_argument"
      using int_param_error [OF assms(3)] by (auto simp: rbind_def split: sum.splits)
    then show ?thesis
      using Inl by (auto simp: executor_execute_device_method_def good_def rbind_def Let_def split: sum.splits)
  next
    case (Inr p)
    then obtain reg v where p: "int_param (ee_xml env) msg ''register'' = Inr reg" "int_param (ee_xml env) msg ''value'' = Inr v"
      by (auto simp: rbind_Inr_iff)
    obtain qs x m1 where s: "set_device_register_int i (word_of_int reg) (word_of_int v) (ee_tmp env) ?e m = ((qs, Inr x), m1)"
      using device_call_Inr [OF assms(1), where g = "set_register_int (word_of_int reg) (word_of_int v) (ee_tmp env) ?e"
          and dflt = "Inr (-1, None)" and i = i, OF set_ok] unfolding set_device_register_int_def by blast
    have "devmgr_ok m1 \<and> directory_subs m1 = directory_subs m"
      using c [OF calm_set_register_int] s unfolding set_device_register_int_def by (metis snd_conv)
    then show ?thesis
      using p s by (cases x) (simp add: executor_execute_device_method_def good_def Let_def)
  qed
  moreover have "good m (executor_execute_device_method env i ''get_register'' msg m)"
  proof (cases "int_param (ee_xml env) msg ''register''")
    case (Inl e)
    then show ?thesis
      using int_param_error [OF assms(3)] by (auto simp: executor_execute_device_method_def good_def)
  next
    case (Inr reg)
    obtain qs x m1 where s: "get_device_register_int i (word_of_int reg) ?e m = ((qs, Inr x), m1)"
      using device_call_Inr [OF assms(1), where g = "\<lambda>d. let (q, r, d1) = get_register_int (word_of_int reg) ?e d in ([q], r, d1)"
          and dflt = "Inr (-1, None)" and i = i, OF get_ok] unfolding get_device_register_int_def by blast
    have "devmgr_ok m1 \<and> directory_subs m1 = directory_subs m"
      using c [OF calm_get_register_int] s unfolding get_device_register_int_def by (metis snd_conv)
    then show ?thesis
      using Inr s by (cases x) (simp add: executor_execute_device_method_def good_def Let_def)
  qed
  moreover have "good m (executor_execute_device_method env i ''reset'' msg m)"
  proof -
    obtain qs x m1 where s: "device_reset i ?e m = ((qs, Inr x), m1)"
      using device_call_Inr [OF assms(1), where g = "\<lambda>d. let (q, r, d1) = on_node (node_reset ?e) d in ([q], r, d1)"
          and dflt = "Inr (-1)" and i = i, OF res_ok] unfolding device_reset_def by blast
    have "devmgr_ok m1 \<and> directory_subs m1 = directory_subs m"
      using c [OF calm_map [OF calm_on_node [OF node_calm_calls(3)], where f = "\<lambda>q. [q]" and h = "\<lambda>r. r"]] s
      unfolding device_reset_def by (metis snd_conv)
    then show ?thesis using s by (simp add: executor_execute_device_method_def good_def Let_def)
  qed
  moreover have "good m (executor_execute_device_method env i ''info'' msg m)"
    using assms(1) by (simp add: executor_execute_device_method_def good_def)
  ultimately show ?thesis using assms(4) by auto
qed

lemma subs_attach: "executor_attach X cl i ev m = (method_response X ''subscribe'', directory_attach (i, ev) cl m)"
  by (auto simp: executor_attach_def directory_attach_def attach_event_observer_def change_device_def split: option.split)

lemma subs_detach: "executor_detach X cl i ev m = (method_response X ''unsubscribe'', directory_detach (i, ev) cl m)"
  by (auto simp: executor_detach_def directory_detach_def detach_event_observer_def change_device_def split: option.split)

lemma attach_detach_ok:
  "devmgr_ok m \<Longrightarrow> devmgr_ok (directory_attach t cl m)" "devmgr_ok m \<Longrightarrow> devmgr_ok (directory_detach t cl m)"
  by (auto simp: directory_attach_def directory_detach_def attach_event_observer_def detach_event_observer_def
      change_device_def device_attach_def device_detach_def intro!: devmgr_ok_put split: option.split)
     (auto simp: devmgr_ok_def)

definition subscription_change ::
  "'n libxml \<Rightarrow> u16 \<Rightarrow> string \<Rightarrow> 'n gmsg \<Rightarrow> 'o \<Rightarrow> ((u16 \<times> string) \<times> 'o) set \<Rightarrow> ((u16 \<times> string) \<times> 'o) set" where
  \<comment> \<open>what a method call on an existing device does to the subscriptions\<close>
  "subscription_change X i name msg cl S = (case str_param X msg ''event'' of Inl e \<Rightarrow> S
     | Inr ev \<Rightarrow> if name = ''subscribe'' then insert ((i, ev), cl) S
                else if name = ''unsubscribe'' then S - {((i, ev), cl)} else S)"

lemma adapter_good:
  assumes "devmgr_ok m" and "quiet (ee_node env)" and "msg_node msg \<noteq> None" and "is_device_exist i m"
    and "name \<notin> set antenna_methods"
  shows "\<exists>a mem1 m1. catch_parameters (ee_xml env) mem m (adapter_device_method env cl i name msg mem m) = Inr (a, mem1, m1)
    \<and> devmgr_ok m1 \<and> directory_subs m1 = subscription_change (ee_xml env) i name msg cl (directory_subs m)"
proof -
  let ?X = "ee_xml env"
  let ?r = "adapter_device_method env cl i name msg mem m"
  consider "name \<in> {''methods_list'', ''events_list'', ''registers_list''}" | "name = ''subscribe''" | "name = ''unsubscribe''"
    | "name \<in> {''set_register'', ''get_register'', ''reset'', ''info''}"
    | "name \<notin> {''methods_list'', ''events_list'', ''registers_list''}" "name \<noteq> ''subscribe''" "name \<noteq> ''unsubscribe''"
      "name \<notin> {''set_register'', ''get_register'', ''reset'', ''info''}" by metis
  then show ?thesis
  proof cases
    case 1
    then have "\<exists>a. ?r = Inr (a, mem, m)"
      by (elim insertE emptyE) (simp_all add: adapter_device_method_def Let_def)
    moreover have "subscription_change ?X i name msg cl (directory_subs m) = directory_subs m"
      using 1 by (elim insertE emptyE) (simp_all add: subscription_change_def split: sum.split)
    ultimately show ?thesis using assms(1) by (auto simp: catch_parameters_def)
  next
    case 2
    show ?thesis
    proof (cases "str_param ?X msg ''event''")
      case (Inl e)
      then show ?thesis
        using 2 assms(1) str_param_error [OF assms(3) Inl]
        by (auto simp: adapter_device_method_def Let_def catch_parameters_def subscription_change_def)
    next
      case (Inr ev)
      have "directory_subs (directory_attach (i, ev) cl m) = insert ((i, ev), cl) (directory_subs m)"
        by (rule directory_events.subs_attach_legal) (use assms(4) in \<open>simp add: is_device_exist_def\<close>)
      then show ?thesis
        using 2 Inr attach_detach_ok(1) [OF assms(1)]
        by (simp add: adapter_device_method_def Let_def catch_parameters_def subscription_change_def subs_attach)
    qed
  next
    case 3
    show ?thesis
    proof (cases "str_param ?X msg ''event''")
      case (Inl e)
      then show ?thesis
        using 3 assms(1) str_param_error [OF assms(3) Inl]
        by (auto simp: adapter_device_method_def Let_def catch_parameters_def subscription_change_def)
    next
      case (Inr ev)
      then show ?thesis
        using 3 attach_detach_ok(2) [OF assms(1)] directory_events.subs_detach [of "(i, ev)" cl m]
        by (simp add: adapter_device_method_def Let_def catch_parameters_def subscription_change_def subs_detach)
    qed
  next
    case 4
    have g: "good m (executor_execute_device_method env i name msg m)" by (rule executor_good [OF assms(1-3) 4])
    have s: "subscription_change ?X i name msg cl (directory_subs m) = directory_subs m"
      using 4 by (elim insertE emptyE) (simp_all add: subscription_change_def split: sum.split)
    have "?r = rbind (executor_execute_device_method env i name msg m) (\<lambda>(a, m1). Inr (a, mem, m1))"
      using 4 by (elim insertE emptyE)
        (simp_all add: adapter_device_method_def Let_def has_device_specific_method_def device_methods_list_def)
    then show ?thesis
      using g s assms(1)
      by (cases "executor_execute_device_method env i name msg m") (auto simp: good_def catch_parameters_def)
  next
    case 5
    then have "\<not> has_device_specific_method i name m"
      using assms(5) by (auto simp: has_device_specific_method_def device_methods_list_def dm_specific_methods_def
          with_device_def get_device_specific_methods_def antenna_methods_def split: option.split)
    then show ?thesis
      using 5 assms(1) by (simp add: adapter_device_method_def Let_def catch_parameters_def subscription_change_def split: sum.split)
  qed
qed

subsection \<open>The life of a connection\<close>

definition still :: "('o device \<Rightarrow> 'q \<times> 'a res \<times> 'o device) \<Rightarrow> bool" where
  "still g \<longleftrightarrow> (\<forall>d. dv_observers (snd (snd (g d))) = dv_observers d)"

lemma still_calls:
  "still (set_register_int reg v tmp env)" "still (\<lambda>d. let (q, r, d1) = get_register_int reg env d in ([q], r, d1))"
  "still (\<lambda>d. let (q, r, d1) = on_node (node_reset env) d in ([q], r, d1))"
  "still (execute_device_specific_method name env)"
  by (simp_all add: still_def set_register_int_def get_register_int_def execute_device_specific_method_def on_node_def
      case_prod_beta Let_def split: option.split)

lemma device_call_still: "still g \<Longrightarrow> directory_subs (snd (device_call i dflt g m)) = directory_subs m"
  unfolding still_def device_call_def change_device_def directory_subs_def
  by (cases "map_of (dm_devices m) i") (auto simp: map_of_map_put case_prod_beta Let_def split: if_splits)

lemma executor_still:
  assumes "executor_execute_device_method env i name msg m = Inr (a, m1)"
  shows "directory_subs m1 = directory_subs m"
proof -
  let ?e = "ee_node env"
  note c = device_call_still [OF still_calls(1)] device_call_still [OF still_calls(2)]
    device_call_still [OF still_calls(3)] device_call_still [OF still_calls(4)]
  have s: "directory_subs (snd (set_device_register_int i r v (ee_tmp env) ?e m)) = directory_subs m"
    "directory_subs (snd (get_device_register_int i r ?e m)) = directory_subs m"
    "directory_subs (snd (device_reset i ?e m)) = directory_subs m"
    "directory_subs (snd (dm_execute_specific_method i name ?e m)) = directory_subs m" for r v
    unfolding set_device_register_int_def get_device_register_int_def device_reset_def dm_execute_specific_method_def
    by (rule c)+
  consider "name = ''set_register''" | "name = ''get_register''" | "name = ''reset''" | "name = ''info''"
    | "name \<noteq> ''set_register''" "name \<noteq> ''get_register''" "name \<noteq> ''reset''" "name \<noteq> ''info''" by metis
  then show ?thesis
    using assms s
    by cases (auto simp: executor_execute_device_method_def Let_def case_prod_beta rbind_Inr_iff)
qed

definition remembered :: "'o \<Rightarrow> memento \<Rightarrow> 'o devmgr \<Rightarrow> bool" where
  "remembered cl mem m \<longleftrightarrow> (\<forall>t. (t, cl) \<in> directory_subs m \<longrightarrow> t \<in> set mem)"

lemma adapter_remembers:
  assumes "adapter_execute_device_method env cl msg mem m = Inr (a, mem1, m1)" and "remembered cl mem m"
  shows "remembered cl mem1 m1"
proof -
  obtain i name where "mem1 = mem \<and> m1 = m \<or> (\<exists>a. adapter_device_method env cl i name msg mem m = Inr (a, mem1, m1))"
    using assms(1)
    by (auto simp: adapter_execute_device_method_def Let_def rbind_Inr_iff catch_parameters_def
        split: if_splits sum.splits cxx_error.splits)
  then show ?thesis
  proof (elim disjE exE)
    assume "mem1 = mem \<and> m1 = m"
    then show ?thesis using assms(2) by simp
  next
    fix a assume r: "adapter_device_method env cl i name msg mem m = Inr (a, mem1, m1)"
    consider "name = ''subscribe''" | "name = ''unsubscribe''" | "name \<noteq> ''subscribe''" "name \<noteq> ''unsubscribe''" by metis
    then show ?thesis
    proof cases
      case 1
      then obtain ev where "mem1 = mem @ [(i, ev)]" "m1 = directory_attach (i, ev) cl m"
        using r by (auto simp: adapter_device_method_def Let_def rbind_Inr_iff subs_attach)
      then show ?thesis
        using assms(2) directory_events.subs_attach [of "(i, ev)" cl m] by (fastforce simp: remembered_def)
    next
      case 2
      then obtain ev where "mem1 = removeAll (i, ev) mem" "m1 = directory_detach (i, ev) cl m"
        using r by (auto simp: adapter_device_method_def Let_def rbind_Inr_iff subs_detach)
      then show ?thesis
        using assms(2) directory_events.subs_detach [of "(i, ev)" cl m] by (simp add: remembered_def)
    next
      case 3
      then have "mem1 = mem \<and> directory_subs m1 = directory_subs m"
        using r executor_still [of env i name msg m] by (auto simp: adapter_device_method_def Let_def rbind_Inr_iff split: if_splits)
      then show ?thesis using assms(2) by (simp add: remembered_def)
    qed
  qed
qed

lemma handle_frame_subs:
  assumes "handle_frame dsc X now f m = Inr (out, m1)"
  shows "directory_subs m1 \<subseteq> directory_subs m"
proof -
  have u: "update_device_state X now f d = Inr (es, d1) \<Longrightarrow> dv_observers d1 = dv_observers d" for d es d1
    by (auto simp: update_device_state_def Let_def rbind_Inr_iff split: if_splits)
  have a: "directory_subs (add_device dsc now i ty ver m) \<subseteq> directory_subs m" for i ty ver
    by (auto simp: directory_subs_def add_device_def map_of_map_put Let_def split: option.splits if_splits)
  show ?thesis
  proof (cases "announces f")
    case True
    then have "m1 = add_device dsc now (ucast (source_id f)) (frame_word f 0) (info_version f) m"
      using assms by (auto simp: handle_frame_def announces_def Let_def)
    then show ?thesis using a by simp
  next
    case False
    then show ?thesis
      using assms
      by (auto simp: handle_frame_def announces_def Let_def rbind_Inr_iff directory_subs_def map_of_map_put
          dest!: u split: option.splits if_splits)
  qed
qed

datatype ('o, 'n) conn_op =
    Call "'n ex_env" "'n gmsg" | Bus_frame int h9frame | Other_attach 'o "u16 \<times> string" | Other_detach 'o "u16 \<times> string"
  \<comment> \<open>what can happen while a connection lives: its own calls, frames, the calls of other clients\<close>

fun conn_step ::
  "device_descs \<Rightarrow> 'n libxml \<Rightarrow> 'o::linorder \<Rightarrow> ('o, 'n) conn_op \<Rightarrow> memento \<times> 'o devmgr \<Rightarrow> memento \<times> 'o devmgr" where
  \<comment> \<open>an operation that fails leaves the state as it is\<close>
  "conn_step dsc X cl (Call env msg) (mem, m) = (case adapter_execute_device_method env cl msg mem m of
       Inr (a, mem1, m1) \<Rightarrow> (mem1, m1) | Inl e \<Rightarrow> (mem, m))"
| "conn_step dsc X cl (Bus_frame now f) (mem, m) = (case handle_frame dsc X now f m of
       Inr (out, m1) \<Rightarrow> (mem, m1) | Inl e \<Rightarrow> (mem, m))"
| "conn_step dsc X cl (Other_attach ob t) (mem, m) = (mem, if ob = cl then m else directory_attach t ob m)"
| "conn_step dsc X cl (Other_detach ob t) (mem, m) = (mem, if ob = cl then m else directory_detach t ob m)"

lemma conn_step_remembers:
  assumes "remembered cl mem m" and "conn_step dsc X cl p (mem, m) = (mem1, m1)"
  shows "remembered cl mem1 m1"
proof (cases p)
  case (Call env msg)
  then show ?thesis
    using assms adapter_remembers [of env cl msg mem m] by (auto split: sum.splits prod.splits)
next
  case (Bus_frame now f)
  then show ?thesis
    using assms handle_frame_subs [of dsc X now f m] by (fastforce simp: remembered_def split: sum.splits prod.splits)
next
  case (Other_attach ob t)
  then show ?thesis
    using assms directory_events.subs_attach [of t ob m] by (auto simp: remembered_def split: if_splits)
next
  case (Other_detach ob t)
  then show ?thesis
    using assms directory_events.subs_detach [of t ob m] by (auto simp: remembered_def split: if_splits)
qed

lemma conn_run_remembers:
  "remembered cl mem m \<Longrightarrow> fold (conn_step dsc X cl) ops (mem, m) = (mem1, m1) \<Longrightarrow> remembered cl mem1 m1"
proof (induction ops arbitrary: mem m)
  case (Cons p ops)
  obtain mem2 m2 where s: "conn_step dsc X cl p (mem, m) = (mem2, m2)" by force
  then show ?case using Cons.IH [OF conn_step_remembers [OF Cons.prems(1) s]] Cons.prems(2) by simp
qed simp

lemma device_call_total:
  assumes "xml_laws (ee_xml env)" and "devmgr_ok m" and "quiet (ee_node env)"
    and "get_device_id (ee_xml env) msg = Inr i" and "get_method_name (ee_xml env) msg = Inr name"
    and "get_id (ee_xml env) msg = Inr k" and "name \<notin> set antenna_methods"
  shows "\<exists>a mem1 m1. adapter_execute_device_method env cl msg mem m = Inr (a, mem1, m1)
    \<and> get_request_id (ee_xml env) (answer_msg a) = k \<and> devmgr_ok m1
    \<and> directory_subs m1 = (if executor_is_device_exist i m
        then subscription_change (ee_xml env) i name msg cl (directory_subs m) else directory_subs m)"
proof (cases "executor_is_device_exist i m")
  case True
  have n: "msg_node msg \<noteq> None" using assms(5) by (auto simp: get_method_name_def msg_prop_def split: option.splits)
  obtain a mem1 m1 where r: "catch_parameters (ee_xml env) mem m (adapter_device_method env cl i name msg mem m) = Inr (a, mem1, m1)"
    "devmgr_ok m1" "directory_subs m1 = subscription_change (ee_xml env) i name msg cl (directory_subs m)"
    using adapter_good [OF assms(2,3) n _ assms(7)] True unfolding executor_is_device_exist_def by blast
  then show ?thesis
    using True assms(1,4-6)
    by (cases a) (simp add: adapter_execute_device_method_def with_request_id_def Let_def)
next
  case False
  then show ?thesis
    using assms by (simp add: adapter_execute_device_method_def with_request_id_def Let_def)
qed

subsection \<open>Properties\<close>


text \<open>
  The methods of an antenna switch do not work: \<open>select_antenna\<close> always runs into the failing
  assertion and stops the daemon, and so does \<open>get_selected_antenna\<close> unless the node answers with
  exactly one byte; then the answer is sent without the value that was read.
\<close>

theorem antenna_methods_fail:
  assumes "devmgr_ok m" and "map_of (dm_devices m) i = Some d" and "dv_antenna d" and "unat i < 511"
    and "quiet (ee_node env)" and "get_device_id (ee_xml env) msg = Inr i"
    and "get_method_name (ee_xml env) msg = Inr name" and "get_id (ee_xml env) msg = Inr k"
    and "name \<in> set antenna_methods"
  shows "(case adapter_execute_device_method env cl msg mem m of
      Inl e \<Rightarrow> e = Assertion_failed
    | Inr (a, mem1, m1) \<Rightarrow> name = ''get_selected_antenna'' \<and>
        answer_msg a = set_request_id (ee_xml env) k (device_method_response (ee_xml env) i name))"
proof -
  let ?X = "ee_xml env" and ?e = "ee_node env"
  have n: "name = ''select_antenna'' \<or> name = ''get_selected_antenna''"
    using assms(9) by (auto simp: antenna_methods_def)
  have e: "executor_is_device_exist i m"
    using assms(2,4) by (simp add: executor_is_device_exist_def is_device_exist_def BROADCAST_ID_def)
  have h: "has_device_specific_method i name m"
    using assms(2,3,9) by (simp add: has_device_specific_method_def device_methods_list_def dm_specific_methods_def
        with_device_def get_device_specific_methods_def antenna_methods_def)
  obtain qs r m1 where r: "dm_execute_specific_method i name ?e m = ((qs, r), m1)" by (metis prod.collapse)
  have rr: "r = Inl Assertion_failed \<or> name = ''get_selected_antenna'' \<and> (\<exists>v. r = Inr v)"
  proof -
    have "node_ok (dv_node d)" using assms(1,2) by (auto simp: devmgr_ok_def)
    then obtain x where "fst (snd (get_raw_reg 10 8 ?e (dv_node d))) = Inr x" using quiet_calls(1) [OF assms(5)] by blast
    then show ?thesis
      using r n assms(2)
      by (auto simp: dm_execute_specific_method_def device_call_def change_device_def execute_device_specific_method_def
          get_register_int_def on_node_def case_prod_beta Let_def split: option.splits if_splits)
  qed
  have "adapter_device_method env cl i name msg mem m
      = rbind r (\<lambda>_. Inr (Answer (device_method_response ?X i name) qs, mem, m1))"
    using n h r by (elim disjE) (simp_all add: adapter_device_method_def Let_def executor_execute_device_method_def rbind_def
        split: sum.split)
  then show ?thesis
    using rr e assms(6-8)
    by (auto simp: adapter_execute_device_method_def catch_parameters_def with_request_id_def Let_def)
qed

text \<open>
  A closed connection leaves nothing behind: whatever its client has subscribed and
  unsubscribed, in whatever order with frames of the bus (which may replace devices) and with the
  calls of others, after \<open>cleanup_connection\<close> no device holds a pointer to the client, and the
  subscriptions of the others are as before.
\<close>

theorem cleanup_forgets:
  assumes "\<forall>t. (t, cl) \<notin> directory_subs m0" and "fold (conn_step dsc X cl) ops ([], m0) = (mem, m)"
  shows "(t, cl) \<notin> directory_subs (cleanup_connection cl mem m) \<and>
    (ob \<noteq> cl \<longrightarrow> ((t, ob) \<in> directory_subs (cleanup_connection cl mem m) \<longleftrightarrow> (t, ob) \<in> directory_subs m))"
proof -
  have "remembered cl mem m"
    by (rule conn_run_remembers [OF _ assms(2)]) (use assms(1) in \<open>simp add: remembered_def\<close>)
  then have "{t. (t, cl) \<in> directory_subs m} \<subseteq> set mem" by (auto simp: remembered_def)
  then show ?thesis
    using directory_events.detach_all_gone [of cl m mem t] directory_events.detach_all_others [of ob cl t mem m]
    by (simp add: cleanup_connection_def)
qed

subsection \<open>Witnesses\<close>

definition sample_ex_env :: "(int \<times> h9frame) list \<Rightarrow> xtree ex_env" where
  "sample_ex_env evs = \<lparr>ee_xml = xtree_ops, ee_version = ''0.3'', ee_uptime = 60, ee_clients = 1,
     ee_node = sample_node_env evs, ee_tmp = [0, 0, 0, 0], ee_time = (\<lambda>_. ''now'')\<rparr>"

definition sample_devmgr :: "u16 \<Rightarrow> nat devmgr" where
  \<comment> \<open>device 16 of a given type\<close>
  "sample_devmgr ty = add_device [] 0 16 ty 1 new_devmgr"

lemma sample_devmgr_ok: "devmgr_ok (sample_devmgr ty)"
  unfolding sample_devmgr_def using add_device_ok [OF new_devmgr_ok(1)] by blast

definition sample_device_call :: "string \<Rightarrow> xtree gmsg" where
  \<comment> \<open>an \<open>execute\<close> element with a device number, as a client of h9d writes it\<close>
  "sample_device_call name = with_node (\<lambda>n. xset_prop xtree_ops n ''device-id'' (dec_string 16))
     (set_method_name xtree_ops name (get_msg xtree_ops EXECUTEDEVICEMETHOD))"

definition sample_call :: "string \<Rightarrow> xtree gmsg" where
  \<comment> \<open>message 31: a call of a method of device 16 with an event\<close>
  "sample_call name = set_id xtree_ops 31 (add_value xtree_ops ''event'' ''register_change''
     (sample_device_call name))"

lemma sample_call_parts:
  "get_device_id xtree_ops (sample_call name) = Inr 16" "get_method_name xtree_ops (sample_call name) = Inr name"
  "get_id xtree_ops (sample_call name) = Inr 31"
  "str_param xtree_ops (sample_call name) ''event'' = Inr ''register_change''"
proof -
  have i: "strtoull 10 (dec_string 31) = (31 :: u64)" using strtoull_dec_string [of "31 :: u64"] by simp
  have d: "strtol 10 (dec_string 16) = 16" by simp
  note defs = sample_call_def add_value_def dict_add_value_def sample_device_call_def set_method_name_def
    get_device_id_def get_method_name_def get_id_def set_id_def msg_prop_def str_param_def msg_value_def value_at_def
    get_value_as_str_def
  show "get_device_id xtree_ops (sample_call name) = Inr 16" "get_method_name xtree_ops (sample_call name) = Inr name"
    "get_id xtree_ops (sample_call name) = Inr 31"
    "str_param xtree_ops (sample_call name) ''event'' = Inr ''register_change''"
    by (simp_all add: defs xtree_laws i d)
qed

lemma sample_quiet: "quiet (ee_node (sample_ex_env []))"
  by (simp add: quiet_def in_time_def sample_ex_env_def sample_node_env_def)


theorem antenna_methods_fail_witness:
  "adapter_execute_device_method (sample_ex_env []) 8 (sample_call ''select_antenna'') [] (sample_devmgr 5) = Inl Assertion_failed"
proof -
  have x: "ee_xml (sample_ex_env []) = xtree_ops" by (simp add: sample_ex_env_def)
  obtain d where d: "map_of (dm_devices (sample_devmgr 5)) 16 = Some d" "dv_antenna d"
    by (simp add: sample_devmgr_def add_device_def new_devmgr_def build_device_def new_antenna_switch_def)
  show ?thesis
    using antenna_methods_fail [OF sample_devmgr_ok d, of "sample_ex_env []" "sample_call ''select_antenna''" "''select_antenna''" 31 8 "[]"]
      sample_quiet sample_call_parts [of "''select_antenna''"]
    by (auto simp: x antenna_methods_def split: sum.splits)
qed

theorem cleanup_forgets_witness:
  "(let (mem, m) = fold (conn_step [] xtree_ops 8) [Call (sample_ex_env []) (sample_call ''subscribe''),
      Other_attach 9 (16, ''register_change'')] ([], sample_devmgr 7)
    in mem = [(16, ''register_change'')] \<and> directory_subs (cleanup_connection 8 mem m) = {((16, ''register_change''), 9)})"
proof -
  let ?t = "(16 :: u16, ''register_change'')"
  let ?ops = "[Call (sample_ex_env []) (sample_call ''subscribe''), Other_attach 9 ?t]"
  let ?m1 = "directory_attach ?t 8 (sample_devmgr 7)" and ?m = "directory_attach ?t 9 (directory_attach ?t 8 (sample_devmgr 7))"
  have e: "executor_is_device_exist 16 (sample_devmgr 7)"
    by (simp add: executor_is_device_exist_def is_device_exist_def sample_devmgr_def add_device_def new_devmgr_def BROADCAST_ID_def)
  have s: "directory_subs (sample_devmgr 7) = {}"
    by (auto simp: directory_subs_def sample_devmgr_def add_device_def new_devmgr_def)
  have x: "ee_xml (sample_ex_env []) = xtree_ops" by (simp add: sample_ex_env_def)
  have l: "map_of (dm_devices (sample_devmgr 7)) 16 \<noteq> None" "map_of (dm_devices ?m1) 16 \<noteq> None"
    by (simp_all add: sample_devmgr_def add_device_def new_devmgr_def directory_attach_def attach_event_observer_def
        change_device_def)
  have run: "fold (conn_step [] xtree_ops 8) ?ops ([], sample_devmgr 7) = ([?t], ?m)"
    by (simp add: adapter_execute_device_method_def adapter_device_method_def x sample_call_parts e
        catch_parameters_def with_request_id_def subs_attach)
  have "directory_subs ?m = {(?t, 9), (?t, 8)}"
    using directory_events.subs_attach_legal [where t = ?t and ob = 8 and r = "sample_devmgr 7"]
      directory_events.subs_attach_legal [where t = ?t and ob = 9 and r = ?m1] l s by simp
  moreover have "(t, 8) \<notin> directory_subs (cleanup_connection 8 [?t] ?m) \<and> (ob \<noteq> 8 \<longrightarrow>
      ((t, ob) \<in> directory_subs (cleanup_connection 8 [?t] ?m) \<longleftrightarrow> (t, ob) \<in> directory_subs ?m))" for t ob
    by (rule cleanup_forgets [OF _ run]) (simp add: s)
  ultimately have "p \<in> directory_subs (cleanup_connection 8 [?t] ?m) \<longleftrightarrow> p = (?t, 9)" for p
    by (cases p, case_tac "b = 8") auto
  then show ?thesis using run by auto
qed

end
