(* ===== verification/H9_Client.thy ===== *)
theory H9_Client
  imports H9_Prelude
begin

text \<open>
  The threads of the h9d daemon: \<open>h9d/tcpclientthread\<close> (the queue of messages for a client, filled by
  other threads and emptied by the client's own), the list of clients of \<open>h9d/tcpserver\<close>, and
  \<open>h9d/sharedmutex\<close>. A step is a section under a mutex or a call that other threads can observe.
  The edge-triggered event of \<open>h9d/epoll\<close> is a flag that a trigger sets and a wait clears.
\<close>

subsection \<open>The queue of a client\<close>

datatype 'm phase = Waiting | Draining | Sending 'm bool | Ended
  \<comment> \<open>in \<open>event.wait()\<close>; at the top of the loop of \<open>thread_send_async_msg\<close>; in \<open>send\<close> with the
      local \<open>queue_empty\<close>; after the loop of \<open>thread\<close>\<close>

record 'm client_thread =
  ct_queue :: "'m list"
  ct_event :: bool
  ct_phase :: "'m phase"
  ct_running :: bool
  ct_tried :: "('m \<times> bool) list"
    \<comment> \<open>the messages given to \<open>send\<close>, with its success\<close>
  ct_pushed :: "'m list"
    \<comment> \<open>the messages given to \<open>send_msg\<close>\<close>
  ct_error :: "cxx_error option"

definition new_client_thread :: "'m client_thread" where
  "new_client_thread = \<lparr>ct_queue = [], ct_event = False, ct_phase = Waiting, ct_running = True,
     ct_tried = [], ct_pushed = [], ct_error = None\<rparr>"

definition send_msg :: "'m \<Rightarrow> 'm client_thread \<Rightarrow> 'm client_thread" where
  "send_msg m s = s\<lparr>ct_queue := ct_queue s @ [m], ct_pushed := ct_pushed s @ [m],
     ct_event := (ct_event s \<or> length (ct_queue s @ [m]) = 1)\<rparr>"

definition take_event :: "'m client_thread \<Rightarrow> 'm client_thread" where
  "take_event s = s\<lparr>ct_event := False, ct_phase := Draining\<rparr>"

definition pop_async_msg :: "'m client_thread \<Rightarrow> 'm client_thread" where
  "pop_async_msg s = (case ct_queue s of [] \<Rightarrow> s\<lparr>ct_error := Some Assertion_failed\<rparr>
     | m # q \<Rightarrow> s\<lparr>ct_queue := q, ct_phase := Sending m (q = [])\<rparr>)"

definition async_sent :: "int \<Rightarrow> 'm \<Rightarrow> bool \<Rightarrow> 'm client_thread \<Rightarrow> 'm client_thread" where
  \<comment> \<open>\<open>send\<close> with the result of the socket: an exception leaves the function of the thread\<close>
  "async_sent res m e s =
     (if res < 0 then s\<lparr>ct_error := Some Terminate\<rparr>
      else s\<lparr>ct_tried := ct_tried s @ [(m, res \<noteq> 0)], ct_running := (ct_running s \<and> res \<noteq> 0),
             ct_phase := (if e then Waiting else Draining)\<rparr>)"

definition stop_running :: "'m client_thread \<Rightarrow> 'm client_thread" where
  \<comment> \<open>\<open>close_connection\<close>, or the end of the stream in \<open>thread_recv_msg\<close>\<close>
  "stop_running s = s\<lparr>ct_running := False\<rparr>"

inductive client_step :: "'m client_thread \<Rightarrow> 'm client_thread \<Rightarrow> bool" where
  push: "client_step s (send_msg m s)"
| wake: "ct_error s = None \<Longrightarrow> ct_phase s = Waiting \<Longrightarrow> ct_event s \<Longrightarrow> client_step s (take_event s)"
    \<comment> \<open>also after \<open>running\<close> was cleared, when the thread was in \<open>wait\<close> already\<close>
| pop: "ct_error s = None \<Longrightarrow> ct_phase s = Draining \<Longrightarrow> client_step s (pop_async_msg s)"
| sent: "ct_error s = None \<Longrightarrow> ct_phase s = Sending m e \<Longrightarrow> client_step s (async_sent res m e s)"
| stop: "client_step s (stop_running s)"
| leave: "ct_error s = None \<Longrightarrow> ct_phase s = Waiting \<Longrightarrow> \<not> ct_running s \<Longrightarrow> client_step s (s\<lparr>ct_phase := Ended\<rparr>)"

inductive_cases client_stepE: "client_step s t"

fun in_send :: "'m phase \<Rightarrow> 'm list" where
  "in_send (Sending m e) = [m]" | "in_send Waiting = []" | "in_send Draining = []" | "in_send Ended = []"

definition queue_ok :: "'m client_thread \<Rightarrow> bool" where
  "queue_ok s \<longleftrightarrow> ct_error s \<noteq> Some Assertion_failed \<and>
     ct_pushed s = map fst (ct_tried s) @ in_send (ct_phase s) @ ct_queue s \<and>
     (case ct_phase s of Draining \<Rightarrow> ct_queue s \<noteq> [] \<and> \<not> ct_event s
        | Sending m e \<Rightarrow> if e then ct_event s = (ct_queue s \<noteq> []) else ct_queue s \<noteq> [] \<and> \<not> ct_event s
        | _ \<Rightarrow> ct_event s = (ct_queue s \<noteq> []))"

interpretation clients: step_system "\<lambda>s. s = new_client_thread" client_step queue_ok
proof
  show "s = new_client_thread \<Longrightarrow> queue_ok s" for s :: "'m client_thread"
    by (simp add: queue_ok_def new_client_thread_def)
  show "queue_ok s \<Longrightarrow> client_step s t \<Longrightarrow> queue_ok t" for s t :: "'m client_thread"
    by (erule client_stepE)
       (auto simp: queue_ok_def send_msg_def take_event_def pop_async_msg_def async_sent_def stop_running_def
        split: phase.splits list.splits if_splits)
qed

lemma queue_always_ok: "client_step\<^sup>*\<^sup>* new_client_thread s \<Longrightarrow> queue_ok s"
  by (rule clients.reachable_inv [OF refl])

text \<open>
  C28. The queue of messages for a client: in every state that any interleaving of \<open>send_msg\<close> calls of
  other threads, closures and the client's own steps can reach, the messages pushed are exactly those
  given to the socket, in this order, the one in \<open>send\<close>, and those still queued: nothing is lost,
  duplicated or reordered. The assertion that the queue is not empty never fails, and a thread that
  waits while messages are queued has its event pending: no wake-up is lost.
\<close>

theorem async_queue:
  assumes "client_step\<^sup>*\<^sup>* new_client_thread s"
  shows "ct_pushed s = map fst (ct_tried s) @ in_send (ct_phase s) @ ct_queue s \<and>
    ct_error s \<noteq> Some Assertion_failed \<and>
    (ct_phase s = Waiting \<and> ct_queue s \<noteq> [] \<longrightarrow> ct_event s)"
  using queue_always_ok [OF assms] by (auto simp: queue_ok_def)

lemma sample_client_steps:
  "client_step\<^sup>*\<^sup>* new_client_thread
     (pop_async_msg (send_msg (3::nat) (take_event (send_msg 2 new_client_thread))))"
proof -
  have 1: "client_step new_client_thread (send_msg 2 (new_client_thread :: nat client_thread))"
    by (rule client_step.push)
  have 2: "client_step (send_msg 2 new_client_thread) (take_event (send_msg 2 (new_client_thread :: nat client_thread)))"
    by (rule client_step.wake) (simp_all add: new_client_thread_def send_msg_def)
  have 3: "client_step (take_event (send_msg 2 new_client_thread))
      (send_msg 3 (take_event (send_msg 2 (new_client_thread :: nat client_thread))))"
    by (rule client_step.push)
  have 4: "client_step (send_msg 3 (take_event (send_msg 2 new_client_thread)))
      (pop_async_msg (send_msg 3 (take_event (send_msg 2 (new_client_thread :: nat client_thread)))))"
    by (rule client_step.pop) (simp_all add: new_client_thread_def send_msg_def take_event_def)
  show ?thesis
    by (rule converse_rtranclp_into_rtranclp [of client_step, OF 1], rule converse_rtranclp_into_rtranclp [of client_step, OF 2],
        rule converse_rtranclp_into_rtranclp [of client_step, OF 3], rule r_into_rtranclp [of client_step, OF 4])
qed

theorem async_queue_witness:
  "(let s = pop_async_msg (send_msg (3::nat) (take_event (send_msg 2 new_client_thread)))
    in ct_pushed s = map fst (ct_tried s) @ in_send (ct_phase s) @ ct_queue s \<and> ct_pushed s = [2, 3] \<and>
       ct_error s \<noteq> Some Assertion_failed)"
  unfolding Let_def
  by (use async_queue [OF sample_client_steps] in
      \<open>simp add: new_client_thread_def send_msg_def take_event_def pop_async_msg_def\<close>)

subsection \<open>The list of clients\<close>

record tcp_server =
  sv_clients :: "(nat \<times> bool) list"
    \<comment> \<open>\<open>tcpclientthread_list\<close> with \<open>thread_running\<close> of each\<close>
  sv_event :: bool

definition server_accept :: "nat \<Rightarrow> tcp_server \<Rightarrow> tcp_server" where
  "server_accept k s = s\<lparr>sv_clients := sv_clients s @ [(k, True)]\<rparr>"

definition cleanup_tcpclientthread :: "tcp_server \<Rightarrow> tcp_server" where
  "cleanup_tcpclientthread s = s\<lparr>sv_event := True\<rparr>"

definition thread_ends :: "nat \<Rightarrow> tcp_server \<Rightarrow> tcp_server" where
  \<comment> \<open>\<open>thread_running = false\<close>, the last statement of a thread\<close>
  "thread_ends k s = s\<lparr>sv_clients := map (\<lambda>(j, r). (j, if j = k then False else r)) (sv_clients s)\<rparr>"

definition server_collect :: "tcp_server \<Rightarrow> tcp_server" where
  \<comment> \<open>the branch of \<open>run\<close> for the asynchronous event\<close>
  "server_collect s = s\<lparr>sv_event := False, sv_clients := filter snd (sv_clients s)\<rparr>"

definition server_clients_count :: "tcp_server \<Rightarrow> nat" where
  "server_clients_count s = length (sv_clients s)"

lemma finished_client_stays:
  \<comment> \<open>the event comes before the flag is cleared: a server that is faster finds the client running,
      and nothing wakes it up again\<close>
  "(let s = thread_ends k (server_collect (cleanup_tcpclientthread (server_accept k \<lparr>sv_clients = [], sv_event = False\<rparr>)))
    in sv_clients s = [(k, False)] \<and> \<not> sv_event s)"
  by (simp add: thread_ends_def server_collect_def cleanup_tcpclientthread_def server_accept_def)

subsection \<open>SharedMutex\<close>

datatype holder = Outside | Lock_waits | Writing | Lock_shared_waits | Reading
  \<comment> \<open>where a thread is; the two waits hold \<open>main_lock_mtx\<close>\<close>

record shared_mutex =
  sm_main_lock :: bool
  sm_owner :: "nat option"
    \<comment> \<open>the thread that holds \<open>main_lock_mtx\<close>\<close>
  sm_counter :: int
  sm_holders :: "nat \<Rightarrow> holder"

definition new_shared_mutex :: shared_mutex where
  "new_shared_mutex = \<lparr>sm_main_lock = False, sm_owner = None, sm_counter = 0, sm_holders = (\<lambda>_. Outside)\<rparr>"

definition goes :: "nat \<Rightarrow> holder \<Rightarrow> shared_mutex \<Rightarrow> shared_mutex" where
  "goes t h s = s\<lparr>sm_holders := (sm_holders s)(t := h)\<rparr>"

inductive mutex_step :: "shared_mutex \<Rightarrow> shared_mutex \<Rightarrow> bool" where
  lock_begin: "sm_holders s t = Outside \<Longrightarrow> sm_owner s = None \<Longrightarrow>
    mutex_step s (goes t Lock_waits (s\<lparr>sm_owner := Some t, sm_main_lock := True\<rparr>))"
| lock_end: "sm_holders s t = Lock_waits \<Longrightarrow> sm_counter s = 0 \<Longrightarrow> mutex_step s (goes t Writing s)"
| unlock: "sm_holders s t = Writing \<Longrightarrow>
    mutex_step s (goes t Outside (s\<lparr>sm_main_lock := False, sm_owner := None\<rparr>))"
| lock_shared_begin: "sm_holders s t = Outside \<Longrightarrow> sm_owner s = None \<Longrightarrow>
    mutex_step s (goes t Lock_shared_waits (s\<lparr>sm_owner := Some t\<rparr>))"
| lock_shared_end: "sm_holders s t = Lock_shared_waits \<Longrightarrow> \<not> sm_main_lock s \<Longrightarrow>
    mutex_step s (goes t Reading (s\<lparr>sm_owner := None, sm_counter := sm_counter s + 1\<rparr>))"
| unlock_shared: "sm_holders s t = Reading \<Longrightarrow>
    mutex_step s (goes t Outside (s\<lparr>sm_counter := sm_counter s - 1\<rparr>))"

inductive_cases mutex_stepE: "mutex_step s u"

definition readers :: "shared_mutex \<Rightarrow> nat set" where
  "readers s = {t. sm_holders s t = Reading}"

lemma readers_goes:
  "readers (goes t h s) = (if h = Reading then insert t (readers s) else readers s - {t})"
  by (auto simp: readers_def goes_def)

lemma readers_record [simp]:
  "readers (s\<lparr>sm_main_lock := a\<rparr>) = readers s" "readers (s\<lparr>sm_owner := ow\<rparr>) = readers s"
  "readers (s\<lparr>sm_counter := c\<rparr>) = readers s"
  by (simp_all add: readers_def)

lemma readers_goes_other:
  "sm_holders s t \<noteq> Reading \<Longrightarrow> h \<noteq> Reading \<Longrightarrow> readers (goes t h s) = readers s"
  by (auto simp: readers_def goes_def)

lemma holders_goes [simp]: "sm_holders (goes t h s) = (sm_holders s)(t := h)" "sm_counter (goes t h s) = sm_counter s"
  by (simp_all add: goes_def)

definition waits_ok :: "shared_mutex \<Rightarrow> bool" where
  \<comment> \<open>without the counter\<close>
  "waits_ok s \<longleftrightarrow>
     (\<forall>t. sm_owner s = Some t \<longleftrightarrow> sm_holders s t \<in> {Lock_waits, Writing, Lock_shared_waits}) \<and>
     (sm_main_lock s \<longleftrightarrow> (\<exists>t. sm_holders s t \<in> {Lock_waits, Writing}))"

definition counter_ok :: "shared_mutex \<Rightarrow> bool" where
  "counter_ok s \<longleftrightarrow> finite (readers s) \<and> sm_counter s = int (card (readers s)) \<and>
     (\<forall>t. sm_holders s t = Writing \<longrightarrow> sm_counter s = 0)"

lemma waits_ok_owner:
  "waits_ok s \<Longrightarrow> sm_holders s t \<in> {Lock_waits, Writing, Lock_shared_waits} \<Longrightarrow>
   sm_holders s u \<in> {Lock_waits, Writing, Lock_shared_waits} \<Longrightarrow> t = u"
  unfolding waits_ok_def by (metis option.inject)

lemma waits_ok_lock:
  assumes "waits_ok s" and "sm_holders s t = Lock_shared_waits"
  shows "\<not> sm_main_lock s"
proof
  assume "sm_main_lock s"
  then obtain u where "sm_holders s u \<in> {Lock_waits, Writing}" using assms(1) by (auto simp: waits_ok_def)
  with waits_ok_owner [OF assms(1), of t u] assms(2) show False by auto
qed

lemma waits_ok_step:
  assumes "mutex_step s u" and ok: "waits_ok s"
  shows "waits_ok u"
  using assms(1)
proof cases
  case (lock_begin t)
  then show ?thesis using ok by (auto simp: waits_ok_def goes_def)
next
  case (lock_end t)
  then show ?thesis using ok by (auto simp: waits_ok_def goes_def)
next
  case (unlock t)
  then have "sm_owner s = Some t" "\<And>v. sm_holders s v \<in> {Lock_waits, Writing, Lock_shared_waits} \<Longrightarrow> v = t"
    using ok waits_ok_owner [OF ok, of t] by (auto simp: waits_ok_def)
  then show ?thesis using unlock by (auto simp: waits_ok_def goes_def)
next
  case (lock_shared_begin t)
  then show ?thesis using ok by (auto simp: waits_ok_def goes_def)
next
  case (lock_shared_end t)
  have "v = t" if "sm_holders s v \<in> {Lock_waits, Writing, Lock_shared_waits}" for v
    using waits_ok_owner [OF ok, of v t] lock_shared_end(2) that by simp
  then have "sm_holders u v \<notin> {Lock_waits, Writing, Lock_shared_waits}" for v
    using lock_shared_end(1) by (cases "v = t") (auto simp: goes_def)
  then show ?thesis using lock_shared_end(1,3) by (simp add: waits_ok_def goes_def)
next
  case (unlock_shared t)
  then have "sm_holders u v \<in> H \<longleftrightarrow> sm_holders s v \<in> H" if "H \<subseteq> {Lock_waits, Writing, Lock_shared_waits}" for v H
    using that by (cases "v = t") (auto simp: goes_def)
  from this [of "{Lock_waits, Writing, Lock_shared_waits}"] this [of "{Lock_waits, Writing}"] ok show ?thesis
    using unlock_shared(1) by (simp add: waits_ok_def) (simp add: goes_def)
qed

lemma counter_ok_step:
  assumes "mutex_step s u" and ok: "counter_ok s" and w: "waits_ok s"
  shows "counter_ok u"
  using assms(1)
proof cases
  case (lock_shared_end t)
  have no: "sm_holders s v \<noteq> Writing" for v
    using waits_ok_owner [OF w, of t v] lock_shared_end(2) by auto
  have "t \<notin> readers s" using lock_shared_end(2) by (simp add: readers_def)
  then show ?thesis using lock_shared_end ok no by (auto simp: counter_ok_def readers_goes split: if_splits)
next
  case (unlock_shared t)
  have t: "t \<in> readers s" and f: "finite (readers s)" using unlock_shared(2) ok by (simp_all add: readers_def counter_ok_def)
  then have "card (readers s) > 0" by (auto simp: card_gt_0_iff)
  moreover have "\<And>v. sm_holders s v = Writing \<Longrightarrow> False" using ok calculation by (auto simp: counter_ok_def)
  ultimately show ?thesis using unlock_shared ok t f
    by (auto simp: counter_ok_def readers_goes card_Diff_singleton of_nat_diff split: if_splits)
qed (use ok in \<open>auto simp: counter_ok_def readers_goes_other split: if_splits\<close>)

interpretation mutex: step_system "\<lambda>s. s = new_shared_mutex" mutex_step "\<lambda>s. waits_ok s \<and> counter_ok s"
proof
  show "s = new_shared_mutex \<Longrightarrow> waits_ok s \<and> counter_ok s" for s
    by (simp add: waits_ok_def counter_ok_def new_shared_mutex_def readers_def)
  show "waits_ok s \<and> counter_ok s \<Longrightarrow> mutex_step s u \<Longrightarrow> waits_ok u \<and> counter_ok u" for s u
    using waits_ok_step counter_ok_step by blast
qed

lemma mutex_always_ok: "mutex_step\<^sup>*\<^sup>* new_shared_mutex s \<Longrightarrow> waits_ok s \<and> counter_ok s"
  by (rule mutex.reachable_inv [OF refl])

text \<open>
  \<open>SharedMutex\<close> excludes: in every reachable state at most one thread writes, no thread reads
  while one writes, and the counter is the number of readers. It does not get stuck: a thread that
  waits in \<open>lock_shared\<close> finds the main lock clear, and one that waits in \<open>lock\<close> goes on as soon as
  nobody reads.
\<close>

theorem shared_mutex_exclusion:
  assumes "mutex_step\<^sup>*\<^sup>* new_shared_mutex s"
  shows "(sm_holders s t = Writing \<and> sm_holders s u \<in> {Writing, Reading} \<longrightarrow> t = u) \<and>
    finite (readers s) \<and> sm_counter s = int (card (readers s)) \<and>
    (sm_holders s t = Lock_shared_waits \<longrightarrow> mutex_step s (goes t Reading (s\<lparr>sm_owner := None, sm_counter := sm_counter s + 1\<rparr>))) \<and>
    (sm_holders s t = Lock_waits \<and> readers s = {} \<longrightarrow> mutex_step s (goes t Writing s))"
proof -
  have w: "waits_ok s" and c: "counter_ok s" using mutex_always_ok [OF assms] by simp_all
  have "sm_holders s u \<noteq> Reading" if "sm_holders s t = Writing"
    using c that by (auto simp: counter_ok_def readers_def card_eq_0_iff)
  moreover have "t = u" if "sm_holders s t = Writing" "sm_holders s u = Writing"
    using waits_ok_owner [OF w, of t u] that by simp
  moreover have "mutex_step s (goes t Reading (s\<lparr>sm_owner := None, sm_counter := sm_counter s + 1\<rparr>))"
    if "sm_holders s t = Lock_shared_waits"
    using waits_ok_lock [OF w that] that by (rule mutex_step.lock_shared_end [rotated])
  moreover have "mutex_step s (goes t Writing s)" if "sm_holders s t = Lock_waits" "readers s = {}"
    using c that by (intro mutex_step.lock_end) (simp_all add: counter_ok_def)
  ultimately show ?thesis using c by (auto simp: counter_ok_def)
qed

lemma sample_mutex_steps:
  "mutex_step\<^sup>*\<^sup>* new_shared_mutex
     (goes 1 Writing (goes 1 Lock_waits (new_shared_mutex\<lparr>sm_owner := Some 1, sm_main_lock := True\<rparr>)))"
proof -
  let ?l = "goes 1 Lock_waits (new_shared_mutex\<lparr>sm_owner := Some 1, sm_main_lock := True\<rparr>)"
  have 1: "mutex_step new_shared_mutex ?l"
    by (rule mutex_step.lock_begin) (simp_all add: new_shared_mutex_def)
  have 2: "mutex_step ?l (goes 1 Writing ?l)"
    by (rule mutex_step.lock_end) (simp_all add: new_shared_mutex_def)
  show ?thesis by (rule converse_rtranclp_into_rtranclp [of mutex_step, OF 1], rule r_into_rtranclp [of mutex_step, OF 2])
qed

theorem shared_mutex_exclusion_witness:
  "(let s = goes 1 Writing (goes 1 Lock_waits (new_shared_mutex\<lparr>sm_owner := Some 1, sm_main_lock := True\<rparr>))
    in sm_holders s 1 = Writing \<and> sm_counter s = int (card (readers s)) \<and> sm_holders s 2 \<notin> {Writing, Reading})"
  unfolding Let_def
  using shared_mutex_exclusion [OF sample_mutex_steps, of 1 2] by simp

end
