(* ===== verification/H9_Fwu.thy ===== *)
theory H9_Fwu
  imports H9_Frame
begin

text \<open>
  \<open>h9fwu/h9fwu.cc\<close>, the firmware uploader: reading of Intel HEX files, with a reference loader,
  and the dialogue with the boot loader as a machine driven by the frames received. The lines of
  the file and the frames are inputs. The buffer of 128 kB is a function of the address; an access
  outside it, or past the end of a line, is \<open>Undefined_behaviour\<close>.
\<close>

subsection \<open>Intel HEX\<close>

definition hex_nibble :: "char \<Rightarrow> u8" where
  \<comment> \<open>the conversion of one character, cut to four bits; any other character keeps its code\<close>
  "hex_nibble c = (let k = (of_char c :: nat); n = (of_nat k :: u8) in
     (if 48 \<le> k \<and> k \<le> 57 then n - 48
      else if 97 \<le> k \<and> k \<le> 102 then n - 97 + 10
      else if 65 \<le> k \<and> k \<le> 70 then n - 65 + 10
      else n) AND 0xf)"

fun hex2bin_loop :: "nat \<Rightarrow> u8 \<Rightarrow> string \<Rightarrow> u8" where
  "hex2bin_loop 0 v s = v"
| "hex2bin_loop (Suc n) v [] = v"
| "hex2bin_loop (Suc n) v (c # s) =
     (if c = CHR 0x00 then v else hex2bin_loop n (push_bit 4 v OR hex_nibble c) s)"

definition hex2bin :: "string \<Rightarrow> u8" where
  "hex2bin s = hex2bin_loop 2 0 s"

definition line_byte :: "string \<Rightarrow> nat \<Rightarrow> u8 res" where
  \<comment> \<open>\<open>hex2bin(line + p)\<close>; the terminator of the line is at its length\<close>
  "line_byte s p = (if p \<le> length s then Inr (hex2bin (drop p s)) else Inl Undefined_behaviour)"

definition FW_CAPACITY :: nat where "FW_CAPACITY = 128 * 1024"

record fw_image =
  im_mem :: "nat \<Rightarrow> u8"
  im_len :: nat
  im_ext :: u32

definition empty_image :: fw_image where
  "empty_image = \<lparr>im_mem = (\<lambda>_. 0xff), im_len = 0, im_ext = 0\<rparr>"

definition put_byte :: "u8 \<Rightarrow> fw_image \<Rightarrow> fw_image res" where
  \<comment> \<open>\<open>(*fw_data)[data_length++] = tmp\<close>\<close>
  "put_byte b s = (if im_len s < FW_CAPACITY
     then Inr (s\<lparr>im_mem := (im_mem s)(im_len s := b), im_len := im_len s + 1\<rparr>) else Inl Undefined_behaviour)"

fun read_bytes :: "string \<Rightarrow> nat \<Rightarrow> nat \<Rightarrow> u8 \<Rightarrow> fw_image \<Rightarrow> (nat \<times> u8 \<times> fw_image) res" where
  \<comment> \<open>the loop over the data of a record: bytes left, \<open>n\<close>, \<open>tmp_crc\<close>\<close>
  "read_bytes s 0 n crc im = Inr (n, crc, im)"
| "read_bytes s (Suc k) n crc im = rbind (line_byte s (9 + n * 2)) (\<lambda>b.
     rbind (put_byte b im) (\<lambda>im1. read_bytes s k (n + 1) (crc + b) im1))"

definition data_record :: "string \<Rightarrow> u8 \<Rightarrow> u32 \<Rightarrow> u8 \<Rightarrow> fw_image \<Rightarrow> (bool \<times> fw_image) res" where
  \<comment> \<open>record type 0: whether reading stops, and the image\<close>
  "data_record s sz address crc im =
     rbind (read_bytes s (unat sz) 0 crc
       (if im_len im < unat address then im\<lparr>im_len := unat address\<rparr> else im)) (\<lambda>(n, crc1, im1).
     rbind (line_byte s (9 + n * 2)) (\<lambda>c.
       Inr (if - crc1 \<noteq> c then (True, im1\<lparr>im_len := 0\<rparr>) else (False, im1))))"

definition extended_record :: "string \<Rightarrow> u8 \<Rightarrow> fw_image \<Rightarrow> (bool \<times> fw_image) res" where
  \<comment> \<open>record type 4\<close>
  "extended_record s crc im =
     rbind (line_byte s 9) (\<lambda>b0. rbind (line_byte s 11) (\<lambda>b1. rbind (line_byte s 13) (\<lambda>c.
       let im1 = im\<lparr>im_ext := push_bit 16 (push_bit 8 (ucast b0) + ucast b1)\<rparr>
       in Inr (if - (crc + b0 + b1) \<noteq> c then (True, im1\<lparr>im_len := 0\<rparr>)
               else (im_ext im1 > 0x10000, im1)))))"

definition read_line :: "string \<Rightarrow> fw_image \<Rightarrow> (bool \<times> fw_image) res" where
  \<comment> \<open>the body of the loop over the lines\<close>
  "read_line s im = (if take 1 s \<noteq> '':'' then Inr (False, im) else
     rbind (line_byte s 1) (\<lambda>sz. rbind (line_byte s 3) (\<lambda>hi. rbind (line_byte s 5) (\<lambda>lo.
     rbind (line_byte s 7) (\<lambda>rtype.
       let address = im_ext im + push_bit 8 (ucast hi) + ucast lo; crc = sz + hi + lo + rtype
       in if rtype = 0 then data_record s sz address crc im
          else if rtype = 4 then extended_record s crc im
          else Inr (False, im))))))"

fun read_ihex :: "string list \<Rightarrow> fw_image \<Rightarrow> fw_image res" where
  \<comment> \<open>the lines \<open>getline\<close> returns\<close>
  "read_ihex [] im = Inr im"
| "read_ihex (s # ss) im = rbind (read_line s im) (\<lambda>(stop, im1). if stop then Inr im1 else read_ihex ss im1)"

subsection \<open>The uploader\<close>

record upload =
  up_frame :: h9frame
  up_idx :: nat
  up_page :: u16
  up_seq :: u8
  up_done :: bool
  up_sent :: "h9frame list"

definition up_send :: "u8 \<Rightarrow> u8 \<Rightarrow> u8 list \<Rightarrow> upload \<Rightarrow> upload" where
  \<comment> \<open>type, length and sequence number are set, and the first bytes of the data\<close>
  "up_send ty dl bs s = (let f = (up_frame s)\<lparr>ftype := ty, dlc := dl, seqnum := ucast (up_seq s),
       data := bs @ drop (length bs) (data (up_frame s))\<rparr>
     in s\<lparr>up_frame := f, up_seq := up_seq s + 1, up_sent := up_sent s @ [f]\<rparr>)"

definition page_start :: "upload \<Rightarrow> upload" where
  "page_start s = up_send PAGE_START 2 [ucast (drop_bit 8 (up_page s)), ucast (up_page s)] s"

definition upload_start :: "bool \<Rightarrow> u16 \<Rightarrow> u16 \<Rightarrow> 5 word \<Rightarrow> upload" where
  \<comment> \<open>up to the loop: option \<open>noupgrademsg\<close>, source and destination\<close>
  "upload_start noupgrade src dst sq =
     (let s = \<lparr>up_frame = (new_frame sq (ucast dst) (ucast src))\<lparr>priority := HIGH\<rparr>, up_idx = 0,
               up_page = 0, up_seq = 0, up_done = False, up_sent = []\<rparr>
      in if noupgrade then page_start s else up_send NODE_UPGRADE 0 [] s)"

definition page_fill :: "(nat \<Rightarrow> u8) \<Rightarrow> upload \<Rightarrow> upload res" where
  "page_fill fw s = (if up_idx s + 8 \<le> FW_CAPACITY
     then Inr (up_send PAGE_FILL 8 (map fw [up_idx s..<up_idx s + 8]) (s\<lparr>up_idx := up_idx s + 8\<rparr>))
     else Inl Undefined_behaviour)"

definition page_written :: "nat \<Rightarrow> upload \<Rightarrow> upload res" where
  \<comment> \<open>the progress bar divides by the size of the firmware\<close>
  "page_written n s = (if n = 0 then Inl Undefined_behaviour
     else if n \<le> up_idx s then Inr ((up_send QUIT_BOOTLOADER 0 [] s)\<lparr>up_done := True\<rparr>)
     else Inr (page_start (s\<lparr>up_page := up_page s + 1\<rparr>)))"

definition upload_recv :: "(nat \<Rightarrow> u8) \<Rightarrow> nat \<Rightarrow> h9frame \<Rightarrow> upload \<Rightarrow> upload res" where
  \<comment> \<open>one turn of the loop for a frame\<close>
  "upload_recv fw n r s =
     (if source_id r \<noteq> destination_id (up_frame s) then Inr s
      else if ftype r = PAGE_WRITED then page_written n s
      else if ftype r = BOOTLOADER_TURNED_ON then Inr (page_start s)
      else if ftype r = PAGE_FILL_NEXT then page_fill fw s
      else Inr s)"

fun upload_run :: "(nat \<Rightarrow> u8) \<Rightarrow> nat \<Rightarrow> h9frame list \<Rightarrow> upload \<Rightarrow> upload res" where
  "upload_run fw n [] s = Inr s"
| "upload_run fw n (r # rs) s = (if up_done s then Inr s
     else rbind (upload_recv fw n r s) (upload_run fw n rs))"

subsection \<open>Lines of Intel HEX\<close>

lemma digits_of_16:
  "n < 16 \<Longrightarrow> digits_of 16 n = [n]" "16 \<le> n \<Longrightarrow> n < 256 \<Longrightarrow> digits_of 16 n = [n div 16, n mod 16]"
  by (simp_all add: digits_of.simps [of 16 n] digits_of.simps [of 16 "n div 16"])

lemma hex_byte_digits:
  "hex_byte up b = [digit_char up (unat b div 16), digit_char up (unat b mod 16)]"
  using unat_u8_less [of b]
  by (cases "unat b < 16")
     (simp_all add: hex_byte_def hex_string_def setw_def digits_of_16 digit_char_zero numeral_2_eq_2)

lemma hex_nibble_char: "d < 16 \<Longrightarrow> hex_nibble (digit_char up d) = of_nat d"
  by (erule less_16_cases; cases up; simp add: hex_nibble_def digit_char_def)

lemma digit_char_nonzero: "d < 16 \<Longrightarrow> digit_char up d \<noteq> CHR 0x00"
  by (erule less_16_cases; cases up; simp add: digit_char_def char_of_def bit_simps)

lemma byte_nibbles: "push_bit 4 (of_nat (unat b div 16)) OR of_nat (unat b mod 16) = (b :: u8)"
proof -
  have l: "unat b div 16 < 256" "unat b mod 16 < 256" using unat_u8_less [of b] by auto
  have "of_nat (unat b div 16) = drop_bit 4 b"
    using l by (simp add: word_unat_eq_iff unsigned_of_nat take_bit_eq_mod drop_bit_eq_div unat_div)
  moreover have "of_nat (unat b mod 16) = take_bit 4 b"
    using l by (simp add: word_unat_eq_iff unsigned_of_nat take_bit_eq_mod unat_mod)
  moreover have "push_bit 4 (drop_bit 4 b) OR take_bit 4 b = b"
    by (rule bit_word_eqI) (auto simp: bit_simps)
  ultimately show ?thesis by simp
qed

lemma hex2bin_byte [simp]: "hex2bin (hex_byte up b @ s) = b"
proof -
  have l: "unat b div 16 < 16" "unat b mod 16 < 16" using unat_u8_less [of b] by auto
  then have "hex2bin (hex_byte up b @ s) = push_bit 4 (of_nat (unat b div 16)) OR of_nat (unat b mod 16)"
    by (simp add: hex2bin_def hex_byte_digits numeral_2_eq_2 hex_nibble_char digit_char_nonzero)
  then show ?thesis by (simp only: byte_nibbles)
qed

datatype hex_record = Data u16 "u8 list" | Extended u16

fun record_bytes :: "hex_record \<Rightarrow> u8 list" where
  "record_bytes (Data a bs) = of_nat (length bs) # ucast (drop_bit 8 a) # ucast a # 0 # bs"
| "record_bytes (Extended e) = [2, 0, 0, 4, ucast (drop_bit 8 e), ucast e]"

definition hex_line :: "bool \<Rightarrow> u8 list \<Rightarrow> string" where
  "hex_line up bs = CHR '':'' # concat (map (hex_byte up) bs) @ [CHR 0x0A]"

definition record_line :: "bool \<Rightarrow> hex_record \<Rightarrow> string" where
  \<comment> \<open>a line of an Intel HEX file, with its checksum\<close>
  "record_line up r = hex_line up (record_bytes r @ [- sum_list (record_bytes r)])"

lemma drop_hex_data:
  "drop (2 * i) (concat (map (hex_byte up) bs)) = concat (map (hex_byte up) (drop i bs))"
proof (induction bs arbitrary: i)
  case (Cons b bs)
  then show ?case by (cases i) simp_all
qed simp

lemma line_byte_hex:
  assumes "i < length bs"
  shows "line_byte (hex_line up bs) (1 + 2 * i) = Inr (bs ! i)"
proof -
  have len: "length (concat (map (hex_byte up) bs)) = 2 * length bs" by (induction bs) simp_all
  have "drop (1 + 2 * i) (hex_line up bs) = hex_byte up (bs ! i) @ concat (map (hex_byte up) (drop (Suc i) bs)) @ [CHR 0x0A]"
    using assms len by (simp add: hex_line_def drop_hex_data flip: Cons_nth_drop_Suc)
  then show ?thesis using assms len by (simp add: line_byte_def) (simp add: hex_line_def)
qed

lemma line_bytes:
  assumes "j = 1 + 2 * i" and "i < length bs" and "b = bs ! i"
  shows "line_byte (hex_line up bs) j = Inr b"
  using line_byte_hex [OF assms(2)] assms(1,3) by simp

definition write_at :: "nat \<Rightarrow> u8 list \<Rightarrow> (nat \<Rightarrow> u8) \<Rightarrow> nat \<Rightarrow> u8" where
  "write_at a bs mem x = (if a \<le> x \<and> x < a + length bs then bs ! (x - a) else mem x)"

lemma write_at_Cons: "write_at (Suc a) bs (mem(a := b)) = write_at a (b # bs) mem"
  by (rule ext) (auto simp: write_at_def nth_Cons')

lemma write_at_Nil [simp]: "write_at a [] mem = mem"
  by (rule ext) (auto simp: write_at_def)

lemma read_bytes_data:
  assumes "\<And>j. j < length bs \<Longrightarrow> line_byte s (9 + (n + j) * 2) = Inr (bs ! j)"
    and "im_len im + length bs \<le> FW_CAPACITY"
  shows "read_bytes s (length bs) n crc im = Inr (n + length bs, crc + sum_list bs,
    im\<lparr>im_mem := write_at (im_len im) bs (im_mem im), im_len := im_len im + length bs\<rparr>)"
  using assms
proof (induction bs arbitrary: n crc im)
  case (Cons b bs)
  let ?im = "im\<lparr>im_mem := (im_mem im)(im_len im := b), im_len := im_len im + 1\<rparr>"
  have "line_byte s (9 + n * 2) = Inr b" using Cons.prems(1) [of 0] by simp
  moreover have "put_byte b im = Inr ?im" using Cons.prems(2) by (simp add: put_byte_def)
  moreover have "read_bytes s (length bs) (n + 1) (crc + b) ?im = Inr (n + 1 + length bs, crc + b + sum_list bs,
      ?im\<lparr>im_mem := write_at (im_len ?im) bs (im_mem ?im), im_len := im_len ?im + length bs\<rparr>)"
    using Cons.prems(2) Cons.prems(1) [of "Suc j" for j] by (intro Cons.IH) simp_all
  ultimately show ?case by (simp add: write_at_Cons)
qed simp

lemma address_bytes: "push_bit 8 (ucast (ucast (drop_bit 8 a) :: u8)) + ucast (ucast a :: u8) = (ucast a :: u32)" for a :: u16
proof -
  let ?h = "push_bit 8 (ucast (ucast (drop_bit 8 a) :: u8)) :: u32" and ?l = "ucast (ucast a :: u8) :: u32"
  have "?h + ?l = ?h OR ?l"
    by (rule disjunctive_add) (auto simp: bit_simps)
  also have "\<dots> = ucast a"
    by (rule bit_word_eqI) (auto simp: bit_simps dest: bit_imp_le_length)
  finally show ?thesis .
qed

fun reference :: "nat \<Rightarrow> hex_record list \<Rightarrow> (nat \<Rightarrow> u8) \<times> nat \<Rightarrow> (nat \<Rightarrow> u8) \<times> nat" where
  \<comment> \<open>what the file says: every byte at its address, up to the first record above 128 kB\<close>
  "reference ext [] m = m"
| "reference ext (Data a bs # rs) (mem, len) =
     reference ext rs (write_at (ext + unat a) bs mem, max len (ext + unat a + length bs))"
| "reference ext (Extended e # rs) m = (if 1 < unat e then m else reference (65536 * unat e) rs m)"

fun ascending :: "nat \<Rightarrow> nat \<Rightarrow> hex_record list \<Rightarrow> bool" where
  \<comment> \<open>no record starts before the end of an earlier one, and all fit\<close>
  "ascending ext len [] \<longleftrightarrow> True"
| "ascending ext len (Data a bs # rs) \<longleftrightarrow> len \<le> ext + unat a \<and> ext + unat a + length bs \<le> FW_CAPACITY \<and>
     length bs < 256 \<and> ascending ext (ext + unat a + length bs) rs"
| "ascending ext len (Extended e # rs) \<longleftrightarrow> 1 < unat e \<or> ascending (65536 * unat e) len rs"

lemma unat_address:
  fixes a :: u16 and e :: u32
  assumes "unat e \<le> 65536"
  shows "unat (e + push_bit 8 (ucast (ucast (drop_bit 8 a) :: u8)) + ucast (ucast a :: u8)) = unat e + unat a"
proof -
  have "unat a < 65536" using unsigned_less [of a] by simp
  then have "unat (e + ucast a) = unat e + unat (ucast a :: u32)"
    using assms by (intro unat_add_lem [THEN iffD1]) (simp add: unsigned_ucast_eq take_bit_eq_mod)
  also have "unat (ucast a :: u32) = unat a"
    using \<open>unat a < 65536\<close> by (simp add: unsigned_ucast_eq take_bit_eq_mod)
  finally show ?thesis by (simp only: add.assoc address_bytes)
qed

lemma read_data_record:
  assumes l: "length bs < 256" and e: "unat (im_ext im) \<le> 65536"
    and a: "im_len im \<le> unat (im_ext im) + unat a" "unat (im_ext im) + unat a + length bs \<le> FW_CAPACITY"
  shows "read_line (hex_line up (record_bytes (Data a bs) @ [c])) im =
    (let im1 = im\<lparr>im_mem := write_at (unat (im_ext im) + unat a) bs (im_mem im),
                im_len := unat (im_ext im) + unat a + length bs\<rparr>
     in Inr (if c = - sum_list (record_bytes (Data a bs)) then (False, im1) else (True, im1\<lparr>im_len := 0\<rparr>)))"
proof -
  define s where "s = hex_line up (record_bytes (Data a bs) @ [c])"
  let ?a = "unat (im_ext im) + unat a" and ?n = "of_nat (length bs) :: u8"
  let ?crc = "?n + ucast (drop_bit 8 a) + ucast a + 0"
  have colon: "take 1 s = '':''" by (simp add: s_def hex_line_def)
  have h: "line_byte s 1 = Inr ?n" "line_byte s 3 = Inr (ucast (drop_bit 8 a))"
    "line_byte s 5 = Inr (ucast a)" "line_byte s 7 = Inr 0"
    unfolding s_def
    by (rule line_bytes [where i = 0] line_bytes [where i = 1] line_bytes [where i = 2] line_bytes [where i = 3],
        simp, simp, simp)+
  have b: "line_byte s (9 + (0 + j) * 2) = Inr (bs ! j)" if "j < length bs" for j
    unfolding s_def by (rule line_bytes [where i = "4 + j"]) (use that in \<open>simp_all add: nth_append\<close>)
  have c: "line_byte s (9 + (0 + length bs) * 2) = Inr c"
    unfolding s_def by (rule line_bytes [where i = "4 + length bs"]) simp_all
  define im1 where "im1 = (if im_len im < ?a then im\<lparr>im_len := ?a\<rparr> else im)"
  have len: "im1 = im\<lparr>im_len := ?a\<rparr>" using a(1) by (simp add: im1_def)
  have lu: "unat ?n = length bs"
    using l by (simp add: unsigned_of_nat take_bit_eq_mod)
  let ?im = "im\<lparr>im_mem := write_at ?a bs (im_mem im), im_len := ?a + length bs\<rparr>"
  have "read_bytes s (length bs) 0 crc im1 = Inr (0 + length bs, crc + sum_list bs,
      im1\<lparr>im_mem := write_at (im_len im1) bs (im_mem im1), im_len := im_len im1 + length bs\<rparr>)" for crc
    by (rule read_bytes_data) (use b a(2) len in simp_all)
  then have rb: "read_bytes s (length bs) 0 crc im1 = Inr (0 + length bs, crc + sum_list bs, ?im)" for crc
    by (simp add: len)
  have "read_line s im = data_record s ?n (im_ext im + push_bit 8 (ucast (ucast (drop_bit 8 a) :: u8)) + ucast (ucast a :: u8)) ?crc im"
    by (simp only: read_line_def h rbind_simps Let_def colon simp_thms if_False if_True)
  also have "\<dots> = Inr (if - (?crc + sum_list bs) \<noteq> c then (True, ?im\<lparr>im_len := 0\<rparr>) else (False, ?im))"
    by (simp only: data_record_def unat_address [OF e] lu rb c rbind_simps prod.case flip: im1_def)
  also have "- (?crc + sum_list bs) = - sum_list (record_bytes (Data a bs))"
    by (simp add: add.assoc)
  finally show ?thesis by (auto simp: s_def Let_def)
qed

lemma unat_extended: "unat (push_bit 16 (ucast e) :: u32) = 65536 * unat e" for e :: u16
proof -
  have "unat e < 65536" using unsigned_less [of e] by simp
  moreover have "unat (push_bit 16 (ucast e) :: u32) = take_bit 32 (push_bit 16 (unat (ucast e :: u32)))"
    by (simp only: unsigned_push_bit_eq) simp
  ultimately show ?thesis by (simp add: push_bit_eq_mult unsigned_ucast_eq take_bit_eq_mod)
qed

lemma read_extended_record:
  "read_line (record_line up (Extended e)) im = Inr (1 < unat e, im\<lparr>im_ext := push_bit 16 (ucast e)\<rparr>)"
proof -
  define s where "s = hex_line up (record_bytes (Extended e) @ [- sum_list (record_bytes (Extended e))])"
  have colon: "take 1 s = '':''" by (simp add: s_def hex_line_def)
  have h: "line_byte s 1 = Inr 2" "line_byte s 3 = Inr 0" "line_byte s 5 = Inr 0" "line_byte s 7 = Inr 4"
    "line_byte s 9 = Inr (ucast (drop_bit 8 e))" "line_byte s 11 = Inr (ucast e)"
    "line_byte s 13 = Inr (- sum_list (record_bytes (Extended e)))"
    unfolding s_def
    by (rule line_bytes [where i = 0] line_bytes [where i = 1] line_bytes [where i = 2] line_bytes [where i = 3]
        line_bytes [where i = 4] line_bytes [where i = 5] line_bytes [where i = 6],
        simp, simp, simp add: numeral_2_eq_2 numeral_3_eq_3 eval_nat_numeral)+
  have big: "im_ext (im\<lparr>im_ext := push_bit 16 (ucast e)\<rparr>) > 0x10000 \<longleftrightarrow> 1 < unat e"
    by (simp add: word_less_nat_alt unat_extended)
  have ne: "(0 :: u8) \<noteq> 4" "(4 :: u8) \<noteq> 0" by simp_all
  have crc: "- (2 + 0 + 0 + 4 + ucast (drop_bit 8 e) + ucast e :: u8) = - sum_list (record_bytes (Extended e))"
    by (simp add: add.assoc)
  have "read_line s im = extended_record s (2 + 0 + 0 + 4) im"
    by (simp only: read_line_def h rbind_simps Let_def colon simp_thms ne if_False if_True)
  also have "\<dots> = Inr (1 < unat e, im\<lparr>im_ext := push_bit 16 (ucast e)\<rparr>)"
    by (simp only: extended_record_def h rbind_simps Let_def address_bytes crc simp_thms if_False big)
  finally show ?thesis by (simp add: s_def record_line_def)
qed

lemma read_ihex_reference:
  assumes "ascending (unat (im_ext im)) (im_len im) rs" and "unat (im_ext im) \<le> 65536"
  shows "\<exists>im1. read_ihex (map (record_line up) rs) im = Inr im1 \<and>
    (im_mem im1, im_len im1) = reference (unat (im_ext im)) rs (im_mem im, im_len im)"
  using assms
proof (induction rs arbitrary: im)
  case Nil
  then show ?case by simp
next
  case (Cons r rs)
  show ?case
  proof (cases r)
    case (Data a bs)
    let ?a = "unat (im_ext im) + unat a"
    let ?im = "im\<lparr>im_mem := write_at ?a bs (im_mem im), im_len := ?a + length bs\<rparr>"
    have "read_line (record_line up r) im = Inr (False, ?im)"
      using Cons.prems read_data_record [of bs im a up "- sum_list (record_bytes (Data a bs))"]
      by (simp add: Data record_line_def Let_def)
    moreover have "max (im_len im) (?a + length bs) = ?a + length bs" using Cons.prems Data by simp
    ultimately show ?thesis using Cons.IH [of ?im] Cons.prems by (simp add: Data)
  next
    case (Extended e)
    show ?thesis
    proof (cases "1 < unat e")
      case True
      then show ?thesis by (simp add: Extended read_extended_record)
    next
      case False
      moreover have "unat (im_ext (im\<lparr>im_ext := push_bit 16 (ucast e)\<rparr>)) = 65536 * unat e"
        by (simp add: unat_extended)
      ultimately show ?thesis using Cons.IH [of "im\<lparr>im_ext := push_bit 16 (ucast e)\<rparr>"] Cons.prems
        by (simp add: Extended read_extended_record)
    qed
  qed
qed

text \<open>
  C29. The reader of Intel HEX files agrees with the reference loader that puts every byte at its
  address: for every file of data records in ascending order, with gaps and extended addresses, that
  fits in 128 kB, it gives the same memory (0xff where the file says nothing) and the same length, and
  it ignores what follows the first extended address above 128 kB.
\<close>

theorem ihex_reference:
  assumes "ascending 0 0 rs"
  shows "\<exists>im. read_ihex (map (record_line up) rs) empty_image = Inr im \<and>
    (im_mem im, im_len im) = reference 0 rs (\<lambda>_. 0xff, 0)"
  using read_ihex_reference [of empty_image rs up] assms by (simp add: empty_image_def)

definition sample_hex :: "hex_record list" where
  "sample_hex = [Data 0x10 [1, 2], Data 0x20 [3], Extended 1, Data 0 [4], Extended 0x30, Data 0 [5]]"

theorem ihex_reference_witness:
  "(\<exists>im. read_ihex (map (record_line True) sample_hex) empty_image = Inr im \<and> im_mem im 0x20 = 3 \<and>
      im_mem im 0 = 0xff \<and> im_len im = 0x10001) \<and>
    record_line True (Data 0x10 [1, 2]) = '':020010000102EB'' @ [CHR 0x0A]"
proof -
  have "ascending 0 0 sample_hex" by (simp add: sample_hex_def FW_CAPACITY_def)
  from ihex_reference [OF this, of True] obtain im
    where im: "read_ihex (map (record_line True) sample_hex) empty_image = Inr im"
      and r: "(im_mem im, im_len im) = reference 0 sample_hex (\<lambda>_. 0xff, 0)" by blast
  from r have "im_mem im 0x20 = 3 \<and> im_mem im 0 = 0xff \<and> im_len im = 0x10001"
    by (simp add: sample_hex_def write_at_def)
  moreover have "record_line True (Data 0x10 [1, 2]) = '':020010000102EB'' @ [CHR 0x0A]" by code_simp
  ultimately show ?thesis using im by blast
qed

subsection \<open>The dialogue\<close>

definition flash :: "string list \<Rightarrow> h9frame list \<Rightarrow> bool \<Rightarrow> u16 \<Rightarrow> u16 \<Rightarrow> 5 word \<Rightarrow> upload res" where
  \<comment> \<open>\<open>main\<close>: the file is read, and the dialogue goes on with whatever length that gave\<close>
  "flash ss rs noupgrade src dst sq = rbind (read_ihex ss empty_image) (\<lambda>im.
     upload_run (im_mem im) (im_len im) rs (upload_start noupgrade src dst sq))"

definition fills :: "upload \<Rightarrow> h9frame list" where
  "fills s = filter (\<lambda>f. ftype f = PAGE_FILL) (up_sent s)"

definition started :: "upload \<Rightarrow> u8 list list" where
  \<comment> \<open>the page numbers sent, as two bytes\<close>
  "started s = map (\<lambda>f. take 2 (data f)) (filter (\<lambda>f. ftype f = PAGE_START) (up_sent s))"

definition upload_ok :: "(nat \<Rightarrow> u8) \<Rightarrow> 9 word \<Rightarrow> 9 word \<Rightarrow> upload \<Rightarrow> bool" where
  "upload_ok fw src dst s \<longleftrightarrow>
     up_seq s = of_nat (length (up_sent s)) \<and> map seqnum (up_sent s) = map of_nat [0..<length (up_sent s)] \<and>
     (\<forall>f \<in> insert (up_frame s) (set (up_sent s)). priority f = HIGH \<and> source_id f = src \<and>
        destination_id f = dst \<and> valid_frame f) \<and>
     concat (map data (fills s)) = map fw [0..<up_idx s]"

lemma up_send_fields [simp]:
  "up_idx (up_send ty dl bs s) = up_idx s" "up_page (up_send ty dl bs s) = up_page s"
  "up_done (up_send ty dl bs s) = up_done s" "up_seq (up_send ty dl bs s) = up_seq s + 1"
  "destination_id (up_frame (up_send ty dl bs s)) = destination_id (up_frame s)"
  by (simp_all add: up_send_def Let_def)

lemma fills_send: "fills (up_send ty dl bs s) = fills s @ (if ty = PAGE_FILL
    then [(up_frame s)\<lparr>ftype := ty, dlc := dl, seqnum := ucast (up_seq s), data := bs @ drop (length bs) (data (up_frame s))\<rparr>] else [])"
  by (simp add: fills_def up_send_def Let_def)

lemma started_send: "started (up_send ty dl bs s) = started s @ (if ty = PAGE_START
    then [take 2 (bs @ drop (length bs) (data (up_frame s)))] else [])"
  by (simp add: started_def up_send_def Let_def)

lemma seq_5: "ucast (of_nat n :: u8) = (of_nat n :: 5 word)"
  by (simp add: word_unat_eq_iff unsigned_ucast_eq unsigned_of_nat)

lemma upload_ok_send:
  assumes "upload_ok fw src dst s" and "length bs \<le> 8" and "unat dl \<le> 8" and "unat ty < 32"
    and "up_idx t = up_idx s + (if ty = PAGE_FILL then 8 else 0)"
    and "ty = PAGE_FILL \<Longrightarrow> bs = map fw [up_idx s..<up_idx s + 8]"
    and "up_seq t = up_seq (up_send ty dl bs s)" "up_frame t = up_frame (up_send ty dl bs s)"
      "up_sent t = up_sent (up_send ty dl bs s)"
  shows "upload_ok fw src dst t"
proof -
  have f: "fills t = fills (up_send ty dl bs s)" by (simp add: fills_def assms(9))
  have "[0..<up_idx s + 8] = [0..<up_idx s] @ [up_idx s..<up_idx s + 8]"
    by (rule upt_add_eq_append) simp
  then have idx: "map fw [0..<up_idx t] = map fw [0..<up_idx s] @ (if ty = PAGE_FILL then bs else [])"
    using assms(5,6) by (cases "ty = PAGE_FILL") simp_all
  have d: "length (data (up_frame s)) = 8"
    using assms(1) by (simp add: upload_ok_def valid_frame_def wf_frame_def)
  have c: "concat (map data (fills s)) = map fw [0..<up_idx s]" using assms(1) by (simp add: upload_ok_def)
  have fill: "concat (map data (fills t)) = map fw [0..<up_idx t]"
  proof (cases "ty = PAGE_FILL")
    case True
    then have "length bs = 8" using assms(6) by simp
    then show ?thesis using True c d idx by (simp add: f fills_send)
  next
    case False
    then show ?thesis using c idx by (simp add: f fills_send)
  qed
  have new: "valid_frame ((up_frame s)\<lparr>ftype := ty, dlc := dl, seqnum := ucast (up_seq s),
      data := bs @ drop (length bs) (data (up_frame s))\<rparr>)"
    using d assms(2-4) by (simp add: valid_frame_def wf_frame_def)
  show ?thesis
    using assms(1) fill new unfolding upload_ok_def assms(7-9)
    by (auto simp: up_send_def Let_def seq_5)
qed

lemma upload_ok_other:
  assumes "upload_ok fw src dst s" and "length bs \<le> 8" "unat dl \<le> 8" "unat ty < 32" "ty \<noteq> PAGE_FILL"
  shows "upload_ok fw src dst (up_send ty dl bs s)"
  by (rule upload_ok_send [OF assms(1-4)]) (use assms(5) in simp_all)

lemma upload_ok_start: "upload_ok fw (ucast src) (ucast dst) (upload_start b src dst sq)"
proof -
  let ?s = "\<lparr>up_frame = (new_frame sq (ucast dst) (ucast src))\<lparr>priority := HIGH\<rparr>, up_idx = 0,
     up_page = 0, up_seq = 0, up_done = False, up_sent = []\<rparr>"
  have ok: "upload_ok fw (ucast src) (ucast dst) ?s"
    by (simp add: upload_ok_def fills_def new_frame_def valid_frame_def wf_frame_def)
  show ?thesis
    unfolding upload_start_def page_start_def Let_def
    using upload_ok_other [OF ok] by simp
qed

lemma upload_ok_recv:
  assumes "upload_ok fw src dst s" and "upload_recv fw n r s = Inr t"
  shows "upload_ok fw src dst t"
proof -
  consider "t = s"
    | "t = page_start s" | "t = page_start (s\<lparr>up_page := up_page s + 1\<rparr>)"
    | "t = (up_send QUIT_BOOTLOADER 0 [] s)\<lparr>up_done := True\<rparr>"
    | "t = up_send PAGE_FILL 8 (map fw [up_idx s..<up_idx s + 8]) (s\<lparr>up_idx := up_idx s + 8\<rparr>)"
    using assms(2) by (auto simp: upload_recv_def page_written_def page_fill_def split: if_splits)
  then show ?thesis
  proof cases
    case 1
    then show ?thesis using assms(1) by simp
  next
    case 2
    then show ?thesis using upload_ok_other [OF assms(1)] by (simp add: page_start_def)
  next
    case 3
    then have t: "t = up_send PAGE_START 2 [ucast (drop_bit 8 (up_page s + 1)), ucast (up_page s + 1)]
        (s\<lparr>up_page := up_page s + 1\<rparr>)" by (simp add: page_start_def)
    show ?thesis
      by (rule upload_ok_send [OF assms(1),
            of "[ucast (drop_bit 8 (up_page s + 1)), ucast (up_page s + 1)]" 2 PAGE_START])
         (simp_all add: t up_send_def Let_def)
  next
    case 4
    show ?thesis
      by (rule upload_ok_send [OF assms(1), of "[]" 0 QUIT_BOOTLOADER]) (simp_all add: 4 up_send_def Let_def)
  next
    case 5
    show ?thesis
      by (rule upload_ok_send [OF assms(1), of "map fw [up_idx s..<up_idx s + 8]" 8 PAGE_FILL])
         (simp_all add: 5 up_send_def Let_def)
  qed
qed

lemma upload_done_recv:
  assumes "upload_recv fw n r s = Inr t" and "up_done t" and "\<not> up_done s"
  shows "0 < n \<and> n \<le> up_idx t \<and> up_sent t \<noteq> [] \<and> ftype (last (up_sent t)) = QUIT_BOOTLOADER"
  using assms by (auto simp: upload_recv_def page_written_def page_fill_def page_start_def up_send_def Let_def
      split: if_splits)

lemma upload_run_ok:
  assumes "upload_ok fw src dst s" and "upload_run fw n rs s = Inr t"
    and "up_done s \<longrightarrow> 0 < n \<and> n \<le> up_idx s \<and> up_sent s \<noteq> [] \<and> ftype (last (up_sent s)) = QUIT_BOOTLOADER"
  shows "upload_ok fw src dst t \<and>
    (up_done t \<longrightarrow> 0 < n \<and> n \<le> up_idx t \<and> up_sent t \<noteq> [] \<and> ftype (last (up_sent t)) = QUIT_BOOTLOADER)"
  using assms
proof (induction rs arbitrary: s)
  case (Cons r rs)
  show ?case
  proof (cases "up_done s")
    case False
    with Cons.prems(2) obtain u where u: "upload_recv fw n r s = Inr u" "upload_run fw n rs u = Inr t"
      by (auto simp: rbind_Inr_iff)
    show ?thesis
      using Cons.IH [OF upload_ok_recv [OF Cons.prems(1) u(1)] u(2)] upload_done_recv [OF u(1) _ False] by blast
  qed (use Cons.prems in simp)
qed simp

lemma not_done_start: "\<not> up_done (upload_start b src dst sq)"
  by (simp add: upload_start_def page_start_def Let_def)


definition sample_answer :: "u8 \<Rightarrow> h9frame" where
  "sample_answer ty = (new_frame 0 1 32)\<lparr>ftype := ty\<rparr>"

definition sample_upload :: "upload res" where
  "sample_upload = upload_run (\<lambda>x. of_nat x) 9 (map sample_answer
     [BOOTLOADER_TURNED_ON, PAGE_FILL_NEXT, PAGE_FILL_NEXT, NODE_HEARTBEAT, PAGE_WRITED])
     (upload_start False 1 32 0)"

lemma sample_upload_done:
  "\<exists>s. sample_upload = Inr s \<and> up_done s \<and> up_idx s = 16 \<and> length (up_sent s) = 5"
  unfolding sample_upload_def
  by (simp add: upload_recv_def sample_answer_def new_frame_def upload_start_def page_start_def up_send_def
      page_fill_def page_written_def FW_CAPACITY_def Let_def)


lemma upload_run_append:
  "upload_run fw n (xs @ ys) s = rbind (upload_run fw n xs s) (upload_run fw n ys)"
proof (induction xs arbitrary: s)
  case Nil
  then show ?case by simp
next
  case (Cons x xs)
  have "up_done s \<Longrightarrow> upload_run fw n ys s = Inr s" by (cases ys) simp_all
  then show ?case using Cons by (cases "upload_recv fw n x s") simp_all
qed

definition page_bytes :: "u16 \<Rightarrow> u8 list" where
  "page_bytes w = [ucast (drop_bit 8 w), ucast w]"

lemma run_fills:
  assumes "\<forall>r \<in> set rs. ftype r = PAGE_FILL_NEXT \<and> source_id r = destination_id (up_frame s)"
    and "\<not> up_done s" and "up_idx s + 8 * length rs \<le> FW_CAPACITY"
  shows "\<exists>t. upload_run fw n rs s = Inr t \<and> up_idx t = up_idx s + 8 * length rs \<and> \<not> up_done t \<and>
    up_page t = up_page s \<and> started t = started s \<and> destination_id (up_frame t) = destination_id (up_frame s)"
  using assms
proof (induction rs arbitrary: s)
  case (Cons r rs)
  let ?s = "up_send PAGE_FILL 8 (map fw [up_idx s..<up_idx s + 8]) (s\<lparr>up_idx := up_idx s + 8\<rparr>)"
  have "upload_recv fw n r s = Inr ?s"
    using Cons.prems by (simp add: upload_recv_def page_fill_def)
  moreover have "started ?s = started s" by (simp only: started_send) (simp add: started_def)
  ultimately show ?case using Cons.IH [of ?s] Cons.prems by (auto simp: add.assoc)
qed simp

lemma run_page:
  assumes "map ftype rs = replicate k PAGE_FILL_NEXT @ [PAGE_WRITED]"
    and src: "\<forall>r \<in> set rs. source_id r = destination_id (up_frame s)"
    and "\<not> up_done s" and "up_idx s + k * 8 \<le> FW_CAPACITY" and "0 < n"
  shows "\<exists>t. upload_run fw n rs s = Inr t \<and> up_idx t = up_idx s + k * 8 \<and> (up_done t \<longleftrightarrow> n \<le> up_idx t) \<and>
    destination_id (up_frame t) = destination_id (up_frame s) \<and>
    (if up_done t then started t = started s
     else up_page t = up_page s + 1 \<and> started t = started s @ [page_bytes (up_page s + 1)])"
proof -
  obtain fs w where rs: "rs = fs @ [w]" "map ftype fs = replicate k PAGE_FILL_NEXT" "ftype w = PAGE_WRITED"
    using assms(1) by (auto simp: map_eq_append_conv)
  have len: "length fs = k" using rs(2) by (metis length_map length_replicate)
  have all: "ftype r = PAGE_FILL_NEXT" if "r \<in> set fs" for r
    using rs(2) that by (metis imageI image_set in_set_replicate)
  obtain u where u: "upload_run fw n fs s = Inr u" "up_idx u = up_idx s + 8 * k" "\<not> up_done u"
      "up_page u = up_page s" "started u = started s" "destination_id (up_frame u) = destination_id (up_frame s)"
    using run_fills [of fs s fw n] all assms(3,4) src rs(1) len by (auto simp: mult.commute)
  have "upload_recv fw n w u = page_written n u"
    using rs(1,3) src u(6) by (simp add: upload_recv_def)
  then have run: "upload_run fw n rs s = rbind (page_written n u) Inr"
    using u(1,3) by (simp add: rs(1) upload_run_append) (cases "page_written n u"; simp)
  show ?thesis
  proof (cases "n \<le> up_idx u")
    case True
    let ?t = "(up_send QUIT_BOOTLOADER 0 [] u)\<lparr>up_done := True\<rparr>"
    have "started ?t = started (up_send QUIT_BOOTLOADER 0 [] u)" by (simp add: started_def)
    then show ?thesis
      using True u assms(5) by (intro exI [of _ ?t]) (simp add: run page_written_def started_send mult.commute)
  next
    case False
    let ?t = "page_start (u\<lparr>up_page := up_page u + 1\<rparr>)"
    have "started (u\<lparr>up_page := up_page u + 1\<rparr>) = started u" by (simp add: started_def)
    then show ?thesis
      using False u assms(5)
      by (intro exI [of _ ?t])
         (simp add: run page_written_def page_start_def started_send mult.commute page_bytes_def numeral_2_eq_2)
  qed
qed

lemma run_pages:
  assumes "map ftype rs = concat (replicate p (replicate k PAGE_FILL_NEXT @ [PAGE_WRITED]))"
    and "\<forall>r \<in> set rs. source_id r = destination_id (up_frame s)" and "\<not> up_done s"
    and "0 < p" "up_idx s + (p - 1) * k * 8 < n" "n \<le> up_idx s + p * k * 8" "up_idx s + p * k * 8 \<le> FW_CAPACITY"
  shows "\<exists>t. upload_run fw n rs s = Inr t \<and> up_done t \<and> up_idx t = up_idx s + p * k * 8 \<and>
    started t = started s @ map (\<lambda>i. page_bytes (up_page s + of_nat i)) [1..<p]"
  using assms
proof (induction p arbitrary: rs s)
  case 0
  then show ?case by simp
next
  case (Suc p)
  let ?page = "replicate k PAGE_FILL_NEXT @ [PAGE_WRITED]"
  have "map ftype rs = ?page @ concat (replicate p ?page)"
    using Suc.prems(1) by (simp only: replicate_Suc concat.simps)
  from map_eq_append_conv [THEN iffD1, OF this] obtain xs ys where rs: "rs = xs @ ys" "map ftype xs = replicate k PAGE_FILL_NEXT @ [PAGE_WRITED]"
      "map ftype ys = concat (replicate p (replicate k PAGE_FILL_NEXT @ [PAGE_WRITED]))"
    by auto
  obtain u where u: "upload_run fw n xs s = Inr u" "up_idx u = up_idx s + k * 8" "up_done u \<longleftrightarrow> n \<le> up_idx u"
      "destination_id (up_frame u) = destination_id (up_frame s)"
      "if up_done u then started u = started s
       else up_page u = up_page s + 1 \<and> started u = started s @ [page_bytes (up_page s + 1)]"
    using run_page [OF rs(2), of s n fw] Suc.prems(2,3,5,7) rs(1) by auto
  have run: "upload_run fw n rs s = upload_run fw n ys u" by (simp add: rs(1) upload_run_append u(1))
  show ?case
  proof (cases p)
    case 0
    then show ?thesis using u Suc.prems(6) rs(3) run by simp
  next
    case (Suc q)
    then have nd: "\<not> up_done u" using u(2,3) Suc.prems(5) by (simp add: algebra_simps)
    have "\<exists>t. upload_run fw n ys u = Inr t \<and> up_done t \<and> up_idx t = up_idx u + p * k * 8 \<and>
        started t = started u @ map (\<lambda>i. page_bytes (up_page u + of_nat i)) [1..<p]"
      by (rule Suc.IH [OF rs(3)]) (use Suc Suc.prems rs(1) u nd in \<open>auto simp: algebra_simps\<close>)
    moreover have "map (\<lambda>i. page_bytes (up_page s + of_nat i)) [1..<Suc p] =
        page_bytes (up_page s + 1) # map (\<lambda>i. page_bytes (up_page s + 1 + of_nat i)) [1..<p]"
      using Suc by (simp add: upt_conv_Cons del: upt_Suc flip: map_Suc_upt) (simp add: ac_simps)
    ultimately show ?thesis using u(2,5) nd run by (auto simp: algebra_simps)
  qed
qed

text \<open>
  C31. The upload ends: when the boot loader reports itself, asks for \<open>k\<close> fills before each page written
  and reports the pages until the firmware is through, the uploader terminates with success exactly
  then. It has sent every byte of the firmware (and what the buffer holds up to the end of the last
  page), and has started the pages 0, 1, ... in this order.
\<close>

theorem upload_completes:
  assumes "map ftype rs = BOOTLOADER_TURNED_ON # concat (replicate p (replicate k PAGE_FILL_NEXT @ [PAGE_WRITED]))"
    and "\<forall>r \<in> set rs. source_id r = ucast dst"
    and "0 < p" "(p - 1) * k * 8 < n" "n \<le> p * k * 8" "p * k * 8 \<le> FW_CAPACITY"
  shows "\<exists>s. upload_run fw n rs (upload_start False src dst sq) = Inr s \<and> up_done s \<and>
    concat (map data (fills s)) = map fw [0..<p * k * 8] \<and>
    started s = map (\<lambda>i. page_bytes (of_nat i)) [0..<p]"
proof -
  let ?s = "upload_start False src dst sq" and ?u = "page_start (upload_start False src dst sq)"
  obtain r rs1 where rs: "rs = r # rs1" "ftype r = BOOTLOADER_TURNED_ON"
      "map ftype rs1 = concat (replicate p (replicate k PAGE_FILL_NEXT @ [PAGE_WRITED]))"
    using assms(1) by auto
  have start: "up_idx ?s = 0" "up_page ?s = 0" "\<not> up_done ?s" "started ?s = []" "destination_id (up_frame ?s) = ucast dst"
    by (simp_all add: upload_start_def started_send) (simp add: started_def, simp add: new_frame_def)
  have u: "up_idx ?u = 0" "up_page ?u = 0" "\<not> up_done ?u" "destination_id (up_frame ?u) = ucast dst"
      "started ?u = [page_bytes 0]"
    using start by (simp_all add: page_start_def started_send page_bytes_def numeral_2_eq_2)
  have "upload_run fw n rs ?s = upload_run fw n rs1 ?u"
    using start assms(2) rs by (simp add: upload_recv_def)
  moreover obtain t where t: "upload_run fw n rs1 ?u = Inr t" "up_done t" "up_idx t = p * k * 8"
      "started t = started ?u @ map (\<lambda>i. page_bytes (up_page ?u + of_nat i)) [1..<p]"
    using run_pages [OF rs(3), of ?u n fw] assms u rs(1) by auto
  moreover have "map (\<lambda>i. page_bytes (of_nat i)) [0..<p] = page_bytes 0 # map (\<lambda>i. page_bytes (of_nat i)) [1..<p]"
    using assms(3) by (simp add: upt_conv_Cons)
  ultimately show ?thesis
    using upload_run_ok [OF upload_ok_start, of fw n rs False src dst sq t] start u by (auto simp: upload_ok_def)
qed

theorem upload_completes_witness:
  "\<exists>s. upload_run (\<lambda>x. of_nat x) 25 (map sample_answer
       [BOOTLOADER_TURNED_ON, PAGE_FILL_NEXT, PAGE_FILL_NEXT, PAGE_WRITED, PAGE_FILL_NEXT, PAGE_FILL_NEXT, PAGE_WRITED])
       (upload_start False 1 32 0) = Inr s \<and> up_done s \<and> concat (map data (fills s)) = map of_nat [0..<32] \<and>
     started s = [[0, 0], [0, 1]]"
proof -
  let ?rs = "map sample_answer
    [BOOTLOADER_TURNED_ON, PAGE_FILL_NEXT, PAGE_FILL_NEXT, PAGE_WRITED, PAGE_FILL_NEXT, PAGE_FILL_NEXT, PAGE_WRITED]"
  have "map ftype ?rs = BOOTLOADER_TURNED_ON # concat (replicate 2 (replicate 2 PAGE_FILL_NEXT @ [PAGE_WRITED]))"
    by (simp add: sample_answer_def numeral_2_eq_2)
  from upload_completes [OF this, of 32 25 "\<lambda>x. of_nat x" 1 0] show ?thesis
    by (simp add: sample_answer_def new_frame_def FW_CAPACITY_def page_bytes_def upt_conv_Cons)
qed

text \<open>
  A corrupted file is flashed all the same: when the checksum of a data record is wrong, the reader
  prints an error and returns the length 0, but the dialogue starts. The node is reset into its boot
  loader, and is sent whatever was read so far as soon as it asks; the first page it reports as
  written divides by the length, and the uploader crashes without the quit frame.
\<close>

theorem corrupt_file_flashed:
  assumes "ascending 0 0 [Data a bs]" and "c \<noteq> - sum_list (record_bytes (Data a bs))"
    and "source_id r = ucast dst" "ftype r = PAGE_WRITED"
  shows "flash (hex_line up (record_bytes (Data a bs) @ [c]) # ss) [r] noupgrade src dst sq = Inl Undefined_behaviour \<and>
    (\<exists>s. flash (hex_line up (record_bytes (Data a bs) @ [c]) # ss) [] noupgrade src dst sq = Inr s \<and>
       map ftype (up_sent s) = [if noupgrade then PAGE_START else NODE_UPGRADE])"
proof -
  have "read_line (hex_line up (record_bytes (Data a bs) @ [c])) empty_image
    = Inr (True, empty_image\<lparr>im_mem := write_at (unat a) bs (\<lambda>_. 0xff), im_len := 0\<rparr>)"
    using read_data_record [of bs empty_image a up c] assms(1,2) by (simp add: empty_image_def Let_def)
  then show ?thesis
    using assms(3,4)
    by (simp add: flash_def empty_image_def upload_recv_def page_written_def upload_start_def page_start_def up_send_def
        new_frame_def Let_def)
qed

theorem corrupt_file_flashed_witness:
  "flash (hex_line True (record_bytes (Data 0 [7]) @ [0]) # []) [sample_answer PAGE_WRITED] False 1 32 0
     = Inl Undefined_behaviour"
  using corrupt_file_flashed [of 0 "[7]" 0 "sample_answer PAGE_WRITED" 32 True "[]" False 1 0]
  by (simp add: sample_answer_def new_frame_def FW_CAPACITY_def)

end
