(* ===== verification/H9_Cli.thy ===== *)
theory H9_Cli
  imports H9_Bus H9_Server
begin

text \<open>
  \<open>h9cli/expression.{h,cc}\<close>: the commands of the command line client, the frames and subscriptions
  they send, and the loops that wait for an answer, driven by the frames received; and the completion
  of words in \<open>h9cli/h9cli.cc\<close>. What the parser makes of a line (a command with its numbers) is the
  input here; the parser is in \<open>H9_Parse\<close>.
\<close>

subsection \<open>Commands\<close>

datatype command =
    Node_restart int
  | Get_reg int int
  | Set_bit int int int
  | Clear_bit int int int
  | Toggle_bit int int int
  | Set1_reg int int int
  | Set2_reg int int int
  | Set3_reg int int int
  | Set4_reg int int int
  \<comment> \<open>node, register, and bit number or value, as \<open>int\<close>s\<close>

definition shl_byte :: "int \<Rightarrow> nat \<Rightarrow> u8 res" where
  \<comment> \<open>\<open>frame.data[i] = value << k\<close>: a shift of an \<open>int\<close>, cut to a byte\<close>
  "shl_byte v k = (if v < 0 \<or> v * 2 ^ k \<ge> 2 ^ 32 then Inl Undefined_behaviour
     else Inr (word_of_int (v * 2 ^ k)))"

definition node_frame :: "u8 \<Rightarrow> u16 \<Rightarrow> 5 word \<Rightarrow> int \<Rightarrow> u8 list \<Rightarrow> h9frame" where
  \<comment> \<open>the assignments every command begins with; \<open>sq\<close> is what the uninitialised \<open>seqnum\<close> holds\<close>
  "node_frame ty src sq node bs = (new_frame sq (word_of_int node) (ucast src))\<lparr>ftype := ty,
     dlc := of_nat (length bs), data := bs @ replicate (8 - length bs) 0\<rparr>"

fun command_frame :: "u16 \<Rightarrow> 5 word \<Rightarrow> command \<Rightarrow> h9frame res" where
  "command_frame src sq (Node_restart n) = Inr (node_frame NODE_RESET src sq n [])"
| "command_frame src sq (Get_reg n r) = Inr (node_frame GET_REG src sq n [word_of_int r])"
| "command_frame src sq (Set_bit n r b) = Inr (node_frame SET_BIT src sq n [word_of_int r, word_of_int b])"
| "command_frame src sq (Clear_bit n r b) = Inr (node_frame CLEAR_BIT src sq n [word_of_int r, word_of_int b])"
| "command_frame src sq (Toggle_bit n r b) = Inr (node_frame TOGGLE_BIT src sq n [word_of_int r, word_of_int b])"
| "command_frame src sq (Set1_reg n r v) = Inr (node_frame SET_REG src sq n [word_of_int r, word_of_int v])"
| "command_frame src sq (Set2_reg n r v) = rbind (shl_byte v 8) (\<lambda>b1.
     Inr (node_frame SET_REG src sq n [word_of_int r, b1, word_of_int v]))"
| "command_frame src sq (Set3_reg n r v) = rbind (shl_byte v 16) (\<lambda>b1. rbind (shl_byte v 8) (\<lambda>b2.
     Inr (node_frame SET_REG src sq n [word_of_int r, b1, b2, word_of_int v])))"
| "command_frame src sq (Set4_reg n r v) = rbind (shl_byte v 24) (\<lambda>b1. rbind (shl_byte v 16) (\<lambda>b2.
     rbind (shl_byte v 8) (\<lambda>b3. Inr (node_frame SET_REG src sq n [word_of_int r, b1, b2, b3, word_of_int v]))))"

subsection \<open>Answers\<close>

datatype printed = Value u64 | Failure u8 string

fun awaited :: "command \<Rightarrow> (int \<times> int \<times> u8) option" where
  \<comment> \<open>node, register and type of the answer; a restart does not wait\<close>
  "awaited (Node_restart n) = None"
| "awaited (Get_reg n r) = Some (n, r, REG_VALUE)"
| "awaited (Set_bit n r b) = Some (n, r, REG_EXTERNALLY_CHANGED)"
| "awaited (Clear_bit n r b) = Some (n, r, REG_EXTERNALLY_CHANGED)"
| "awaited (Toggle_bit n r b) = Some (n, r, REG_EXTERNALLY_CHANGED)"
| "awaited (Set1_reg n r v) = Some (n, r, REG_EXTERNALLY_CHANGED)"
| "awaited (Set2_reg n r v) = Some (n, r, REG_EXTERNALLY_CHANGED)"
| "awaited (Set3_reg n r v) = Some (n, r, REG_EXTERNALLY_CHANGED)"
| "awaited (Set4_reg n r v) = Some (n, r, REG_EXTERNALLY_CHANGED)"

definition print_answer :: "int \<Rightarrow> int \<Rightarrow> u8 \<Rightarrow> h9frame \<Rightarrow> printed res option" where
  \<comment> \<open>the two conditions on a frame, with \<open>int\<close> comparisons; \<open>None\<close> when it is neither\<close>
  "print_answer n r ty f =
     (if int (unat (source_id f)) = n \<and> ftype f = ty \<and> 1 < unat (dlc f) \<and> int (unat (data f ! 0)) = r
      then Some (rbind (frame_bytes f) (\<lambda>bs. Inr (Value (fold (\<lambda>b v. push_bit 8 v OR ucast b) (drop 1 bs) 0))))
      else if int (unat (source_id f)) = n \<and> ftype f = ERROR \<and> dlc f = 1
      then Some (Inr (Failure (data f ! 0) (error_to_string (data f ! 0))))
      else None)"

fun wait_answer :: "int \<Rightarrow> int \<Rightarrow> u8 \<Rightarrow> h9frame list \<Rightarrow> printed res option" where
  \<comment> \<open>the loop over the frames received; \<open>None\<close> while it still waits\<close>
  "wait_answer n r ty [] = None"
| "wait_answer n r ty (f # fs) = (case print_answer n r ty f of
     Some p \<Rightarrow> Some p | None \<Rightarrow> wait_answer n r ty fs)"

datatype content = NONE_CONTENT | FRAME_CONTENT

definition subscribe_content :: "'n libxml \<Rightarrow> content \<Rightarrow> 'n gmsg" where
  \<comment> \<open>the constructor \<open>SubscribeMsg(content)\<close> writes \<open>FRAME\<close> for both\<close>
  "subscribe_content X c = subscribe_msg X"

definition run_command ::
  "'n libxml \<Rightarrow> u16 \<Rightarrow> 5 word \<Rightarrow> h9frame list \<Rightarrow> command \<Rightarrow> ('n gmsg list \<times> printed option \<times> bool) res" where
  \<comment> \<open>\<open>operator()\<close>: the messages sent, what is printed, and whether the call returns\<close>
  "run_command X src sq fs c = rbind (command_frame src sq c) (\<lambda>f. rbind (send_frame_msg X f) (\<lambda>m.
     case awaited c of None \<Rightarrow> Inr ([m], None, True)
     | Some (n, r, ty) \<Rightarrow>
         (let before = [subscribe_content X FRAME_CONTENT, m]
          in case wait_answer n r ty fs of
               None \<Rightarrow> Inr (before, None, False)
             | Some p \<Rightarrow> rbind p (\<lambda>v. Inr (before @ [subscribe_content X NONE_CONTENT], Some v, True)))))"

subsection \<open>Completion\<close>

definition cli_words :: "string list" where "cli_words = [''node'']"

definition node_words :: "string list" where "node_words = [''reg'', ''restart'']"

definition reg_words :: "string list" where
  "reg_words = [''get'', ''setbit'', ''clearbit'', ''togglebit'', ''set1'', ''set2'', ''set3'', ''set4'']"

function next_completion :: "string list \<Rightarrow> string \<Rightarrow> nat \<Rightarrow> (string \<times> nat) option" where
  \<comment> \<open>one call of \<open>cli_completion_generator\<close>: the static \<open>list_index\<close>, and its new value\<close>
  "next_completion ws pre i = (if i \<ge> length ws then None
     else if take (length pre) (ws ! i) = pre then Some (ws ! i, i + 1)
     else next_completion ws pre (i + 1))"
  by pat_completeness auto

termination by (relation "measure (\<lambda>(ws, pre, i). length ws - i)") simp_all

declare next_completion.simps [simp del]

lemma next_completion_index: "next_completion ws pre i = Some (w, j) \<Longrightarrow> i < j \<and> j \<le> length ws"
proof (induction ws pre i rule: next_completion.induct)
  case (1 ws pre i)
  then show ?case
    by (subst (asm) (2) next_completion.simps) (fastforce split: if_splits)
qed

function completions :: "string list \<Rightarrow> string \<Rightarrow> nat \<Rightarrow> string list" where
  \<comment> \<open>\<open>rl_completion_matches\<close> calls the generator until it returns a null pointer\<close>
  "completions ws pre i = (case next_completion ws pre i of None \<Rightarrow> [] | Some (w, j) \<Rightarrow> w # completions ws pre j)"
  by pat_completeness auto

termination
  by (relation "measure (\<lambda>(ws, pre, i). length ws - i)")
     (auto dest!: next_completion_index sym [of "Some _"])

declare completions.simps [simp del]

subsection \<open>Properties\<close>

definition agrees :: "h9frame res \<Rightarrow> request \<Rightarrow> bool" where
  "agrees a b \<longleftrightarrow> (\<exists>f. a = Inr f \<and> b = Inr f)"

lemma node_word:
  assumes "0 \<le> n" "n \<le> 511"
  shows "ucast (word_of_int n :: u16) = (word_of_int n :: 9 word)" "unat (word_of_int n :: u16) = nat n"
proof -
  show "ucast (word_of_int n :: u16) = (word_of_int n :: 9 word)"
    by (rule bit_word_eqI) (simp add: bit_simps)
  show "unat (word_of_int n :: u16) = nat n"
    using assms by (simp add: unsigned_of_int take_bit_int_eq_self)
qed

lemma list_8: "(replicate 8 x)[0 := a] = a # replicate 7 x" "(replicate 8 x)[0 := a, Suc 0 := b] = a # b # replicate 6 x"
  "(replicate 7 x)[0 := a] = a # replicate 6 x"
  by (simp_all add: numeral_eq_Suc)

lemma shl_byte_small: "0 \<le> v \<Longrightarrow> v < 256 \<Longrightarrow> k \<in> {8, 16, 24} \<Longrightarrow> shl_byte v k = Inr 0"
proof -
  assume v: "0 \<le> v" "v < 256" "k \<in> {8, 16, 24}"
  then have "v * 2 ^ k < 2 ^ 32" by auto
  moreover have z: "(256 :: u8) = 0" "(65536 :: u8) = 0" "(16777216 :: u8) = 0" by code_simp+
  have "(word_of_int (v * 2 ^ k) :: u8) = 0" using v(3) by (auto simp: z)
  ultimately show ?thesis using v(1) by (simp add: shl_byte_def)
qed



lemma wait_answer_first:
  "(\<forall>g \<in> set gs. print_answer n r ty g = None) \<Longrightarrow> print_answer n r ty f = Some p \<Longrightarrow>
   wait_answer n r ty (gs @ f # hs) = Some p"
  by (induction gs) simp_all

lemma wait_answer_none: "(\<forall>g \<in> set gs. print_answer n r ty g = None) \<Longrightarrow> wait_answer n r ty gs = None"
  by (induction gs) simp_all

lemma wait_answer_some: "wait_answer n r ty fs = Some p \<Longrightarrow> \<exists>f \<in> set fs. print_answer n r ty f = Some p"
  by (induction fs) (auto split: option.splits)

lemma print_answer_node: "print_answer n r ty f = Some p \<Longrightarrow> 0 \<le> n \<and> n < 512"
proof -
  assume "print_answer n r ty f = Some p"
  then have "n = int (unat (source_id f))" by (auto simp: print_answer_def split: if_splits)
  then show ?thesis using unsigned_less [of "source_id f"] by simp
qed

text \<open>
  A command that waits prints the answer of the node it addressed: the value of the first frame
  of the awaited type for its register, or the error of the first error frame before it, after any
  frames that answer neither; it then returns. With a node number outside nine bits it waits for
  ever, whatever arrives, and with a register number outside a byte it never prints a value.
\<close>

theorem cli_answers:
  assumes "command_frame src sq c = Inr q" and "send_frame_msg X q = Inr m" and "awaited c = Some (n, r, ty)"
  shows "((\<forall>g \<in> set gs. print_answer n r ty g = None) \<and> print_answer n r ty f = Some (Inr v) \<longrightarrow>
      run_command X src sq (gs @ f # hs) c = Inr ([subscribe_msg X, m, subscribe_msg X], Some v, True)) \<and>
    (n < 0 \<or> 512 \<le> n \<longrightarrow> run_command X src sq fs c = Inr ([subscribe_msg X, m], None, False)) \<and>
    (r < 0 \<or> 256 \<le> r \<longrightarrow> run_command X src sq fs c \<noteq> Inr (ms, Some (Value w), b))"
proof (intro conjI impI)
  have run: "run_command X src sq fs c = (case wait_answer n r ty fs of None \<Rightarrow> Inr ([subscribe_msg X, m], None, False)
      | Some p \<Rightarrow> rbind p (\<lambda>v. Inr ([subscribe_msg X, m, subscribe_msg X], Some v, True)))" for fs
    using assms by (auto simp: run_command_def subscribe_content_def Let_def split: option.splits)
  show "run_command X src sq (gs @ f # hs) c = Inr ([subscribe_msg X, m, subscribe_msg X], Some v, True)"
    if "(\<forall>g \<in> set gs. print_answer n r ty g = None) \<and> print_answer n r ty f = Some (Inr v)"
    using that wait_answer_first [of gs n r ty f "Inr v" hs] by (simp add: run)
  show "run_command X src sq fs c = Inr ([subscribe_msg X, m], None, False)" if "n < 0 \<or> 512 \<le> n"
  proof -
    have "print_answer n r ty g = None" for g
      using print_answer_node [of n r ty g] that by (cases "print_answer n r ty g") auto
    then show ?thesis using wait_answer_none [of fs n r ty] by (simp add: run)
  qed
  show "run_command X src sq fs c \<noteq> Inr (ms, Some (Value w), b)" if "r < 0 \<or> 256 \<le> r"
  proof
    assume "run_command X src sq fs c = Inr (ms, Some (Value w), b)"
    then have "wait_answer n r ty fs = Some (Inr (Value w))"
      by (auto simp: run rbind_Inr_iff split: option.splits)
    then obtain g where "print_answer n r ty g = Some (Inr (Value w))" using wait_answer_some by blast
    then have "r = int (unat (data g ! 0))" by (auto simp: print_answer_def split: if_splits)
    then show False using that uint_bounded [of "data g ! 0"] by auto
  qed
qed

definition sample_reply :: h9frame where
  "sample_reply = (new_frame 0 5 32)\<lparr>ftype := REG_VALUE, dlc := 3, data := [10, 1, 2, 0, 0, 0, 0, 0]\<rparr>"

theorem cli_answers_witness:
  "\<exists>m. run_command xtree_ops 5 3 [new_frame 0 5 32, sample_reply] (Get_reg 32 10)
     = Inr ([subscribe_msg xtree_ops, m, subscribe_msg xtree_ops], Some (Value 258), True)"
proof -
  have c: "command_frame 5 3 (Get_reg 32 10) = Inr (node_frame GET_REG 5 3 32 [10])" by simp
  have "\<exists>m. send_frame_msg xtree_ops (node_frame GET_REG 5 3 32 [10]) = Inr m"
    using new_frame_msg_ok [OF xtree_laws, of SEND_FRAME "node_frame GET_REG 5 3 32 [10]" "[]"]
    by (auto simp: send_frame_msg_def node_frame_def new_frame_def wf_frame_def)
  then obtain m where m: "send_frame_msg xtree_ops (node_frame GET_REG 5 3 32 [10]) = Inr m" ..
  have "print_answer 32 10 REG_VALUE (new_frame 0 5 32) = None"
    "print_answer 32 10 REG_VALUE sample_reply = Some (Inr (Value 258))"
    by code_simp+
  then show ?thesis
    using cli_answers [OF c m, of 32 10 REG_VALUE "[new_frame 0 5 32]" sample_reply "Value 258" "[]"] by auto
qed

lemma still_subscribed:
  \<comment> \<open>the message a command ends with subscribes again\<close>
  assumes "xml_laws (he_xml env)" and "distinct (map fst (hb_clients h))" and "map_of (hb_clients h) fd = Some c"
  shows "\<exists>h'. process_msg env fd (subscribe_content (he_xml env) NONE_CONTENT) h = (None, h') \<and>
    map_of (hb_clients h') fd = Some (c\<lparr>tc_active := 1\<rparr>)"
proof -
  have "get_type (he_xml env) (subscribe_msg (he_xml env)) = Inr SUBSCRIBE"
    using assms(1) by (simp add: get_type_def subscribe_msg_def)
  moreover have "get_id (he_xml env) (subscribe_msg (he_xml env)) = Inr (strtoull 10 ''0'')"
    using assms(1) by (simp add: get_id_def subscribe_msg_def get_msg_def new_msg_def)
  moreover have "map_of (map (\<lambda>(k, d). (k, if k = fd then e else d)) cs) fd = Some e"
    if "map_of cs fd = Some d" for cs :: "(int \<times> 'a tcp_client) list" and d e
    using that by (induction cs) (auto split: if_splits)
  ultimately show ?thesis
    using upd_client_eq [OF assms(2,3), of "\<lambda>c. (None, c\<lparr>tc_active := 1\<rparr>)" None "c\<lparr>tc_active := 1\<rparr>"] assms(3)
    by (simp add: process_msg_def subscribe_content_def Let_def)
qed

lemma next_completion_filter:
  "filter (\<lambda>w. take (length pre) w = pre) (drop i ws) = (case next_completion ws pre i of
     None \<Rightarrow> [] | Some (w, j) \<Rightarrow> w # filter (\<lambda>w. take (length pre) w = pre) (drop j ws))"
proof (induction ws pre i rule: next_completion.induct)
  case (1 ws pre i)
  show ?case
  proof (cases "i \<ge> length ws")
    case False
    then have "drop i ws = ws ! i # drop (Suc i) ws" by (simp add: Cons_nth_drop_Suc)
    then show ?thesis using 1 False by (subst next_completion.simps) simp
  qed (simp add: next_completion.simps [of ws pre i])
qed

lemma completions_filter: "completions ws pre i = filter (\<lambda>w. take (length pre) w = pre) (drop i ws)"
proof (induction ws pre i rule: completions.induct)
  case (1 ws pre i)
  then show ?case
    by (subst completions.simps, subst next_completion_filter) (auto split: option.splits)
qed

text \<open>
  Completion offers exactly the words of the list that begin with what was typed, in the order of
  the list: the generator with its static index, called until it returns a null pointer, ends and
  computes this filter.
\<close>

theorem completion_filter:
  "completions ws pre 0 = filter (\<lambda>w. take (length pre) w = pre) ws"
  by (simp add: completions_filter)

end
