(* ===== verification/H9_Session.thy ===== *)
theory H9_Session
  imports H9_Executor H9_Server
begin

text \<open>
  A connection of the h9d daemon, from the bytes to the devices: \<open>thread_recv_msg\<close> and \<open>send\<close> of
  \<open>h9d/tcpclientthread.cc\<close> over \<open>H9MsgSocket\<close>, \<open>ExecutorAdapter\<close> and the device directory; and the
  client side of a connection, \<open>protocol/h9connector.cc\<close> with \<open>H9MsgSocket::authentication\<close>. An
  exception that leaves the thread function of a client is \<open>Terminate\<close>.
\<close>

subsection \<open>H9Connector\<close>

record 'n connector =
  cn_next_id :: u64
  cn_out :: "'n gmsg list"

definition new_connector :: "'n connector" where
  "new_connector = \<lparr>cn_next_id = 0, cn_out = []\<rparr>"

definition connector_next_id :: "'n connector \<Rightarrow> u64 \<times> 'n connector" where
  "connector_next_id s = (let i = next_id (cn_next_id s) in (i, s\<lparr>cn_next_id := i\<rparr>))"

definition connector_send_id ::
  "'n libxml \<Rightarrow> int \<times> int \<Rightarrow> 'n gmsg \<Rightarrow> u64 \<Rightarrow> 'n connector \<Rightarrow> u64 res \<times> 'n connector" where
  \<comment> \<open>\<open>send(msg, id)\<close>, for the result of the socket and its \<open>errno\<close>\<close>
  "connector_send_id X r m i s = (if fst r \<le> 0 then (Inl (System_error (snd r)), s)
     else (Inr i, s\<lparr>cn_out := cn_out s @ [set_id X i m]\<rparr>))"

definition connector_send ::
  "'n libxml \<Rightarrow> int \<times> int \<Rightarrow> 'n gmsg \<Rightarrow> 'n connector \<Rightarrow> u64 res \<times> 'n connector" where
  \<comment> \<open>\<open>send(msg)\<close> returns the number it gave the message\<close>
  "connector_send X r m s = (let (i, s1) = connector_next_id s in connector_send_id X r m i s1)"

definition authentication :: "'n libxml \<Rightarrow> int \<times> int \<Rightarrow> string \<Rightarrow> 'n connector \<Rightarrow> int \<times> 'n connector" where
  "authentication X r entity s = (case connector_send X r (identification_msg X entity) s of
     (Inl e, s1) \<Rightarrow> (-1, s1) | (Inr i, s1) \<Rightarrow> (1, s1))"

definition connector_connect ::
  "'n libxml \<Rightarrow> int \<times> int \<Rightarrow> int \<times> int \<Rightarrow> string \<Rightarrow> 'n connector \<Rightarrow> unit res \<times> 'n connector" where
  \<comment> \<open>the results of the socket's \<open>connect\<close> and of the send in \<open>authentication\<close>\<close>
  "connector_connect X rc rs entity s = (if fst rc < 0 then (Inl (System_error (snd rc)), s)
     else (let (a, s1) = authentication X rs entity s in
       if a < 0 then (Inl (System_error (snd rs)), s1)
       else if a = 0 then (Inl (Runtime_error ''Authentication fail''), s1)
       else (Inr (), s1)))"

definition connector_recv :: "'n msg_recv res \<Rightarrow> 'n gmsg res" where
  \<comment> \<open>for the result of \<open>recv_complete_msg\<close>; \<open>errno\<close> is not set when the peer closes\<close>
  "connector_recv r = rbind r (\<lambda>x. case x of Got_msg m \<Rightarrow> Inr m
     | Recv_failed (Os_error e) \<Rightarrow> Inl (System_error e) | _ \<Rightarrow> Inl (System_error 0))"

subsection \<open>TCPClientThread\<close>

record ('o, 'n) session =
  ss_entity :: string
  ss_running :: bool
  ss_open :: bool
    \<comment> \<open>the socket has a descriptor: \<open>h9socket.close()\<close> has not been called\<close>
  ss_next_id :: u64
  ss_memento :: memento
  ss_devmgr :: "'o devmgr"
  ss_out :: "'n gmsg list"

definition session_send :: "'n libxml \<Rightarrow> int \<Rightarrow> 'n gmsg \<Rightarrow> ('o, 'n) session \<Rightarrow> ('o, 'n) session res" where
  \<comment> \<open>\<open>TCPClientThread::send\<close>, for the result of the socket; the call fails on a closed socket\<close>
  "session_send X r m s = (let i = next_id (ss_next_id s); s1 = s\<lparr>ss_next_id := i\<rparr> in
     if r < 0 \<or> \<not> ss_open s then Inl Terminate
     else if r = 0 then Inr (s1\<lparr>ss_running := False\<rparr>)
     else Inr (s1\<lparr>ss_out := ss_out s @ [set_id X i m]\<rparr>))"

definition leaves_thread :: "'a res \<Rightarrow> 'a res" where
  "leaves_thread r = (case r of Inl e \<Rightarrow> Inl (if e = Assertion_failed \<or> e = Undefined_behaviour then e else Terminate)
     | Inr x \<Rightarrow> Inr x)"

definition session_msg ::
  "'n ex_env \<Rightarrow> 'o::linorder \<Rightarrow> int \<Rightarrow> 'n gmsg \<Rightarrow> ('o, 'n) session \<Rightarrow> ('o, 'n) session res" where
  \<comment> \<open>the branches on the type of the message; \<open>sr\<close> is the result of the send\<close>
  "session_msg env cl sr m s = (let X = ee_xml env in rbind (get_type X m) (\<lambda>ty.
     if ty = IDENTIFICATION then rbind (get_entity X m) (\<lambda>en. Inr (s\<lparr>ss_entity := en\<rparr>))
     else if ty = EXECUTEMETHOD then
       rbind (get_id X m) (\<lambda>_. rbind (get_method_name X m) (\<lambda>_.
       rbind (adapter_execute_method env m (ss_devmgr s)) (\<lambda>(a, d1).
         session_send X sr (answer_msg a) (s\<lparr>ss_devmgr := d1\<rparr>))))
     else if ty = EXECUTEDEVICEMETHOD then
       rbind (get_id X m) (\<lambda>_. rbind (get_device_id X m) (\<lambda>_. rbind (get_method_name X m) (\<lambda>_.
       rbind (adapter_execute_device_method env cl m (ss_memento s) (ss_devmgr s)) (\<lambda>(a, mem1, d1).
         session_send X sr (answer_msg a) (s\<lparr>ss_memento := mem1, ss_devmgr := d1\<rparr>)))))
     else rbind (get_id X m) (\<lambda>i.
       session_send X sr (set_request_id X i (error_msg X UNSUPPORTED_MESSAGE_TYPE ''Unsupported message type'')) s)))"

definition thread_recv_msg ::
  "'n ex_env \<Rightarrow> 'o::linorder \<Rightarrow> int \<Rightarrow> 'n msg_recv res \<Rightarrow> ('o, 'n) session \<Rightarrow> ('o, 'n) session res" where
  \<comment> \<open>for the result of \<open>recv_complete_msg\<close>\<close>
  "thread_recv_msg env cl sr r s = leaves_thread (case r of
       Inl e \<Rightarrow> Inl e
     | Inr (Got_msg m) \<Rightarrow> session_msg env cl sr m s
     | Inr (Recv_failed (Os_error e)) \<Rightarrow>
         if e = ECONNRESET then Inr (s\<lparr>ss_running := False, ss_open := False\<rparr>) else Inl (System_error e)
     | Inr _ \<Rightarrow> Inr (s\<lparr>ss_running := False, ss_open := False\<rparr>))"

definition session_end :: "'o::linorder \<Rightarrow> ('o, 'n) session \<Rightarrow> ('o, 'n) session" where
  \<comment> \<open>the end of \<open>thread\<close>\<close>
  "session_end cl s = s\<lparr>ss_devmgr := cleanup_connection cl (ss_memento s) (ss_devmgr s)\<rparr>"

fun thread_send_async_msg :: "'n libxml \<Rightarrow> ('n gmsg \<times> int) list \<Rightarrow> ('o, 'n) session \<Rightarrow> ('o, 'n) session res" where
  \<comment> \<open>the loop until the queue is empty: the messages it takes, with the results of the socket\<close>
  "thread_send_async_msg X [] s = Inr s"
| "thread_send_async_msg X ((m, r) # ms) s = rbind (session_send X r m s) (thread_send_async_msg X ms)"

datatype 'n thread_event = Readable "'n msg_recv res" int | Async "('n gmsg \<times> int) list"

fun thread_events ::
  "'n ex_env \<Rightarrow> 'o::linorder \<Rightarrow> 'n thread_event list \<Rightarrow> ('o, 'n) session \<Rightarrow> ('o, 'n) session res" where
  \<comment> \<open>the loop over the events of one \<open>wait\<close>; nothing checks \<open>running\<close> between them\<close>
  "thread_events env cl [] s = Inr s"
| "thread_events env cl (Readable r sr # es) s = rbind (thread_recv_msg env cl sr r s) (thread_events env cl es)"
| "thread_events env cl (Async ms # es) s = rbind (thread_send_async_msg (ee_xml env) ms s) (thread_events env cl es)"

datatype ('o, 'n) session_input =
    Wait "'n ex_env" "'n thread_event list"
  | Close_connection
  | World "('o, 'n) conn_op"
  \<comment> \<open>a return of \<open>wait\<close>, a call of \<open>close_connection\<close>, and what the other threads do to the directory\<close>

fun world_step :: "device_descs \<Rightarrow> 'n libxml \<Rightarrow> 'o::linorder \<Rightarrow> ('o, 'n) conn_op \<Rightarrow> ('o, 'n) session \<Rightarrow> ('o, 'n) session" where
  "world_step dsc X cl (Call env m) s = s"
| "world_step dsc X cl p s = s\<lparr>ss_devmgr := snd (conn_step dsc X cl p (ss_memento s, ss_devmgr s))\<rparr>"

fun session_thread ::
  "device_descs \<Rightarrow> 'n libxml \<Rightarrow> 'o::linorder \<Rightarrow> ('o, 'n) session_input list \<Rightarrow> ('o, 'n) session \<Rightarrow>
   (bool \<times> ('o, 'n) session) res" where
  \<comment> \<open>\<open>TCPClientThread::thread\<close>: whether it has returned\<close>
  "session_thread dsc X cl [] s = Inr (False, s)"
| "session_thread dsc X cl (Wait env es # is) s = rbind (thread_events env cl es s) (\<lambda>s1.
     if ss_running s1 then session_thread dsc X cl is s1 else Inr (True, session_end cl s1))"
| "session_thread dsc X cl (Close_connection # is) s = session_thread dsc X cl is (s\<lparr>ss_running := False\<rparr>)"
| "session_thread dsc X cl (World p # is) s = session_thread dsc X cl is (world_step dsc X cl p s)"

subsection \<open>Lemmas\<close>

lemma leaves_thread_Inr [simp]: "leaves_thread r = Inr x \<longleftrightarrow> r = Inr x" "leaves_thread (Inr x) = Inr x"
  by (cases r; simp add: leaves_thread_def)+

lemma session_send_ok:
  "0 < sr \<Longrightarrow> ss_open s \<Longrightarrow> session_send X sr m s = Inr (s\<lparr>ss_next_id := next_id (ss_next_id s),
     ss_out := ss_out s @ [set_id X (next_id (ss_next_id s)) m]\<rparr>)"
  by (simp add: session_send_def Let_def)

lemma get_id_set: "xml_laws X \<Longrightarrow> get_id X (set_id X i m) = Inr i"
  by (simp add: get_id_def set_id_def)

lemma get_request_after_id: "xml_laws X \<Longrightarrow> get_request_id X (set_id X i m) = get_request_id X m"
  by (simp add: get_request_id_def set_id_def)

lemma with_request_id_answer:
  "xml_laws X \<Longrightarrow> with_request_id X msg a = Inr b \<Longrightarrow> get_id X msg = Inr i \<Longrightarrow> get_request_id X (answer_msg b) = i"
  by (cases a) (auto simp: with_request_id_def)

lemma adapter_method_total: "length (dm_seqnums m) = 512 \<Longrightarrow> \<exists>a m1. adapter_method env name m = Inr (a, m1)"
  by (auto simp: adapter_method_def executor_discover_def discover_def get_next_seqnum_def Let_def)

lemma adapter_method_ok:
  assumes "devmgr_ok m" and "adapter_method env name m = Inr (a, m1)"
  shows "devmgr_ok m1"
  using assms
  by (auto simp: adapter_method_def executor_discover_def discover_def get_next_seqnum_def devmgr_ok_def Let_def
      rbind_Inr_iff split: if_splits)

lemma invalid_leaves: "e = Invalid_msg x \<Longrightarrow> leaves_thread (Inl e) = Inl Terminate"
  by (simp add: leaves_thread_def)

lemma attribute_errors:
  "get_entity X m = Inl e \<Longrightarrow> \<exists>x. e = Invalid_msg x" "get_method_name X m = Inl e \<Longrightarrow> \<exists>x. e = Invalid_msg x"
  "get_device_id X m = Inl e \<Longrightarrow> \<exists>x. e = Invalid_msg x" "get_id X m = Inl e \<Longrightarrow> \<exists>x. e = Invalid_msg x"
proof -
  show "get_entity X m = Inl e \<Longrightarrow> \<exists>x. e = Invalid_msg x" "get_method_name X m = Inl e \<Longrightarrow> \<exists>x. e = Invalid_msg x"
    by (simp_all add: get_entity_def get_method_name_def msg_prop_error)
  show "get_device_id X m = Inl e \<Longrightarrow> \<exists>x. e = Invalid_msg x"
    by (cases "msg_prop X m ''device-id''") (auto simp: get_device_id_def dest: msg_prop_error)
  show "get_id X m = Inl e \<Longrightarrow> \<exists>x. e = Invalid_msg x"
    by (auto simp: get_id_def missing_def split: option.splits)
qed

subsection \<open>Properties\<close>

definition well_formed_call :: "'n libxml \<Rightarrow> 'n gmsg \<Rightarrow> msg_type \<Rightarrow> u64 \<Rightarrow> bool" where
  \<comment> \<open>what the schema asks for, which the daemon does not check\<close>
  "well_formed_call X m ty k \<longleftrightarrow> get_type X m = Inr ty \<and> get_id X m = Inr k \<and>
     (ty \<in> {EXECUTEMETHOD, EXECUTEDEVICEMETHOD} \<longrightarrow> (\<exists>name. get_method_name X m = Inr name \<and> name \<notin> set antenna_methods)) \<and>
     (ty = EXECUTEDEVICEMETHOD \<longrightarrow> (\<exists>i. get_device_id X m = Inr i))"


text \<open>
  Nothing checks a message before the device daemon uses it: an identification without entity, a
  call without method, or any other message without number raises an exception that leaves the
  client's thread and terminates the daemon, whatever its state.
\<close>

theorem unchecked_message_terminates:
  assumes "get_type (ee_xml env) m = Inr ty"
    and "(if ty = IDENTIFICATION then get_entity (ee_xml env) m = Inl e
          else get_id (ee_xml env) m = Inl e \<or>
            ty \<in> {EXECUTEMETHOD, EXECUTEDEVICEMETHOD} \<and> get_method_name (ee_xml env) m = Inl e)"
  shows "thread_recv_msg env cl sr (Inr (Got_msg m)) s = Inl Terminate"
proof -
  let ?X = "ee_xml env"
  have "\<exists>x. session_msg env cl sr m s = Inl (Invalid_msg x)"
  proof (cases "ty = IDENTIFICATION")
    case True
    then show ?thesis using assms attribute_errors(1) [of ?X m e] by (auto simp: session_msg_def)
  next
    case False
    show ?thesis
    proof (cases "get_id ?X m")
      case (Inl e1)
      then show ?thesis using False assms(1) attribute_errors(4) [OF Inl]
        by (auto simp: session_msg_def Let_def)
    next
      case (Inr i)
      then have "ty \<in> {EXECUTEMETHOD, EXECUTEDEVICEMETHOD}" "get_method_name ?X m = Inl e" using False assms(2) by auto
      then show ?thesis using False Inr assms(1) attribute_errors(2) [of ?X m e] attribute_errors(3) [of ?X m]
        by (cases "get_device_id ?X m") (auto simp: session_msg_def Let_def)
    qed
  qed
  then show ?thesis by (auto simp: thread_recv_msg_def invalid_leaves)
qed

text \<open>
  When a client hangs up while a message for it is queued, the daemon dies: if both events come from
  the same \<open>wait\<close>, the first closes the socket and the second still sends; the failing send throws.
\<close>

theorem hang_up_with_queued_message:
  assumes "r = Inr (Recv_failed Closed) \<or> r = Inr (Recv_failed (Os_error ECONNRESET))"
  shows "session_thread dsc X cl (Wait env (Readable r sr # Async ((m, n) # ms) # es) # is) s = Inl Terminate"
  using assms by (auto simp: thread_recv_msg_def session_send_def)

lemma session_send_directory:
  "session_send X r m s = Inr t \<Longrightarrow> ss_memento t = ss_memento s \<and> ss_devmgr t = ss_devmgr s"
  by (auto simp: session_send_def Let_def split: if_splits)

lemma async_directory:
  "thread_send_async_msg X ms s = Inr t \<Longrightarrow> ss_memento t = ss_memento s \<and> ss_devmgr t = ss_devmgr s"
  by (induction X ms s rule: thread_send_async_msg.induct) (auto simp: rbind_Inr_iff dest: session_send_directory)

lemma adapter_method_subs:
  "adapter_method env name m = Inr (a, m1) \<Longrightarrow> directory_subs m1 = directory_subs m"
  by (auto simp: adapter_method_def executor_discover_def discover_def Let_def rbind_Inr_iff directory_subs_def split: if_splits)

definition remembers :: "'o::linorder \<Rightarrow> ('o, 'n) session \<Rightarrow> bool" where
  "remembers cl s \<longleftrightarrow> remembered cl (ss_memento s) (ss_devmgr s)"

lemma session_msg_remembers:
  assumes "session_msg env cl sr m s = Inr t" and "remembers cl s"
  shows "remembers cl t"
  using assms
  by (auto simp: session_msg_def Let_def rbind_Inr_iff remembers_def remembered_def adapter_execute_method_def
      dest!: session_send_directory adapter_method_subs split: if_splits
      dest: adapter_remembers [unfolded remembered_def])

lemma thread_recv_remembers:
  assumes "thread_recv_msg env cl sr r s = Inr t" and "remembers cl s"
  shows "remembers cl t"
  using assms session_msg_remembers [of env cl sr _ s t]
  by (auto simp: thread_recv_msg_def remembers_def split: sum.splits msg_recv.splits os_recv.splits if_splits)

lemma thread_events_remember:
  "thread_events env cl es s = Inr t \<Longrightarrow> remembers cl s \<Longrightarrow> remembers cl t"
proof (induction env cl es s rule: thread_events.induct)
  case (2 env cl r sr es s)
  then show ?case by (auto simp: rbind_Inr_iff dest: thread_recv_remembers)
next
  case (3 env cl ms es s)
  then show ?case by (auto simp: rbind_Inr_iff remembers_def dest: async_directory)
qed simp

lemma world_remembers:
  assumes "remembers cl s"
  shows "remembers cl (world_step dsc X cl p s)"
proof (cases "\<exists>env m. p = Call env m")
  case True
  then show ?thesis using assms by auto
next
  case False
  let ?r = "conn_step dsc X cl p (ss_memento s, ss_devmgr s)"
  have "world_step dsc X cl p s = s\<lparr>ss_devmgr := snd ?r\<rparr>" using False by (cases p) auto
  moreover have "?r = (ss_memento s, snd ?r)"
    using False by (cases p) (auto split: sum.splits prod.splits)
  then have "remembered cl (ss_memento s) (snd ?r)"
    using conn_step_remembers [of cl "ss_memento s" "ss_devmgr s" dsc X p "ss_memento s" "snd ?r"] assms
    by (simp add: remembers_def)
  ultimately show ?thesis by (simp add: remembers_def)
qed

lemma session_end_forgets:
  assumes "remembers cl s"
  shows "(t, cl) \<notin> directory_subs (ss_devmgr (session_end cl s))"
proof -
  have "{t. (t, cl) \<in> directory_subs (ss_devmgr s)} \<subseteq> set (ss_memento s)"
    using assms by (auto simp: remembers_def remembered_def)
  then show ?thesis
    using directory_events.detach_all_gone [of cl "ss_devmgr s" "ss_memento s" t]
    by (simp add: session_end_def cleanup_connection_def)
qed

lemma session_thread_forgets:
  "session_thread dsc X cl is s = Inr (True, u) \<Longrightarrow> remembers cl s \<Longrightarrow> (t, cl) \<notin> directory_subs (ss_devmgr u)"
proof (induction dsc X cl "is" s rule: session_thread.induct)
  case (2 dsc X cl env es "is" s)
  then obtain s1 where s1: "thread_events env cl es s = Inr s1"
    "(if ss_running s1 then session_thread dsc X cl is s1 else Inr (True, session_end cl s1)) = Inr (True, u)"
    by (auto simp: rbind_Inr_iff)
  have r: "remembers cl s1" by (rule thread_events_remember [OF s1(1) 2(3)])
  then show ?case using 2(1) [of s1] s1(2) session_end_forgets [OF r, of t] by (auto split: if_splits)
next
  case (3 dsc X cl "is" s)
  then show ?case by (simp add: remembers_def)
next
  case (4 dsc X cl p "is" s)
  then show ?case by (simp add: world_remembers)
qed simp

text \<open>
  C20. A connection leaves nothing behind: whatever a client sends, in whatever order with the messages
  queued for it, the frames of the bus and the calls of other clients, once its thread has returned no
  device holds a pointer to it.
\<close>

theorem session_leaves_nothing:
  assumes "session_thread dsc X cl is s = Inr (True, u)" and "ss_memento s = []"
    and "\<forall>t. (t, cl) \<notin> directory_subs (ss_devmgr s)"
  shows "(t, cl) \<notin> directory_subs (ss_devmgr u)"
proof -
  have "remembers cl s" using assms(3) by (simp add: remembers_def remembered_def)
  then show ?thesis by (rule session_thread_forgets [OF assms(1)])
qed

subsection \<open>Witnesses\<close>

definition sample_session :: "(nat, xtree) session" where
  "sample_session = \<lparr>ss_entity = [], ss_running = True, ss_open = True, ss_next_id = 0, ss_memento = [],
     ss_devmgr = sample_devmgr 7, ss_out = []\<rparr>"

lemma sample_call_type: "get_type xtree_ops (sample_call name) = Inr EXECUTEDEVICEMETHOD"
  by (simp add: sample_call_def get_type_def add_value_def dict_add_value_def sample_device_call_def
      set_method_name_def set_id_def xtree_laws)


theorem unchecked_message_terminates_witness:
  "thread_recv_msg (sample_ex_env []) 8 1 (Inr (Got_msg (get_msg xtree_ops EXECUTEMETHOD))) sample_session = Inl Terminate"
proof -
  have x: "ee_xml (sample_ex_env []) = xtree_ops" by (simp add: sample_ex_env_def)
  have "get_type xtree_ops (get_msg xtree_ops EXECUTEMETHOD) = Inr EXECUTEMETHOD"
    "get_method_name xtree_ops (get_msg xtree_ops EXECUTEMETHOD) = Inl (missing ''method'')"
    by (simp_all add: get_type_def get_method_name_def msg_prop_def xtree_laws)
  then show ?thesis
    by (intro unchecked_message_terminates [of _ _ EXECUTEMETHOD "missing ''method''"]) (simp_all add: x)
qed

theorem hang_up_with_queued_message_witness:
  "session_thread [] xtree_ops 8 [Wait (sample_ex_env []) [Readable (Inr (Recv_failed Closed)) 0,
     Async [(device_event xtree_ops 16 ''register_change'', 100)]]] sample_session = Inl Terminate"
  by (rule hang_up_with_queued_message) simp

theorem session_leaves_nothing_witness:
  "\<exists>u. session_thread [] xtree_ops 8 [Wait (sample_ex_env []) [Readable (Inr (Got_msg (sample_call ''subscribe''))) 1],
     World (Other_attach 9 (16, ''register_change'')), Wait (sample_ex_env []) [Readable (Inr (Recv_failed Closed)) 0]]
     sample_session = Inr (True, u) \<and> ((16, ''register_change''), 8) \<notin> directory_subs (ss_devmgr u)"
proof -
  let ?env = "sample_ex_env [] :: xtree ex_env" and ?m = "sample_call ''subscribe''"
  have x: "ee_xml ?env = xtree_ops" by (simp add: sample_ex_env_def)
  have d: "devmgr_ok (ss_devmgr sample_session)" by (simp add: sample_session_def sample_devmgr_ok)
  obtain a mem1 m1 where a: "adapter_execute_device_method ?env 8 ?m (ss_memento sample_session) (ss_devmgr sample_session) = Inr (a, mem1, m1)"
    using device_call_total [OF _ d sample_quiet, of ?m 16 "''subscribe''" 31 8 "ss_memento sample_session"]
      sample_call_parts [of "''subscribe''"]
    by (auto simp: x xtree_laws antenna_methods_def)
  have "\<exists>s1. thread_recv_msg ?env 8 1 (Inr (Got_msg ?m)) sample_session = Inr s1 \<and> ss_running s1"
    using a sample_call_parts [of "''subscribe''"]
    by (simp add: thread_recv_msg_def session_msg_def x sample_call_type session_send_def sample_session_def Let_def)
  then obtain u where u: "session_thread [] xtree_ops 8 [Wait ?env [Readable (Inr (Got_msg ?m)) 1],
     World (Other_attach 9 (16, ''register_change'')), Wait ?env [Readable (Inr (Recv_failed Closed)) 0]] sample_session = Inr (True, u)"
    by (auto simp: thread_recv_msg_def)
  moreover have "\<forall>t. (t, 8) \<notin> directory_subs (ss_devmgr sample_session)" "ss_memento sample_session = []"
    by (auto simp: sample_session_def directory_subs_def sample_devmgr_def add_device_def new_devmgr_def)
  ultimately show ?thesis using session_leaves_nothing [OF u, of "(16, ''register_change'')"] by blast
qed

end
