(* ===== verification/H9_Tools.thy ===== *)
theory H9_Tools
  imports H9_Server "HOL-Library.Signed_Division"
begin

text \<open>
  The command line tools around h9bus: \<open>h9send/h9send.cc\<close> (one frame from the options),
  \<open>h9sniffer/h9sniffer.cc\<close> (the text printed for a frame) and \<open>h9stat/h9stat.cc\<close> (the report made of
  the answer to \<open>h9bus_stat\<close>); and the log lines for frames of \<open>h9bus/busmgr.cc\<close> and
  \<open>h9bus/framelogger.cc\<close>. The options as cxxopts has parsed them are inputs. An exception that leaves
  \<open>main\<close> is the result of the definition.
\<close>

subsection \<open>h9send\<close>

record send_options =
  so_src_id :: "u16 option"
  so_dst_id :: "u16 option"
  so_high_priority :: bool
  so_type :: "u8 option"
  so_repeat :: "nat option"
  so_data :: "string list"

definition stoul :: "nat \<Rightarrow> string \<Rightarrow> u64 res" where
  "stoul b s = (case strto b s of None \<Rightarrow> Inl Invalid_argument
     | Some v \<Rightarrow> if \<bar>v\<bar> < 2 ^ 64 then Inr (word_of_int v) else Inl Out_of_range)"

fun fill_data :: "string list \<Rightarrow> h9frame \<Rightarrow> h9frame res" where
  \<comment> \<open>the loop over the arguments, left when the frame is full\<close>
  "fill_data [] f = Inr f"
| "fill_data (s # ss) f = rbind (stoul 16 s) (\<lambda>v.
     let f1 = f\<lparr>data := (data f)[unat (dlc f) := ucast v], dlc := dlc f + 1\<rparr>
     in if dlc f1 = 8 then Inr f1 else fill_data ss f1)"

definition send_frame_of :: "send_options \<Rightarrow> u16 \<Rightarrow> h9frame \<Rightarrow> h9frame res" where
  \<comment> \<open>from the new frame, with the default source of the configuration\<close>
  "send_frame_of opts dflt f0 = fill_data (so_data opts) (f0\<lparr>
     source_id := ucast (case so_src_id opts of Some s \<Rightarrow> s | None \<Rightarrow> dflt),
     destination_id := (case so_dst_id opts of Some d \<Rightarrow> ucast d | None \<Rightarrow> destination_id f0),
     priority := (if so_high_priority opts then HIGH else LOW),
     ftype := (case so_type opts of Some t \<Rightarrow> t | None \<Rightarrow> ftype f0),
     dlc := 0\<rparr>)"

definition h9send :: "'n libxml \<Rightarrow> send_options \<Rightarrow> u16 \<Rightarrow> h9frame \<Rightarrow> nat \<Rightarrow> 'n gmsg list res" where
  \<comment> \<open>the messages of the first \<open>k\<close> turns of the loop of option \<open>repeat\<close>, or the single one\<close>
  "h9send X opts dflt f0 k = rbind (send_frame_of opts dflt f0) (\<lambda>f.
     rbind (send_frame_msg X f) (\<lambda>m. Inr (replicate (if so_repeat opts = None then 1 else k) m)))"

subsection \<open>h9sniffer\<close>

definition is_print :: "u8 \<Rightarrow> bool" where
  \<comment> \<open>\<open>isprint\<close> in the C locale\<close>
  "is_print b \<longleftrightarrow> 32 \<le> unat b \<and> unat b < 127"

fun text_buf :: "u8 list \<Rightarrow> nat \<Rightarrow> u8 list \<Rightarrow> u8 list" where
  \<comment> \<open>the loop from \<open>frame.dlc - 1\<close> down to 1: index, \<open>buf\<close>\<close>
  "text_buf d 0 buf = buf"
| "text_buf d (Suc i) buf = (if is_print (d ! Suc i) then text_buf d i (buf[i := d ! Suc i]) else buf)"

definition byte_int :: "u8 \<Rightarrow> u32" where
  \<comment> \<open>the promotion to \<open>int\<close>; shifts and or of \<open>int\<close>s are those of 32 bits\<close>
  "byte_int b = ucast b"

definition reg_value :: "h9frame \<Rightarrow> string" where
  \<comment> \<open>the switch on \<open>frame.dlc\<close>\<close>
  "reg_value f = (let d = (\<lambda>i. byte_int (data f ! i)) in
     if dlc f = 2 then int_string (sint (d 1))
     else if dlc f = 3 then int_string (sint (push_bit 8 (d 1) OR d 2))
     else if dlc f = 5 then int_string (sint (push_bit 24 (d 1) OR push_bit 16 (d 2) OR push_bit 8 (d 3) OR d 4))
     else [])"

definition print_reg_value :: "h9frame \<Rightarrow> string res" where
  "print_reg_value f = (if unat (dlc f) \<le> 1 then Inr []
     else if length (data f) < unat (dlc f) then Inl Undefined_behaviour
     else Inr (''    value: '' @ reg_value f @ '' '' @
       c_string (text_buf (data f) (unat (dlc f) - 1) (replicate 8 0)) @ [CHR 0x0A]))"

definition udec :: "h9frame \<Rightarrow> nat \<Rightarrow> string" where
  "udec f i = dec_string (unat (data f ! i))"

definition udec2 :: "h9frame \<Rightarrow> nat \<Rightarrow> string" where
  \<comment> \<open>two bytes, the first shifted by eight\<close>
  "udec2 f i = dec_string (unat (push_bit 8 (byte_int (data f ! i)) OR byte_int (data f ! (i + 1))))"

definition line :: "string \<Rightarrow> string \<Rightarrow> string" where
  "line k v = ''    '' @ k @ '': '' @ v @ [CHR 0x0A]"

definition print_details :: "h9frame \<Rightarrow> string res" where
  \<comment> \<open>\<open>print_frame\<close> of the sniffer; a null pointer as the name of the type is undefined\<close>
  "print_details f = (case type_to_string (ftype f) of None \<Rightarrow> Inl Undefined_behaviour
     | Some t \<Rightarrow> rbind
         (if ftype f \<in> {REG_EXTERNALLY_CHANGED, REG_INTERNALLY_CHANGED, REG_VALUE_BROADCAST, REG_VALUE, SET_REG, GET_REG}
          then rbind (print_reg_value f) (\<lambda>v. Inr (line ''reg'' (udec f 0) @ v))
          else if ftype f = SET_BIT then Inr (line ''reg'' (udec f 0) @ line ''set bit'' (udec f 1))
          else if ftype f = CLEAR_BIT then Inr (line ''reg'' (udec f 0) @ line ''clear bit'' (udec f 1))
          else if ftype f = TOGGLE_BIT then Inr (line ''reg'' (udec f 0) @ line ''toggle bit'' (udec f 1))
          else if ftype f = NODE_TURNED_ON \<or> ftype f = NODE_INFO then
            Inr (line ''node type'' (udec2 f 0) @
                 line ''node firmware'' (udec2 f 2 @ ''.'' @ udec2 f 4 @ ''.'' @ udec2 f 6))
          else if ftype f = BOOTLOADER_TURNED_ON then
            Inr (line ''bootloader version'' (udec f 0 @ ''.'' @ udec f 1) @
                 line ''node MCU type'' (udec f 2) @ line ''node type'' (udec2 f 3))
          else if ftype f = ERROR then
            Inr (line ''error'' (udec f 0 @ '' - '' @ error_to_string (data f ! 0)))
          else Inr [])
         (\<lambda>s. Inr (line ''type name'' t @
            (if unat (destination_id f) = BROADCAST_ID then line ''destination'' ''BROADCAST'' else []) @ s)))"

definition sniff_csv :: "h9frame \<Rightarrow> string res" where
  "sniff_csv f = rbind (frame_bytes f) (\<lambda>bs. Inr (
     dec_string (unat (source_id f)) @ '','' @ dec_string (unat (destination_id f)) @ '','' @
     [priority_char f] @ '','' @ dec_string (unat (ftype f)) @ '','' @ dec_string (unat (seqnum f)) @ '','' @
     dec_string (unat (dlc f)) @ '','' @ concat (map (hex_byte False) bs) @ [CHR 0x0A]))"

definition output_mode :: "nat \<Rightarrow> nat \<Rightarrow> nat" where
  \<comment> \<open>the counts of the options \<open>simple\<close> and \<open>extended\<close>\<close>
  "output_mode simple extended = (if simple = 1 \<and> extended = 0 then 0
     else if extended = 1 \<and> simple = 0 then 2 else 1)"

definition sniff_msg :: "'n libxml \<Rightarrow> nat \<Rightarrow> 'n gmsg \<Rightarrow> string res" where
  \<comment> \<open>what one message prints; other messages go to the log\<close>
  "sniff_msg X mode m = rbind (get_type X m) (\<lambda>ty. if ty \<noteq> FRAME then Inr [] else
     rbind (get_frame X m) (\<lambda>f. if mode = 0 then sniff_csv f else
       rbind (print_frame f) (\<lambda>s. rbind (if mode = 2 then print_details f else Inr []) (\<lambda>d.
         Inr (s @ [CHR 0x0A] @ d)))))"

subsection \<open>Log lines of frames\<close>

definition frame_to_log_string :: "string \<Rightarrow> h9frame \<Rightarrow> string res" where
  \<comment> \<open>\<open>BusMgr::frame_to_log_string\<close>\<close>
  "frame_to_log_string endpoint f = rbind (frame_bytes f) (\<lambda>bs. Inr (
     endpoint @ '': '' @ dec_string (unat (source_id f)) @ ''->'' @ dec_string (unat (destination_id f)) @
     ''; priority: '' @ [priority_char f] @ ''; type: '' @ dec_string (unat (ftype f)) @
     ''; seqnum: '' @ dec_string (unat (seqnum f)) @ ''; dlc: '' @ dec_string (unat (dlc f)) @ ''; data:'' @
     concat (map (\<lambda>b. CHR '' '' # hex_byte False b) bs) @ '';''))"

definition log_send :: "string \<Rightarrow> string \<Rightarrow> h9frame \<Rightarrow> string res" where
  \<comment> \<open>\<open>FrameLogger::log_send\<close> and \<open>log_recv\<close>; the first argument is the pointer printed\<close>
  "log_send pt endpoint f = rbind (frame_bytes f) (\<lambda>bs. Inr (
     pt @ '' '' @ endpoint @ '': '' @ dec_string (unat (source_id f)) @ '' -> '' @ dec_string (unat (destination_id f)) @
     '' priority: '' @ [priority_char f] @ '' type: '' @ setw (CHR '' '') 2 (dec_string (unat (ftype f))) @
     '' seqnum: '' @ setw (CHR '' '') 2 (dec_string (unat (seqnum f))) @ '' dlc: '' @ dec_string (unat (dlc f)) @
     (if dlc f = 0 then [] else '' data:'' @ concat (map (\<lambda>b. CHR '' '' # hex_byte False b) bs)) @ [CHR 0x0A]))"

subsection \<open>h9stat\<close>

record uptime_parts =
  up_day :: int
  up_hour :: int
  up_minutes :: int
  up_seconds :: int

definition split_uptime :: "int \<Rightarrow> uptime_parts" where
  \<comment> \<open>division and remainder of \<open>int\<close> round towards zero\<close>
  "split_uptime n = (let r = n smod (24 * 3600) in
     \<lparr>up_day = n sdiv (24 * 3600), up_hour = r sdiv 3600,
      up_minutes = (r smod 3600) sdiv 60, up_seconds = (r smod 3600) smod 60\<rparr>)"

definition print_uptime :: "int \<Rightarrow> string" where
  "print_uptime n = (let u = split_uptime n; part = (\<lambda>v s. if v \<noteq> 0 then int_string v @ '' '' @ s else []) in
     part (up_day u) ''days '' @ part (up_hour u) ''hours '' @ part (up_minutes u) ''minutes '' @
     int_string (up_seconds u) @ '' seconds'')"

record stat_state =
  st_uptime :: int
  st_sent :: int
  st_received :: int

record endpoint_stat =
  es_name :: string
  es_sent :: int
  es_received :: int
  es_new_sent :: int
    \<comment> \<open>the difference to the last number, from which the rate is computed\<close>
  es_new_received :: int
  es_seconds :: int

record stat_report =
  sr_version :: string
  sr_uptime :: int
  sr_clients :: int
  sr_endpoints :: "endpoint_stat list"

definition int_minus :: "int \<Rightarrow> int \<Rightarrow> int res" where
  "int_minus a b = (if - (2 ^ 31) \<le> a - b \<and> a - b < 2 ^ 31 then Inr (a - b) else Inl Undefined_behaviour)"

definition int_at :: "'n libxml \<Rightarrow> 'n \<Rightarrow> string \<Rightarrow> int res" where
  \<comment> \<open>\<open>v[k].get_value_as_int()\<close>\<close>
  "int_at X n k = rbind (value_at X n k) (get_value_as_int X)"

definition endpoint_stat_of :: "'n libxml \<Rightarrow> int \<Rightarrow> 'n \<Rightarrow> stat_state \<Rightarrow> (endpoint_stat \<times> stat_state) res" where
  \<comment> \<open>the body of the loop over the endpoints\<close>
  "endpoint_stat_of X uptime n s =
     rbind (int_at X n ''send_frames_counter'') (\<lambda>sent. rbind (int_minus sent (st_sent s)) (\<lambda>ds.
     rbind (int_minus uptime (st_uptime s)) (\<lambda>secs.
     rbind (int_at X n ''received_frames_counter'') (\<lambda>received. rbind (int_minus received (st_received s)) (\<lambda>dr.
       Inr (\<lparr>es_name = value_name X n, es_sent = sent, es_received = received, es_new_sent = ds,
             es_new_received = dr, es_seconds = secs\<rparr>, s\<lparr>st_sent := sent, st_received := received\<rparr>))))))"

fun endpoint_stats :: "'n libxml \<Rightarrow> int \<Rightarrow> 'n list \<Rightarrow> stat_state \<Rightarrow> (endpoint_stat list \<times> stat_state) res" where
  "endpoint_stats X uptime [] s = Inr ([], s)"
| "endpoint_stats X uptime (n # ns) s = rbind (endpoint_stat_of X uptime n s) (\<lambda>(e, s1).
     rbind (endpoint_stats X uptime ns s1) (\<lambda>(es, s2). Inr (e # es, s2)))"

definition stat_turn :: "'n libxml \<Rightarrow> 'n gmsg \<Rightarrow> stat_state \<Rightarrow> (stat_report \<times> stat_state) option res" where
  \<comment> \<open>one turn of the loop for the message received; \<open>None\<close>: the program ends with \<open>EXIT_FAILURE\<close>\<close>
  "stat_turn X m s = rbind (get_type X m) (\<lambda>ty. if ty \<noteq> METHODRESPONSE then Inr None else
     (case msg_node m of None \<Rightarrow> Inl Undefined_behaviour | Some r \<Rightarrow>
       rbind (rbind (value_at X r ''version'') (get_value_as_str X)) (\<lambda>version.
       rbind (int_at X r ''uptime'') (\<lambda>uptime.
       rbind (int_at X r ''connected_clients_count'') (\<lambda>clients.
       rbind (value_at X r ''endpoint'') (\<lambda>a.
       rbind (endpoint_stats X uptime (xelems X a) s) (\<lambda>(es, s1).
         Inr (Some (\<lparr>sr_version = version, sr_uptime = uptime, sr_clients = clients,
                     sr_endpoints = es\<rparr>, s1\<lparr>st_uptime := uptime\<rparr>)))))))))"

subsection \<open>Lemmas\<close>

lemma split_at:
  "x \<notin> set a \<Longrightarrow> x \<notin> set b \<Longrightarrow> a @ x # c = b @ x # d \<longleftrightarrow> a = b \<and> c = d"
  by (induction a arbitrary: b; case_tac b) auto

lemma comma_dec [simp]: "CHR '','' \<notin> set (dec_string n)"
proof
  assume "CHR '','' \<in> set (dec_string n)"
  then obtain d where d: "d < 10" "CHR '','' = digit_char False d" using dec_string_chars by blast
  have "digit_val (CHR '','') = None" by code_simp
  then show False using d digit_val_char [of d False] by simp
qed

lemma dec_string_inj [simp]: "dec_string m = dec_string n \<longleftrightarrow> m = n"
  using strto_dec_string [of m] strto_dec_string [of n] by (metis of_nat_eq_iff option.inject)

lemma hex_data_inj:
  "length bs = length cs \<Longrightarrow> concat (map (hex_byte up) bs) @ s = concat (map (hex_byte up) cs) @ t \<Longrightarrow> bs = cs"
proof (induction bs cs rule: list_induct2)
  case (Cons b bs c cs)
  then have "hex_byte up b = hex_byte up c" by simp
  then have "b = c" by (metis strtol_hex_byte)
  then show ?case using Cons by simp
qed simp

subsection \<open>Properties\<close>

text \<open>
  The simple output of the sniffer loses nothing: two frames that give the same line have the same
  header fields and the same data bytes up to their length; every frame the bus can carry gives one.
\<close>

theorem csv_determines_frame:
  assumes "valid_frame f" and "valid_frame g" and "sniff_csv f = sniff_csv g"
  shows "clear_tail f = clear_tail g \<and> (\<exists>s. sniff_csv f = Inr s)"
proof -
  let ?bs = "\<lambda>f. take (unat (dlc f)) (data f)"
  note v = valid_frameD [OF assms(1)] valid_frameD [OF assms(2)]
  have b: "frame_bytes f = Inr (?bs f)" "frame_bytes g = Inr (?bs g)"
    using assms(1,2) by (simp_all add: frame_bytes_valid valid_frame_def)
  have p: "CHR '','' \<notin> set [priority_char h]" for h by (simp add: priority_char_def)
  note cut = split_at [OF comma_dec comma_dec] split_at [OF p p]
  have h: "dec_string (unat (source_id f)) = dec_string (unat (source_id g)) \<and>
      dec_string (unat (destination_id f)) = dec_string (unat (destination_id g)) \<and>
      [priority_char f] = [priority_char g] \<and> dec_string (unat (ftype f)) = dec_string (unat (ftype g)) \<and>
      dec_string (unat (seqnum f)) = dec_string (unat (seqnum g)) \<and> dec_string (unat (dlc f)) = dec_string (unat (dlc g)) \<and>
      concat (map (hex_byte False) (?bs f)) @ [CHR 0x0A] = concat (map (hex_byte False) (?bs g)) @ [CHR 0x0A]"
    using assms(3) b by (simp add: sniff_csv_def cut del: dec_string_inj append1_eq_conv append_same_eq)
  then have e: "source_id f = source_id g" "destination_id f = destination_id g" "priority_char f = priority_char g"
    "ftype f = ftype g" "seqnum f = seqnum g" "dlc f = dlc g"
    by (simp_all add: word_unat_eq_iff)
  have d: "concat (map (hex_byte False) (?bs f)) @ [CHR 0x0A] = concat (map (hex_byte False) (?bs g)) @ [CHR 0x0A]"
    using h by blast
  have "priority f = priority g" using e(3) by (cases "priority f"; cases "priority g") (simp_all add: priority_char_def)
  moreover have "?bs f = ?bs g" by (rule hex_data_inj [OF _ d]) (use v e(6) in simp)
  ultimately have "clear_tail f = clear_tail g" using e by (cases f; cases g) (simp add: clear_tail_def)
  then show ?thesis using b by (simp add: sniff_csv_def)
qed

definition sample_sniffed :: h9frame where
  "sample_sniffed = (new_frame 3 16 5)\<lparr>ftype := REG_VALUE, dlc := 4, data := [10, 72, 73, 33, 0, 0, 0, 0]\<rparr>"

theorem csv_determines_frame_witness:
  "sniff_csv sample_sniffed = Inr (''5,16,L,19,3,4,0a484921'' @ [CHR 0x0A]) \<and>
   sniff_csv (sample_sniffed\<lparr>data := [10, 72, 73, 33, 1, 2, 3, 4]\<rparr>) = sniff_csv sample_sniffed \<and>
   clear_tail (sample_sniffed\<lparr>data := [10, 72, 73, 33, 1, 2, 3, 4]\<rparr>) = clear_tail sample_sniffed"
proof -
  let ?g = "sample_sniffed\<lparr>data := [10, 72, 73, 33, 1, 2, 3, 4]\<rparr>"
  have v: "valid_frame sample_sniffed" "valid_frame ?g" by (simp_all add: sample_sniffed_def new_frame_def valid_frame_def wf_frame_def)
  have s: "sniff_csv sample_sniffed = Inr (''5,16,L,19,3,4,0a484921'' @ [CHR 0x0A])" by code_simp
  have e: "sniff_csv ?g = sniff_csv sample_sniffed" by code_simp
  then show ?thesis using csv_determines_frame [OF v(2,1) e] s by simp
qed

definition text_of :: "u8 list \<Rightarrow> string" where
  "text_of bs = (if \<forall>b \<in> set bs. is_print b then of_bytes bs else [])"

definition be_int :: "u8 list \<Rightarrow> int" where
  \<comment> \<open>the number in network order\<close>
  "be_int bs = fold (\<lambda>b v. v * 256 + uint b) bs 0"

lemma text_buf_spec:
  assumes "length d = Suc n" and "k \<le> n" and "n \<le> 7" and "\<forall>j. k < j \<and> j \<le> n \<longrightarrow> is_print (d ! j)"
  shows "c_string (text_buf d k (replicate k 0 @ drop (Suc k) d @ replicate (8 - n) 0)) = text_of (drop 1 d)"
  using assms
proof (induction k)
  case 0
  have "is_print b" if "b \<in> set (drop 1 d)" for b
  proof -
    from that obtain i where "i < length (drop 1 d)" "drop 1 d ! i = b" unfolding in_set_conv_nth by blast
    then have "i < n" "b = d ! Suc i" using 0(1) by auto
    then show ?thesis using 0(4) [rule_format, of "Suc i"] by simp
  qed
  moreover have "\<not> is_print 0" by (simp add: is_print_def)
  ultimately have "takeWhile (\<lambda>b. b \<noteq> 0) (drop 1 d) = drop 1 d" "\<forall>b \<in> set (drop 1 d). is_print b"
    by (auto simp: takeWhile_eq_all_conv)
  moreover have "8 - n \<noteq> 0" using 0(3) by simp
  ultimately show ?case
    by (cases "8 - n") (simp_all add: c_string_def text_of_def takeWhile_append2 takeWhile_eq_all_conv)
next
  case (Suc k)
  let ?t = "replicate (8 - n) (0 :: u8)"
  show ?case
  proof (cases "is_print (d ! Suc k)")
    case True
    have "(replicate (Suc k) 0 @ drop (Suc (Suc k)) d @ ?t)[k := d ! Suc k] = replicate k 0 @ drop (Suc k) d @ ?t"
    proof -
      have "replicate (Suc k) (0 :: u8) = replicate k 0 @ [0]" by (simp add: replicate_append_same)
      moreover have "drop (Suc k) d = d ! Suc k # drop (Suc (Suc k)) d"
        using Suc.prems by (simp add: Cons_nth_drop_Suc)
      ultimately show ?thesis by (simp add: list_update_append)
    qed
    then have "text_buf d (Suc k) (replicate (Suc k) 0 @ drop (Suc (Suc k)) d @ ?t)
        = text_buf d k (replicate k 0 @ drop (Suc k) d @ ?t)" using True by simp
    moreover have "\<forall>j. k < j \<and> j \<le> n \<longrightarrow> is_print (d ! j)" using Suc.prems(4) True by (metis Suc_lessI)
    ultimately show ?thesis using Suc.IH Suc.prems by simp
  next
    case False
    have "drop 1 d ! k = d ! Suc k" "k < length (drop 1 d)" using Suc.prems by simp_all
    then have "d ! Suc k \<in> set (drop 1 d)" by (metis nth_mem)
    then show ?thesis using False by (auto simp: c_string_def text_of_def of_bytes_def)
  qed
qed

lemma text_buf_take: "k < m \<Longrightarrow> text_buf (take m d) k buf = text_buf d k buf"
  by (induction k arbitrary: buf) simp_all

lemma be_int_word:
  "push_bit 8 (byte_int a) OR byte_int b = word_of_int (be_int [a, b])"
  "push_bit 24 (byte_int a) OR push_bit 16 (byte_int b) OR push_bit 8 (byte_int c) OR byte_int d = word_of_int (be_int [a, b, c, d])"
  "byte_int a = word_of_int (be_int [a])"
proof -
  have or_add: "push_bit 8 (w :: u32) OR byte_int x = push_bit 8 w + byte_int x" for w x
    by (rule disjunctive_add [symmetric]) (auto simp: byte_int_def bit_simps dest: bit_imp_le_length)
  have e: "byte_int x = word_of_int (uint x)" for x by (simp add: byte_int_def)
  have s: "push_bit 8 (word_of_int v) = (word_of_int (v * 256) :: u32)" for v
    by (simp add: push_bit_eq_mult mult.commute)
  have or2: "push_bit 8 (word_of_int v) OR byte_int x = (word_of_int (v * 256 + uint x) :: u32)" for v x
    by (rule or_add [THEN trans]) (simp add: s e)
  have eq: "push_bit 24 (byte_int a) OR push_bit 16 (byte_int b) OR push_bit 8 (byte_int c) OR byte_int d
      = push_bit 8 (push_bit 8 (push_bit 8 (byte_int a) OR byte_int b) OR byte_int c) OR byte_int d"
    by (simp add: push_bit_or or.assoc)
  show "push_bit 24 (byte_int a) OR push_bit 16 (byte_int b) OR push_bit 8 (byte_int c) OR byte_int d = word_of_int (be_int [a, b, c, d])"
    by (rule eq [THEN trans]) (simp only: e [of a] or2 be_int_def fold_simps id_apply mult_zero_left add_0)
  show "push_bit 8 (byte_int a) OR byte_int b = word_of_int (be_int [a, b])"
    by (simp only: e [of a] or2 be_int_def fold_simps id_apply mult_zero_left add_0)
  show "byte_int a = word_of_int (be_int [a])" by (simp add: e be_int_def)
qed

text \<open>
  What the sniffer shows of a register: the bytes behind the register number as a number in
  network order, taken as a signed number of 32 bits, when there are one, two or four of them, and
  nothing for three, five, six or seven; and the bytes as text exactly when all of them can be
  printed. The loop that builds the text stays inside both arrays.
\<close>

theorem sniffed_register:
  assumes "wf_frame f" and "unat (dlc f) = Suc n" and "1 \<le> n" and "n \<le> 7" and "bs = take n (drop 1 (data f))"
  shows "print_reg_value f = Inr (''    value: '' @
    (if n \<in> {1, 2, 4} then int_string (sint (word_of_int (be_int bs) :: u32)) else []) @ '' '' @ text_of bs @ [CHR 0x0A])"
proof -
  have l: "length (data f) = 8" using assms(1) by (simp add: wf_frame_def)
  have d: "dlc f = of_nat (Suc n)" unfolding assms(2) [symmetric] by simp
  have t: "c_string (text_buf (data f) n (replicate 8 0)) = text_of bs"
  proof -
    have "replicate 8 (0 :: u8) = replicate n 0 @ replicate (8 - n) 0"
      using assms(4) by (simp flip: replicate_add)
    moreover have "\<forall>j. n < j \<and> j \<le> n \<longrightarrow> is_print (take (Suc n) (data f) ! j)" by auto
    ultimately show ?thesis
      using text_buf_spec [of "take (Suc n) (data f)" n n, OF _ order_refl assms(4)] text_buf_take [of n "Suc n" "data f"] l assms(4,5)
      by (simp add: drop_take)
  qed
  have v: "reg_value f = (if n \<in> {1, 2, 4} then int_string (sint (word_of_int (be_int bs) :: u32)) else [])"
  proof -
    obtain x y z u w r where r: "data f = x # y # z # u # w # r" using list_eq_8 [OF l] by metis
    consider "n = 1" | "n = 2" | "n = 4" | "n \<in> {3, 5, 6, 7}" using assms(3,4) by fastforce
    then show ?thesis
    proof cases
      case 1
      then show ?thesis by (simp add: reg_value_def d r assms(5) be_int_word(3))
    next
      case 2
      then show ?thesis by (simp add: reg_value_def d r assms(5) be_int_word(1) numeral_2_eq_2)
    next
      case 3
      then show ?thesis by (simp add: reg_value_def d r assms(5) be_int_word(2))
    next
      case 4
      then show ?thesis by (auto simp: reg_value_def d)
    qed
  qed
  show ?thesis using assms(2,3,4) l t v by (simp add: print_reg_value_def)
qed

theorem sniffed_register_witness:
  "print_reg_value sample_sniffed = Inr (''    value:  HI!'' @ [CHR 0x0A]) \<and>
   print_reg_value (sample_sniffed\<lparr>dlc := 3, data := [10, 1, 2, 0, 0, 0, 0, 0]\<rparr>) = Inr (''    value: 258 '' @ [CHR 0x0A])"
proof -
  have "text_of [72, 73, 33] = ''HI!''" "text_of [1, 2] = []" "int_string (sint (word_of_int (be_int [1, 2]) :: u32)) = ''258''"
    by code_simp+
  then show ?thesis
    using sniffed_register [of sample_sniffed 3 "[72, 73, 33]"]
      sniffed_register [of "sample_sniffed\<lparr>dlc := 3, data := [10, 1, 2, 0, 0, 0, 0, 0]\<rparr>" 2 "[1, 2]"]
    by (simp add: sample_sniffed_def wf_frame_def)
qed

lemma fold_add_dicts:
  "xml_laws X \<Longrightarrow> xelems X (fold (\<lambda>n. array_add_dict X (g n)) ns a) = xelems X a @ map (\<lambda>n. g n (xnew X ''dict'')) ns"
  by (induction ns arbitrary: a) (simp_all add: array_add_dict_def)

lemma fold_add_dicts_prop:
  "xml_laws X \<Longrightarrow> xget_prop X (fold (\<lambda>n. array_add_dict X (g n)) ns a) k = xget_prop X a k"
  by (induction ns arbitrary: a) (simp_all add: array_add_dict_def)

definition endpoint_dict :: "'n libxml \<Rightarrow> string \<Rightarrow> u32 \<Rightarrow> u32 \<Rightarrow> 'n" where
  "endpoint_dict X n sent recvd =
     dict_add_value X ''received_frames_counter'' (dec_string (unat recvd))
       (dict_add_value X ''send_frames_counter'' (dec_string (unat sent)) (dict_add_value X ''name'' n (xnew X ''dict'')))"

definition small :: "u32 \<Rightarrow> bool" where "small w \<longleftrightarrow> uint w < 2 ^ 31"

lemma stoi_counter: "stoi 10 (dec_string (unat (w :: u32))) = (if small w then Inr (uint w) else Inl Out_of_range)"
proof -
  have "- (2 ^ 31) \<le> uint w" by (rule order_trans [of _ 0]) simp_all
  then show ?thesis by (simp add: stoi_def small_def)
qed

lemma endpoint_dict_values:
  assumes "xml_laws X"
  shows "int_at X (endpoint_dict X n sent recvd) ''send_frames_counter'' = stoi 10 (dec_string (unat sent))"
    "int_at X (endpoint_dict X n sent recvd) ''received_frames_counter'' = stoi 10 (dec_string (unat recvd))"
    "value_name X (endpoint_dict X n sent recvd) = []"
  using assms
  by (simp_all add: endpoint_dict_def int_at_def value_at_def dict_add_value_def get_value_as_int_def value_name_def)

lemma int_minus_small: "0 \<le> a \<Longrightarrow> a < 2 ^ 31 \<Longrightarrow> 0 \<le> b \<Longrightarrow> b < 2 ^ 31 \<Longrightarrow> int_minus a b = Inr (a - b)"
  by (simp add: int_minus_def)

definition in_range :: "int \<Rightarrow> bool" where "in_range v \<longleftrightarrow> 0 \<le> v \<and> v < 2 ^ 31"

definition state_ok :: "stat_state \<Rightarrow> bool" where
  "state_ok s \<longleftrightarrow> in_range (st_uptime s) \<and> in_range (st_sent s) \<and> in_range (st_received s)"

fun differences :: "int \<Rightarrow> int list \<Rightarrow> int list" where
  "differences a [] = []"
| "differences a (b # bs) = (b - a) # differences b bs"

lemma endpoint_stats_values:
  assumes "xml_laws X" and "state_ok s" and "in_range up"
  shows "if \<forall>(n, a, b) \<in> set cs. small a \<and> small b
    then \<exists>es s1. endpoint_stats X up (map (\<lambda>(n, a, b). endpoint_dict X n a b) cs) s = Inr (es, s1) \<and>
      map es_sent es = map (\<lambda>(n, a, b). uint a) cs \<and> map es_received es = map (\<lambda>(n, a, b). uint b) cs \<and>
      map es_new_sent es = differences (st_sent s) (map es_sent es) \<and> (\<forall>e \<in> set es. es_name e = []) \<and> state_ok s1
    else endpoint_stats X up (map (\<lambda>(n, a, b). endpoint_dict X n a b) cs) s = Inl Out_of_range"
  using assms(2)
proof (induction cs arbitrary: s)
  case (Cons c cs)
  obtain n a b where c: "c = (n, a, b)" by (cases c)
  note ok = Cons.prems [unfolded state_ok_def in_range_def] assms(3) [unfolded in_range_def]
  let ?s = "s\<lparr>st_sent := uint a, st_received := uint b\<rparr>"
  show ?case
  proof (cases "small a \<and> small b")
    case True
    then have s: "state_ok ?s" "uint a < 2 ^ 31" "uint b < 2 ^ 31"
      using Cons.prems by (simp_all add: state_ok_def in_range_def small_def)
    let ?e = "\<lparr>es_name = [], es_sent = uint a, es_received = uint b, es_new_sent = uint a - st_sent s,
      es_new_received = uint b - st_received s, es_seconds = up - st_uptime s\<rparr>"
    have "endpoint_stat_of X up (endpoint_dict X n a b) s = Inr (?e, ?s)"
      using True ok s(2,3) by (simp add: endpoint_stat_of_def endpoint_dict_values [OF assms(1)] stoi_counter int_minus_small)
    then show ?thesis using Cons.IH [OF s(1)] True by (fastforce simp: c split: if_splits)
  next
    case False
    have "endpoint_stat_of X up (endpoint_dict X n a b) s = Inl Out_of_range"
      using False ok by (cases "small a")
        (simp_all add: endpoint_stat_of_def endpoint_dict_values [OF assms(1)] stoi_counter int_minus_small small_def [of a])
    then show ?thesis using False by (auto simp: c)
  qed
qed simp

lemma get_stat_nodes:
  assumes "xml_laws (he_xml env)" and "distinct (map fst (bm_dev (hb_bus h)))" and "get_stat env h = Inr r"
  shows "\<exists>n a. msg_node r = Some n \<and> get_type (he_xml env) r = Inr METHODRESPONSE \<and>
    rbind (value_at (he_xml env) n ''version'') (get_value_as_str (he_xml env)) =
      (if he_version env = [] then Inl Invalid_argument else Inr (he_version env)) \<and>
    int_at (he_xml env) n ''uptime'' = stoi 10 (int_string (he_uptime env)) \<and>
    int_at (he_xml env) n ''connected_clients_count'' = stoi 10 (dec_string (length (hb_clients h))) \<and>
    value_at (he_xml env) n ''endpoint'' = Inr a \<and>
    xelems (he_xml env) a = map (\<lambda>(n, d). endpoint_dict (he_xml env) n (dr_sent d) (dr_received d)) (bm_dev (hb_bus h))"
proof -
  let ?X = "he_xml env" and ?b = "hb_bus h"
  let ?cnt = "\<lambda>n c. case get_dev_counter n c ?b of Inr w \<Rightarrow> dec_string (unat w) | Inl _ \<Rightarrow> []"
  let ?g = "\<lambda>n d. dict_add_value ?X ''received_frames_counter'' (?cnt n RECEIVED_FRAMES)
      (dict_add_value ?X ''send_frames_counter'' (?cnt n SEND_FRAMES) (dict_add_value ?X ''name'' n d))"
  have dicts: "map (\<lambda>n. ?g n (xnew ?X ''dict'')) (get_dev_list ?b)
      = map (\<lambda>(n, d). endpoint_dict ?X n (dr_sent d) (dr_received d)) (bm_dev ?b)"
    using map_of_is_SomeI [OF assms(2)]
    by (auto simp: get_dev_list_def get_dev_counter_def endpoint_dict_def)
  define arr where "arr = fold (\<lambda>n. array_add_dict ?X (?g n)) (get_dev_list ?b) (xnew_prop ?X (xnew ?X ''array'') ''name'' ''endpoint'')"
  have arr: "xget_prop ?X arr ''name'' = Some ''endpoint''"
    "xelems ?X arr = map (\<lambda>(n, d). endpoint_dict ?X n (dr_sent d) (dr_received d)) (bm_dev ?b)"
    using assms(1) dicts by (simp_all add: arr_def fold_add_dicts fold_add_dicts_prop)
  let ?m = "add_value ?X ''connected_clients_count'' (dec_string (connected_clients_count (hb_clients h)))
      (add_value ?X ''uptime'' (int_string (he_uptime env)) (add_value ?X ''version'' (he_version env) (method_response ?X ''h9bus_stat'')))"
  have "r = with_node (\<lambda>n. xadd_child ?X n arr) ?m"
    using assms(3) [symmetric] by (simp add: get_stat_def Let_def arr_def dict_add_array_def [abs_def])
  then show ?thesis
    using assms(1) arr
    by (simp add: get_type_def method_response_def set_method_name_def add_value_def value_at_def
        int_at_def dict_add_value_def get_value_as_str_def get_value_as_int_def connected_clients_count_def)
qed

text \<open>
  C26. From the counters of h9bus to the screen of h9stat, through the message between them: the report
  made of an answer of \<open>h9bus_stat\<close> shows version, uptime, number of clients and for every endpoint the
  numbers of frames sent and received. The name of an endpoint is never shown: the server adds it as a
  value of the endpoint, the client asks for the name of the element. The rate of an endpoint is
  computed against the number shown just before, which is that of the previous endpoint. A counter
  that has passed \<open>2 ^ 31\<close> ends the client with an exception.
\<close>

theorem stat_shows_counters:
  assumes "xml_laws (he_xml env)" and "distinct (map fst (bm_dev (hb_bus h)))" and "get_stat env h = Inr r"
    and "msg_node m = msg_node r" and "he_version env \<noteq> []" and "in_range (he_uptime env)"
    and "length (hb_clients h) < 2 ^ 31" and "state_ok s"
  shows "if \<forall>(n, d) \<in> set (bm_dev (hb_bus h)). small (dr_sent d) \<and> small (dr_received d)
    then \<exists>es s1. stat_turn (he_xml env) m s = Inr (Some (\<lparr>sr_version = he_version env, sr_uptime = he_uptime env,
        sr_clients = int (length (hb_clients h)), sr_endpoints = es\<rparr>, s1)) \<and>
      map es_sent es = map (\<lambda>(n, d). uint (dr_sent d)) (bm_dev (hb_bus h)) \<and>
      map es_received es = map (\<lambda>(n, d). uint (dr_received d)) (bm_dev (hb_bus h)) \<and>
      (\<forall>e \<in> set es. es_name e = []) \<and> map es_new_sent es = differences (st_sent s) (map es_sent es)
    else stat_turn (he_xml env) m s = Inl Out_of_range"
proof -
  let ?X = "he_xml env" and ?ds = "bm_dev (hb_bus h)"
  let ?cs = "map (\<lambda>(n, d). (n, dr_sent d, dr_received d)) ?ds"
  obtain n a where n: "msg_node r = Some n" "get_type ?X r = Inr METHODRESPONSE"
    "rbind (value_at ?X n ''version'') (get_value_as_str ?X) = Inr (he_version env)"
    "int_at ?X n ''uptime'' = stoi 10 (int_string (he_uptime env))"
    "int_at ?X n ''connected_clients_count'' = stoi 10 (dec_string (length (hb_clients h)))"
    "value_at ?X n ''endpoint'' = Inr a"
    "xelems ?X a = map (\<lambda>(n, d). endpoint_dict ?X n (dr_sent d) (dr_received d)) ?ds"
    using get_stat_nodes [OF assms(1-3)] assms(5) by auto
  have e: "xelems ?X a = map (\<lambda>(n, a, b). endpoint_dict ?X n a b) ?cs" using n(7) by (simp add: case_prod_beta comp_def)
  have i: "stoi 10 (int_string (he_uptime env)) = Inr (he_uptime env)"
    "stoi 10 (dec_string (length (hb_clients h))) = Inr (int (length (hb_clients h)))"
    using assms(6,7) by (simp_all add: stoi_def in_range_def)
  have t: "get_type ?X m = Inr METHODRESPONSE" using n(2) read_other_root(2) [OF assms(4)] by simp
  have turn: "stat_turn ?X m s = rbind (endpoint_stats ?X (he_uptime env) (xelems ?X a) s) (\<lambda>(es, s1).
     Inr (Some (\<lparr>sr_version = he_version env, sr_uptime = he_uptime env, sr_clients = int (length (hb_clients h)),
       sr_endpoints = es\<rparr>, s1\<lparr>st_uptime := he_uptime env\<rparr>)))"
    using t n(1,3-6) i assms(4) by (simp add: stat_turn_def)
  have "(\<forall>(n, a, b) \<in> set ?cs. small a \<and> small b) \<longleftrightarrow> (\<forall>(n, d) \<in> set ?ds. small (dr_sent d) \<and> small (dr_received d))"
    by auto
  moreover have "map (\<lambda>(n, a, b). uint a) ?cs = map (\<lambda>(n, d). uint (dr_sent d)) ?ds"
    "map (\<lambda>(n, a, b). uint b) ?cs = map (\<lambda>(n, d). uint (dr_received d)) ?ds" by auto
  ultimately show ?thesis
    using endpoint_stats_values [OF assms(1,8,6), of ?cs] unfolding turn e
    by (auto split: if_splits)
qed

theorem stat_shows_counters_witness:
  "\<exists>r es s1. get_stat sample_env (sample_h9bus\<lparr>hb_bus := one_bus
      [(''can0'', (idle_driver SocketCAN ''can0'')\<lparr>dr_sent := 7, dr_received := 9\<rparr>),
       (''tty'', (idle_driver Slcan ''tty'')\<lparr>dr_sent := 3\<rparr>)]\<rparr>) = Inr r \<and>
    stat_turn xtree_ops r \<lparr>st_uptime = 0, st_sent = 0, st_received = 0\<rparr> = Inr (Some (\<lparr>sr_version = ''0.3'', sr_uptime = 60,
      sr_clients = 3, sr_endpoints = es\<rparr>, s1)) \<and>
    map es_sent es = [7, 3] \<and> map es_received es = [9, 0] \<and> map es_new_sent es = [7, -4]"
proof -
  let ?ds = "[(''can0'', (idle_driver SocketCAN ''can0'')\<lparr>dr_sent := 7, dr_received := 9\<rparr>),
       (''tty'', (idle_driver Slcan ''tty'')\<lparr>dr_sent := 3\<rparr>)]"
  let ?h = "sample_h9bus\<lparr>hb_bus := one_bus ?ds\<rparr>"
  obtain r where r: "get_stat sample_env ?h = Inr r" by (simp add: get_stat_def Let_def)
  have x: "xml_laws (he_xml sample_env)" "he_xml sample_env = xtree_ops" "he_version sample_env = ''0.3''" "he_uptime sample_env = 60"
    "length (hb_clients ?h) = 3" "bm_dev (hb_bus ?h) = ?ds"
    by (simp_all add: sample_env_def xtree_laws sample_h9bus_def sample_clients_def)
  have s: "state_ok \<lparr>st_uptime = 0, st_sent = 0, st_received = 0\<rparr>" "in_range 60" by (simp_all add: state_ok_def in_range_def)
  have z: "dr_sent (idle_driver k n) = 0" "dr_received (idle_driver k n) = 0" for k n
    by (simp_all add: idle_driver_def new_driver_def)
  have "\<forall>(n, d) \<in> set ?ds. small (dr_sent d) \<and> small (dr_received d)"
    by (simp add: small_def z)
  then show ?thesis
    using stat_shows_counters [OF x(1) _ r refl, of "\<lparr>st_uptime = 0, st_sent = 0, st_received = 0\<rparr>"] r x s z by auto
qed

lemma stoul_hex_byte [simp]: "stoul 16 (hex_byte up b) = Inr (ucast b)"
proof -
  have "uint b < 256" using uint_bounded [of b] by simp
  then show ?thesis by (simp add: stoul_def hex_byte_def)
qed

lemma fill_data_bytes:
  assumes "length (data f) = 8" and "unat (dlc f) + length bs \<le> 8" and "unat (dlc f) < 8 \<or> bs = []"
    and "unat (dlc f) + length bs = 8 \<and> bs \<noteq> [] \<or> extra = []"
  shows "\<exists>d. fill_data (map (hex_byte up) bs @ extra) f = Inr (f\<lparr>dlc := dlc f + of_nat (length bs), data := d\<rparr>) \<and>
    length d = 8 \<and> take (unat (dlc f) + length bs) d = take (unat (dlc f)) (data f) @ bs"
  using assms
proof (induction bs arbitrary: f)
  case Nil
  then show ?case by (intro exI [of _ "data f"]) simp
next
  case (Cons b bs)
  let ?f = "f\<lparr>data := (data f)[unat (dlc f) := b], dlc := dlc f + 1\<rparr>"
  have l: "unat (dlc f) < 8" using Cons.prems by simp
  have u: "unat (dlc f + 1) = Suc (unat (dlc f))"
    using l by (simp add: unat_word_ariths(1))
  have "dlc f + 1 = 8 \<longleftrightarrow> unat (dlc f + 1) = 8" by (simp add: word_unat_eq_iff)
  then have e: "dlc f + 1 = 8 \<longleftrightarrow> unat (dlc f) = 7" by (simp add: u)
  have step: "fill_data (map (hex_byte up) (b # bs) @ extra) f =
      (if unat (dlc f) = 7 then Inr ?f else fill_data (map (hex_byte up) bs @ extra) ?f)"
    using e ucast_back [of b, where 'b = 64] by simp
  have t: "take (Suc (unat (dlc f))) (data ?f) = take (unat (dlc f)) (data f) @ [b]"
    using l Cons.prems(1) by (simp add: take_Suc_conv_app_nth)
  show ?case
  proof (cases "unat (dlc f) = 7")
    case True
    then have "bs = []" using Cons.prems by simp
    then show ?thesis using step True t Cons.prems(1) by (intro exI [of _ "data ?f"]) simp
  next
    case False
    have p: "length (data ?f) = 8" "unat (dlc ?f) + length bs \<le> 8" "unat (dlc ?f) < 8 \<or> bs = []"
      "unat (dlc ?f) + length bs = 8 \<and> bs \<noteq> [] \<or> extra = []"
      using Cons.prems False l u by auto
    from Cons.IH [OF p] obtain d where "fill_data (map (hex_byte up) bs @ extra) ?f = Inr (?f\<lparr>dlc := dlc ?f + of_nat (length bs), data := d\<rparr>)"
      "length d = 8" "take (unat (dlc ?f) + length bs) d = take (unat (dlc ?f)) (data ?f) @ bs" by blast
    then show ?thesis using step False t u by (intro exI [of _ d]) (simp add: add.assoc)
  qed
qed

text \<open>
  What h9send sends: with data arguments that are bytes in hexadecimal and a type of five bits,
  every message carries the frame with the given header and exactly these bytes; after eight of them
  the remaining arguments are ignored, whatever they are. Option \<open>repeat\<close> sends the same message
  again and again.
\<close>

theorem h9send_sends:
  assumes "xml_laws X" and "length bs \<le> 8" and "so_data opts = map (hex_byte up) bs @ extra"
    and "length bs = 8 \<or> extra = []" and "so_type opts = Some ty" and "unat ty < 32" and "wf_frame f0"
  shows "\<exists>m f. h9send X opts dflt f0 k = Inr (replicate (if so_repeat opts = None then 1 else k) m) \<and>
    get_type X m = Inr SEND_FRAME \<and> get_frame X m = Inr (clear_tail f) \<and> valid_frame f \<and>
    frame_bytes f = Inr bs \<and> ftype f = ty \<and> priority f = (if so_high_priority opts then HIGH else LOW) \<and>
    source_id f = ucast (case so_src_id opts of Some s \<Rightarrow> s | None \<Rightarrow> dflt) \<and>
    destination_id f = (case so_dst_id opts of Some d \<Rightarrow> ucast d | None \<Rightarrow> destination_id f0) \<and> seqnum f = seqnum f0"
proof -
  let ?f1 = "f0\<lparr>source_id := ucast (case so_src_id opts of Some s \<Rightarrow> s | None \<Rightarrow> dflt),
     destination_id := (case so_dst_id opts of Some d \<Rightarrow> ucast d | None \<Rightarrow> destination_id f0),
     priority := (if so_high_priority opts then HIGH else LOW), ftype := ty, dlc := 0\<rparr>"
  have "length (data ?f1) = 8" using assms(7) by (simp add: wf_frame_def)
  moreover have "unat (dlc ?f1) = 0" "dlc ?f1 = 0" by simp_all
  moreover have "0 + length bs = 8 \<and> bs \<noteq> [] \<or> extra = []" using assms(4) by auto
  ultimately obtain d where d: "fill_data (so_data opts) ?f1 = Inr (?f1\<lparr>dlc := of_nat (length bs), data := d\<rparr>)" "length d = 8"
    "take (length bs) d = bs"
    using fill_data_bytes [of ?f1 bs extra up] assms(2,3) by auto
  let ?f = "?f1\<lparr>dlc := of_nat (length bs), data := d\<rparr>"
  have f: "send_frame_of opts dflt f0 = Inr ?f" using d(1) assms(5) by (simp add: send_frame_of_def)
  have n: "unat (dlc ?f) = length bs" using assms(2) by (simp add: unat_of_nat)
  then have v: "valid_frame ?f" using assms(2,6) d(2) by (simp add: valid_frame_def wf_frame_def)
  then have b: "frame_bytes ?f = Inr bs" using n d(3) by (simp add: frame_bytes_valid valid_frame_def)
  obtain m where "send_frame_msg X ?f = Inr m" "get_type X m = Inr SEND_FRAME" "get_frame X m = Inr (clear_tail ?f)"
    using send_frame_msg_read [OF assms(1), of ?f] valid_frameD [OF v] v by (auto simp: valid_frame_def)
  then show ?thesis using f v b by (intro exI [of _ m] exI [of _ ?f]) (simp add: h9send_def)
qed

theorem h9send_sends_witness:
  "\<exists>m f. h9send xtree_ops \<lparr>so_src_id = Some 5, so_dst_id = Some 32, so_high_priority = True, so_type = Some SET_REG,
      so_repeat = None, so_data = [''0A'', ''FF'']\<rparr> 16 (new_frame 3 0 0) 0 = Inr [m] \<and>
    get_frame xtree_ops m = Inr (clear_tail f) \<and> frame_bytes f = Inr [10, 255] \<and> destination_id f = 32"
proof -
  have "[''0A'', ''FF''] = map (hex_byte True) [10, 255]" by code_simp
  then show ?thesis
    using h9send_sends [OF xtree_laws, of "[10, 255]" "\<lparr>so_src_id = Some 5, so_dst_id = Some 32, so_high_priority = True,
      so_type = Some SET_REG, so_repeat = None, so_data = [''0A'', ''FF'']\<rparr>" True "[]" SET_REG "new_frame 3 0 0" 16 0]
    by (auto simp: new_frame_def wf_frame_def)
qed

lemma signed_nonneg: "0 \<le> a \<Longrightarrow> 0 < b \<Longrightarrow> a sdiv b = a div b" "0 \<le> a \<Longrightarrow> 0 < b \<Longrightarrow> a smod b = a mod b"
  for a b :: int
  by (cases "a = 0"; simp add: signed_divide_int_def signed_modulo_int_def)+

lemma split_uptime_sum:
  assumes "0 \<le> n"
  shows "((up_day (split_uptime n) * 24 + up_hour (split_uptime n)) * 60 + up_minutes (split_uptime n)) * 60 + up_seconds (split_uptime n) = n"
    and "up_hour (split_uptime n) < 24" "up_minutes (split_uptime n) < 60" "up_seconds (split_uptime n) < 60"
proof -
  have "up_day (split_uptime n) = n div 86400" "up_hour (split_uptime n) = n mod 86400 div 3600"
    "up_minutes (split_uptime n) = n mod 86400 mod 3600 div 60" "up_seconds (split_uptime n) = n mod 86400 mod 3600 mod 60"
    using assms by (simp_all add: split_uptime_def Let_def signed_nonneg)
  note u = this
  let ?r = "n mod 86400"
  show "((up_day (split_uptime n) * 24 + up_hour (split_uptime n)) * 60 + up_minutes (split_uptime n)) * 60 + up_seconds (split_uptime n) = n"
    unfolding u using div_mult_mod_eq [of n 86400] div_mult_mod_eq [of ?r 3600] div_mult_mod_eq [of "?r mod 3600" 60]
    by (simp only: distrib_right mult.assoc add.assoc)
  have "?r < 24 * 3600" "?r mod 3600 < 60 * 60" "?r mod 3600 mod 60 < 60"
    using pos_mod_bound [of 86400 n] pos_mod_bound [of 3600 ?r] pos_mod_bound [of 60 "?r mod 3600"] by simp_all
  then show "up_hour (split_uptime n) < 24" "up_minutes (split_uptime n) < 60" "up_seconds (split_uptime n) < 60"
    unfolding u by (simp_all only: div_less_iff_less_mult zero_less_numeral)
qed

end
