(* ===== verification/H9_Log.thy ===== *)
theory H9_Log
  imports H9_Text
begin

text \<open>
  \<open>common/log.{h,cc}\<close> and the verbosity options of \<open>common/ctx.cc\<close>: which messages are written, where
  and with what text, and the buffer in which a formatted message is built. What \<open>vsnprintf\<close> returns
  for the format and its arguments is an input (the same for every call, as the arguments are), and
  so is the memory that \<open>new\<close> can still find.
\<close>

subsection \<open>Levels\<close>

datatype level = STDERR | CRIT | ERR | WARN | NOTICE | INFO | DEBUG | DEBUG2

fun level_num :: "level \<Rightarrow> nat" where
  "level_num STDERR = 0" | "level_num CRIT = 1" | "level_num ERR = 2" | "level_num WARN = 3"
| "level_num NOTICE = 4" | "level_num INFO = 5" | "level_num DEBUG = 6" | "level_num DEBUG2 = 7"

fun level_name :: "level \<Rightarrow> string" where
  "level_name CRIT = ''CRITICAL''" | "level_name ERR = ''ERROR''" | "level_name WARN = ''WARNING''"
| "level_name NOTICE = ''NOTICE''" | "level_name INFO = ''INFO''" | "level_name DEBUG = ''DEBUG''"
| "level_name DEBUG2 = ''DEBUG2''" | "level_name STDERR = ''STDERR''"

definition level_of :: "nat \<Rightarrow> level" where
  \<comment> \<open>the enumerator of a number up to 7\<close>
  "level_of n = [STDERR, CRIT, ERR, WARN, NOTICE, INFO, DEBUG, DEBUG2] ! n"

record log =
  lg_verbose :: level
  lg_debug :: bool
  lg_to_stderr :: bool
  lg_print_date :: bool
  lg_logfile :: string
  lg_clog :: string
    \<comment> \<open>what has been written to \<open>std::clog\<close>, and below to \<open>std::cerr\<close>\<close>
  lg_cerr :: string
  lg_buf_len :: nat
    \<comment> \<open>the static \<open>buf_len\<close> of \<open>vlog\<close>\<close>

definition new_log :: log where
  "new_log = \<lparr>lg_verbose = NOTICE, lg_debug = False, lg_to_stderr = False, lg_print_date = False,
     lg_logfile = [], lg_clog = [], lg_cerr = [], lg_buf_len = 1024\<rparr>"

definition set_level_num :: "u32 \<Rightarrow> log \<Rightarrow> log" where
  \<comment> \<open>\<open>set_level(unsigned int)\<close>: the cast keeps any number, a larger one is replaced\<close>
  "set_level_num n s = s\<lparr>lg_verbose := (if unat n \<le> 7 then level_of (unat n) else DEBUG2)\<rparr>"

definition raise_verbose_level :: "u32 \<Rightarrow> log \<Rightarrow> log" where
  \<comment> \<open>\<open>Ctx::raise_verbose_level\<close>\<close>
  "raise_verbose_level n s = set_level_num (of_nat (level_num (lg_verbose s)) + n) s"

definition enable_debug :: "bool \<Rightarrow> log \<Rightarrow> log" where
  "enable_debug b s = s\<lparr>lg_debug := b\<rparr>"

definition redirect_to_file :: "string \<Rightarrow> log \<Rightarrow> log" where
  "redirect_to_file f s = s\<lparr>lg_print_date := True, lg_logfile := f\<rparr>"

subsection \<open>Writing\<close>

definition log_text :: "string \<Rightarrow> level \<Rightarrow> string \<Rightarrow> log \<Rightarrow> log" where
  \<comment> \<open>\<open>log(level, msg)\<close>; the first argument is the formatted time\<close>
  "log_text now l msg s =
     (if level_num (lg_verbose s) < level_num l then s
      else if lg_to_stderr s \<or> l = STDERR then s\<lparr>lg_cerr := lg_cerr s @ msg @ [CHR 0x0A]\<rparr>
      else s\<lparr>lg_clog := lg_clog s @ (if lg_print_date s then now @ '' '' else []) @
        ''['' @ level_name l @ ''] '' @ msg @ [CHR 0x0A]\<rparr>)"

definition log_at :: "string \<Rightarrow> level \<Rightarrow> string \<Rightarrow> nat \<Rightarrow> string \<Rightarrow> log \<Rightarrow> log" where
  \<comment> \<open>\<open>log(level, file_name, line_number, msg)\<close>\<close>
  "log_at now l file n msg s =
     log_text now l ((if lg_debug s then file @ '':'' @ dec_string n @ '' '' else []) @ msg) s"

definition on_logrotate :: "string \<Rightarrow> log \<Rightarrow> log" where
  "on_logrotate now s = (if lg_logfile s = [] then s
     else redirect_to_file (lg_logfile s) (log_at now WARN ''log.cc'' 39 ''Logrotate'' s))"

function vlog_buffer :: "string \<Rightarrow> nat \<Rightarrow> int \<Rightarrow> log \<Rightarrow> log option" where
  \<comment> \<open>the loop of \<open>vlog\<close>: the result of \<open>vsnprintf\<close> is compared as an unsigned number; \<open>None\<close> is the
      \<open>bad_alloc\<close> of \<open>new\<close> when the memory is used up\<close>
  "vlog_buffer now mem need s = (if need < 0 \<or> int (lg_buf_len s) \<le> need
     then (if lg_buf_len s = 0 \<or> mem < lg_buf_len s * 2 then None
           else vlog_buffer now mem need ((log_at now WARN ''log.cc'' 183 ''a logger's buffer is too small - resizing'' s)
             \<lparr>lg_buf_len := lg_buf_len s * 2\<rparr>))
     else Some s)"
  by pat_completeness auto

termination by (relation "measure (\<lambda>(now, mem, need, s). mem - lg_buf_len s)") auto

declare vlog_buffer.simps [simp del]

definition vlog :: "string \<Rightarrow> nat \<Rightarrow> level \<Rightarrow> string \<Rightarrow> nat \<Rightarrow> int \<Rightarrow> string \<Rightarrow> log \<Rightarrow> log option" where
  \<comment> \<open>\<open>msg\<close> is the complete text, \<open>need\<close> its length as \<open>vsnprintf\<close> returns it\<close>
  "vlog now mem l file n need msg s = (case vlog_buffer now mem need s of None \<Rightarrow> None
     | Some s1 \<Rightarrow> Some (log_at now l file n (take (lg_buf_len s1 - 1) msg) s1))"

subsection \<open>Properties\<close>

lemma log_buf_len [simp]: "lg_buf_len (log_at now l file n msg s) = lg_buf_len s"
  by (simp add: log_at_def log_text_def)

lemma vlog_buffer_grows:
  assumes "0 \<le> need" and "2 * nat need \<le> mem" and "0 < lg_buf_len s"
  shows "\<exists>j s1. vlog_buffer now mem need s = Some s1 \<and> lg_buf_len s1 = lg_buf_len s * 2 ^ j \<and>
    need < int (lg_buf_len s1) \<and> (0 < j \<longrightarrow> lg_buf_len s1 \<le> 2 * nat need)"
  using assms
proof (induction now mem need s rule: vlog_buffer.induct)
  case (1 now mem need s)
  let ?s = "(log_at now WARN ''log.cc'' 183 ''a logger's buffer is too small - resizing'' s)\<lparr>lg_buf_len := lg_buf_len s * 2\<rparr>"
  show ?case
  proof (cases "int (lg_buf_len s) \<le> need")
    case False
    then show ?thesis using 1(2) by (intro exI [of _ 0] exI [of _ s]) (simp add: vlog_buffer.simps [of now mem need s])
  next
    case True
    then have m: "\<not> mem < lg_buf_len s * 2" using 1(3) by linarith
    then obtain j s1 where j: "vlog_buffer now mem need ?s = Some s1" "lg_buf_len s1 = lg_buf_len s * 2 * 2 ^ j"
      "need < int (lg_buf_len s1)" "0 < j \<longrightarrow> lg_buf_len s1 \<le> 2 * nat need"
      using 1(1) [OF _ _ 1(2,3)] 1(4) True by auto
    have "vlog_buffer now mem need s = Some s1"
      using j(1) m True 1(4) by (simp add: vlog_buffer.simps [of now mem need s])
    moreover have "lg_buf_len s1 \<le> 2 * nat need"
      using j(2,4) True by (cases "j = 0") auto
    ultimately show ?thesis using j(2,3) by (intro exI [of _ "Suc j"] exI [of _ s1]) simp
  qed
qed

lemma vlog_buffer_error: "need < 0 \<Longrightarrow> vlog_buffer now mem need s = None"
proof (induction now mem need s rule: vlog_buffer.induct)
  case (1 now mem need s)
  then show ?case by (subst vlog_buffer.simps) simp
qed

text \<open>
  Formatting a log message ends: while the text does not fit, the buffer is doubled, and the first
  size that holds the text and its end is used (never more than twice the text), so the message is
  written whole. But when \<open>vsnprintf\<close> fails, its negative result counts as a huge length and the
  loop doubles the buffer until the memory is used up.
\<close>

theorem vlog_ends:
  assumes "0 < lg_buf_len s"
  shows "(0 \<le> need \<and> 2 * nat need \<le> mem \<and> length msg = nat need \<longrightarrow>
      (\<exists>j s1. vlog now mem l file n need msg s = Some (log_at now l file n msg s1) \<and>
        lg_buf_len s1 = lg_buf_len s * 2 ^ j \<and> need < int (lg_buf_len s1) \<and> (0 < j \<longrightarrow> lg_buf_len s1 \<le> 2 * nat need))) \<and>
    (need < 0 \<longrightarrow> vlog now mem l file n need msg s = None)"
proof (intro conjI impI)
  assume n: "0 \<le> need \<and> 2 * nat need \<le> mem \<and> length msg = nat need"
  then obtain j s1 where j: "vlog_buffer now mem need s = Some s1" "lg_buf_len s1 = lg_buf_len s * 2 ^ j"
    "need < int (lg_buf_len s1)" "0 < j \<longrightarrow> lg_buf_len s1 \<le> 2 * nat need"
    using vlog_buffer_grows [of need mem s now] assms by blast
  have "length msg < lg_buf_len s1" using n j(3) by linarith
  then have "vlog now mem l file n need msg s = Some (log_at now l file n msg s1)" using j(1) by (simp add: vlog_def)
  then show "\<exists>j s1. vlog now mem l file n need msg s = Some (log_at now l file n msg s1) \<and>
      lg_buf_len s1 = lg_buf_len s * 2 ^ j \<and> need < int (lg_buf_len s1) \<and> (0 < j \<longrightarrow> lg_buf_len s1 \<le> 2 * nat need)"
    using j(2-4) by blast
next
  assume "need < 0"
  then show "vlog now mem l file n need msg s = None" by (simp add: vlog_def vlog_buffer_error)
qed

theorem vlog_ends_witness:
  "\<exists>s1. vlog [] 8192 INFO ''bus.cc'' 9 3000 (replicate 3000 (CHR ''x'')) new_log
      = Some (log_at [] INFO ''bus.cc'' 9 (replicate 3000 (CHR ''x'')) s1) \<and> lg_buf_len s1 = 4096"
proof -
  have len: "lg_buf_len new_log = 1024" by (simp add: new_log_def)
  have "\<exists>j s1. vlog [] 8192 INFO ''bus.cc'' 9 3000 (replicate 3000 (CHR ''x'')) new_log
      = Some (log_at [] INFO ''bus.cc'' 9 (replicate 3000 (CHR ''x'')) s1) \<and>
    lg_buf_len s1 = 1024 * 2 ^ j \<and> 3000 < int (lg_buf_len s1) \<and> (0 < j \<longrightarrow> lg_buf_len s1 \<le> 2 * nat 3000)"
    using vlog_ends [of new_log 3000 8192 "replicate 3000 (CHR ''x'')" "[]" INFO "''bus.cc''" 9] unfolding len by simp
  then obtain j s1 where j: "vlog [] 8192 INFO ''bus.cc'' 9 3000 (replicate 3000 (CHR ''x'')) new_log
      = Some (log_at [] INFO ''bus.cc'' 9 (replicate 3000 (CHR ''x'')) s1)"
    "lg_buf_len s1 = 1024 * 2 ^ j" "3000 < int (lg_buf_len s1)" "0 < j \<longrightarrow> lg_buf_len s1 \<le> 6000" by force
  have "j = 2"
  proof (rule ccontr)
    assume "j \<noteq> 2"
    then consider "j = 0" | "j = 1" | "3 \<le> j" by linarith
    then show False
    proof cases
      case 3
      then have "(2 :: nat) ^ 3 \<le> 2 ^ j" by (intro power_increasing) simp_all
      then show ?thesis using j(2,4) 3 by simp
    qed (use j(2,3) in simp_all)
  qed
  then show ?thesis using j(1,2) by auto
qed

text \<open>A message is written when its level is at most the chosen one; the option \<open>verbose\<close> stops at the last.\<close>

lemma log_filter:
  "log_text now l msg s = s \<longleftrightarrow> level_num (lg_verbose s) < level_num l"
  by (cases s) (auto simp: log_text_def)

lemma level_of_num: "level_of (level_num l) = l"
  by (cases l) (simp_all add: level_of_def)

lemma verbose_clamped:
  assumes "unat n \<le> 100"
  shows "level_num (lg_verbose (raise_verbose_level n s)) = min 7 (level_num (lg_verbose s) + unat n)"
proof -
  have l: "level_num l \<le> 7" "i \<le> 7 \<Longrightarrow> level_num (level_of i) = i" for l i
    by (cases l; simp) (auto simp: level_of_def numeral_eq_Suc le_Suc_eq)
  have "unat (of_nat (level_num (lg_verbose s)) + n :: u32) = level_num (lg_verbose s) + unat n"
    using assms l(1) [of "lg_verbose s"] by (simp add: unat_word_ariths(1) unat_of_nat)
  then show ?thesis using l by (simp add: raise_verbose_level_def set_level_num_def)
qed

end
