(* ===== verification/H9_Net.thy ===== *)
theory H9_Net
  imports H9_Text
begin

text \<open>
  Opening connections: \<open>H9Socket::connect\<close> and \<open>close\<close> of \<open>protocol/h9socket.cc\<close>, and the listening
  sockets of \<open>h9bus/tcpserver.cc\<close> and \<open>h9d/tcpserver.cc\<close>. The results of the system calls for each
  address that \<open>getaddrinfo\<close> returns are inputs; the descriptors that the program closes are recorded,
  so that a leak or a double close can be seen.
\<close>

subsection \<open>H9Socket\<close>

record peer =
  pr_host :: string
  pr_port :: nat

record net_socket =
  ns_fd :: int
    \<comment> \<open>\<open>_socket\<close>, -1 without a descriptor\<close>
  ns_hostname :: string
  ns_port :: string
  ns_closed :: "int list"
    \<comment> \<open>the descriptors given to \<open>::close\<close>, in order\<close>

definition socket_of_fd :: "int \<Rightarrow> net_socket" where
  "socket_of_fd fd = \<lparr>ns_fd = fd, ns_hostname = [], ns_port = [], ns_closed = []\<rparr>"

definition socket_of_host :: "string \<Rightarrow> string \<Rightarrow> net_socket" where
  "socket_of_host host port = \<lparr>ns_fd = -1, ns_hostname = host, ns_port = port, ns_closed = []\<rparr>"

datatype attempt = No_socket | Refused int | Connected int
  \<comment> \<open>\<open>socket\<close> fails; it gives a descriptor and \<open>connect\<close> fails; both succeed\<close>

fun connect_loop :: "attempt list \<Rightarrow> net_socket \<Rightarrow> bool \<times> net_socket" where
  \<comment> \<open>the loop over the addresses; \<open>False\<close> when it runs off the list\<close>
  "connect_loop [] s = (False, s)"
| "connect_loop (No_socket # as) s = connect_loop as (s\<lparr>ns_fd := -1\<rparr>)"
| "connect_loop (Refused fd # as) s = connect_loop as (s\<lparr>ns_fd := fd, ns_closed := ns_closed s @ [fd]\<rparr>)"
| "connect_loop (Connected fd # as) s = (True, s\<lparr>ns_fd := fd\<rparr>)"

definition socket_connect :: "peer option \<Rightarrow> attempt list option \<Rightarrow> net_socket \<Rightarrow> int \<times> net_socket" where
  \<comment> \<open>the result of \<open>getpeername\<close> (for a socket that has a descriptor) and the addresses of
      \<open>getaddrinfo\<close> (for one that has not); \<open>None\<close>: the call fails\<close>
  "socket_connect pn ai s =
     (if -1 < ns_fd s
      then (case pn of None \<Rightarrow> (-1, s)
            | Some p \<Rightarrow> (0, s\<lparr>ns_hostname := pr_host p, ns_port := dec_string (pr_port p)\<rparr>))
      else (case ai of None \<Rightarrow> (-1, s)
            | Some as \<Rightarrow> (let (ok, s1) = connect_loop as s in (if ok then 0 else -1, s1))))"

definition socket_close :: "net_socket \<Rightarrow> net_socket" where
  "socket_close s = (if -1 < ns_fd s then s\<lparr>ns_fd := -1, ns_closed := ns_closed s @ [ns_fd s]\<rparr> else s\<lparr>ns_fd := -1\<rparr>)"

definition socket_destroy :: "net_socket \<Rightarrow> int list" where
  \<comment> \<open>the destructor closes whatever \<open>_socket\<close> holds: everything closed in the end (-1 is no descriptor)\<close>
  "socket_destroy s = ns_closed s @ (if ns_fd s = -1 then [] else [ns_fd s])"

subsection \<open>Listening\<close>

datatype bind_attempt = No_listen_socket | No_reuse int | Not_bound int | Bound int

fun bind_loop :: "bind_attempt list \<Rightarrow> int list \<Rightarrow> int option res \<times> int list" where
  \<comment> \<open>the loop of both servers: the bound descriptor, \<open>None\<close> at the end of the list, and what was closed\<close>
  "bind_loop [] cl = (Inr None, cl)"
| "bind_loop (No_listen_socket # as) cl = bind_loop as cl"
| "bind_loop (No_reuse fd # as) cl = (Inl (System_error 0), cl)"
| "bind_loop (Not_bound fd # as) cl = bind_loop as (cl @ [fd])"
| "bind_loop (Bound fd # as) cl = (Inr (Some fd), cl)"

definition server_listen :: "bind_attempt list option \<Rightarrow> bool \<Rightarrow> int res \<times> int list" where
  \<comment> \<open>\<open>TCPServer::listen\<close> of h9d and the constructor \<open>TcpServer\<close> of h9bus: the addresses, and whether
      \<open>listen\<close> succeeds; the \<open>errno\<close> of the exceptions is left out\<close>
  "server_listen ai ok = (case ai of None \<Rightarrow> (Inl (System_error 0), [])
     | Some as \<Rightarrow> (case bind_loop as [] of
         (Inl e, cl) \<Rightarrow> (Inl e, cl)
       | (Inr None, cl) \<Rightarrow> (Inl (System_error 0), cl)
       | (Inr (Some fd), cl) \<Rightarrow> (if ok then Inr fd else Inl (System_error 0), cl)))"

definition tcp_server_open :: "bind_attempt list option \<Rightarrow> bool \<Rightarrow> (int \<times> bool) res \<times> int list" where
  \<comment> \<open>h9bus: the descriptor is kept with \<open>set_socket(sockfd, true)\<close>\<close>
  "tcp_server_open ai ok = (case server_listen ai ok of (Inl e, cl) \<Rightarrow> (Inl e, cl) | (Inr fd, cl) \<Rightarrow> (Inr (fd, True), cl))"

definition on_select_accept :: "int \<Rightarrow> int \<Rightarrow> string \<Rightarrow> nat \<Rightarrow> (int \<times> string \<times> nat) res" where
  \<comment> \<open>\<open>TcpServer::on_select\<close>: the result of \<open>accept\<close>, \<open>errno\<close>, and the peer it found\<close>
  "on_select_accept newfd en host port = (if newfd = -1 then Inl (System_error en) else Inr (newfd, host, port))"

subsection \<open>Properties\<close>

fun opened :: "attempt \<Rightarrow> int list" where
  "opened No_socket = []" | "opened (Refused fd) = [fd]" | "opened (Connected fd) = [fd]"

fun accepts :: "attempt \<Rightarrow> bool" where
  "accepts (Connected fd) = True" | "accepts No_socket = False" | "accepts (Refused fd) = False"

lemma connect_loop_append:
  "(\<forall>a \<in> set as. \<not> accepts a) \<Longrightarrow> connect_loop (as @ bs) s = connect_loop bs (snd (connect_loop as s))"
  by (induction as s rule: connect_loop.induct) auto

lemma connect_loop_refused:
  "(\<forall>a \<in> set as. \<not> accepts a) \<Longrightarrow> fst (connect_loop as s) = False \<and>
    ns_closed (snd (connect_loop as s)) = ns_closed s @ concat (map opened as)"
  by (induction as s rule: connect_loop.induct) auto

text \<open>
  A connection is made to the first address that accepts it: \<open>connect\<close> fails exactly when no address
  does, the descriptors of the addresses that refused are closed once each, and the one kept is the only
  one left open, until \<open>close\<close> or the destructor closes it once. But when the last address refuses, the
  closed descriptor stays in the object: it is closed a second time, which may hit a descriptor that
  another thread has opened since, and a further \<open>connect\<close> asks for the peer of this descriptor instead
  of trying the addresses again.
\<close>

theorem connect_descriptors:
  assumes "ns_fd s = -1" and "ns_closed s = []" and "\<forall>a \<in> set as. \<not> accepts a" and "0 \<le> fd"
  shows "(\<exists>t. socket_connect pn (Some (as @ Connected fd # bs)) s = (0, t) \<and> ns_fd t = fd \<and>
      ns_closed t = concat (map opened as) \<and>
      socket_destroy t = concat (map opened as) @ [fd] \<and> socket_destroy (socket_close t) = concat (map opened as) @ [fd]) \<and>
    (\<exists>t. socket_connect pn (Some (as @ [Refused fd])) s = (-1, t) \<and> ns_fd t = fd \<and>
      socket_destroy t = concat (map opened as) @ [fd, fd] \<and>
      socket_connect (Some p) ai t = (0, t\<lparr>ns_hostname := pr_host p, ns_port := dec_string (pr_port p)\<rparr>))"
proof -
  let ?t = "snd (connect_loop as s)"
  have t: "ns_closed ?t = concat (map opened as)" using connect_loop_refused [OF assms(3), of s] assms(2) by simp
  have "connect_loop (as @ Connected fd # bs) s = (True, ?t\<lparr>ns_fd := fd\<rparr>)"
    "connect_loop (as @ [Refused fd]) s = (False, ?t\<lparr>ns_fd := fd, ns_closed := concat (map opened as) @ [fd]\<rparr>)"
    using t by (simp_all add: connect_loop_append [OF assms(3)])
  then show ?thesis using assms(1,4) t
    by (simp add: socket_connect_def socket_close_def socket_destroy_def)
qed

theorem connect_descriptors_witness:
  "(\<exists>t. socket_connect None (Some [No_socket, Refused 7, Connected 8]) (socket_of_host ''h9'' ''7878'') = (0, t) \<and>
     ns_fd t = 8 \<and> socket_destroy t = [7, 8]) \<and>
   (\<exists>t. socket_connect None (Some [No_socket, Refused 7, Refused 8]) (socket_of_host ''h9'' ''7878'') = (-1, t) \<and>
     socket_destroy t = [7, 8, 8])"
proof -
  have s: "ns_fd (socket_of_host ''h9'' ''7878'') = -1" "ns_closed (socket_of_host ''h9'' ''7878'') = []"
    by (simp_all add: socket_of_host_def)
  show ?thesis
    using connect_descriptors [OF s, of "[No_socket, Refused 7]" 8 None "[]" "\<lparr>pr_host = [], pr_port = 0\<rparr>" None] by auto
qed

text \<open>Both servers listen on the first address that can be bound and leave no other descriptor open.\<close>

fun bindable :: "bind_attempt \<Rightarrow> bool" where
  "bindable (Bound fd) = True" | "bindable (No_reuse fd) = True"
| "bindable No_listen_socket = False" | "bindable (Not_bound fd) = False"

fun bind_opened :: "bind_attempt \<Rightarrow> int list" where
  "bind_opened No_listen_socket = []" | "bind_opened (No_reuse fd) = [fd]" | "bind_opened (Not_bound fd) = [fd]"
| "bind_opened (Bound fd) = [fd]"

lemma bind_loop_skips:
  "(\<forall>a \<in> set as. \<not> bindable a) \<Longrightarrow> bind_loop (as @ bs) cl = bind_loop bs (cl @ concat (map bind_opened as))"
  by (induction as cl rule: bind_loop.induct) auto

lemma listens_on_first:
  assumes "\<forall>a \<in> set as. \<not> bindable a"
  shows "server_listen (Some (as @ Bound fd # bs)) True = (Inr fd, concat (map bind_opened as))"
    and "server_listen (Some as) ok = (Inl (System_error 0), concat (map bind_opened as))"
  using bind_loop_skips [OF assms, of "Bound fd # bs" "[]"] bind_loop_skips [OF assms, of "[]" "[]"]
  by (simp_all add: server_listen_def)

end
