(* ===== verification/H9_Start.thy ===== *)
theory H9_Start
  imports H9_Text
begin

text \<open>
  Configuration and start-up: the address a client tool connects to (\<open>common/clientctx.cc\<close>), the settings
  of the daemons (\<open>h9bus/busctx.cc\<close>, \<open>h9d/dctx.cc\<close>, \<open>common/daemonctx.cc\<close>) and what their \<open>main\<close> does
  before they serve (\<open>h9bus/h9bus.cc\<close>, \<open>h9bus/busmgr.cc\<close>, \<open>h9d/h9d.cc\<close>). The options as cxxopts has
  parsed them and the file as libconfuse has read it, with the defaults filled in, are inputs; an option
  of a section without a value is \<open>None\<close>. The effects of \<open>main\<close> are recorded in order.
\<close>

subsection \<open>Client tools\<close>

definition DEFAULT_H9BUS_HOST_FOR_CLIENT :: string where "DEFAULT_H9BUS_HOST_FOR_CLIENT = ''127.0.0.1''"
definition DEFAULT_SOURCE_ID_FOR_CLIENT :: u16 where "DEFAULT_SOURCE_ID_FOR_CLIENT = 510"
definition H9BUS_DEFAULT_PORT :: int where "H9BUS_DEFAULT_PORT = 7878"

record h9bus_section =
  hs_title :: string
  hs_host_name :: string
  hs_port :: int
  hs_source_id :: int

record client_config =
  cc_host :: string
  cc_port :: string
  cc_source_id :: u16

definition client_defaults :: client_config where
  "client_defaults = \<lparr>cc_host = DEFAULT_H9BUS_HOST_FOR_CLIENT, cc_port = int_string H9BUS_DEFAULT_PORT,
     cc_source_id = DEFAULT_SOURCE_ID_FOR_CLIENT\<rparr>"

definition take_section :: "string \<Rightarrow> h9bus_section \<Rightarrow> client_config \<Rightarrow> client_config" where
  \<comment> \<open>the body of the loop over the sections\<close>
  "take_section title s c = (if hs_title s = title
     then \<lparr>cc_host = hs_host_name s, cc_port = int_string (hs_port s), cc_source_id = word_of_int (hs_source_id s)\<rparr>
     else c)"

definition load_client_configuration ::
  "string list \<Rightarrow> int list \<Rightarrow> h9bus_section list option \<Rightarrow> client_config \<Rightarrow> client_config" where
  \<comment> \<open>the options \<open>connect\<close> and \<open>port\<close> as often as given, and the sections of the file (\<open>None\<close>: no file
      or not parsed)\<close>
  "load_client_configuration connect port sections c =
     (if length connect = 1 \<and> length port = 1
      then c\<lparr>cc_host := hd connect, cc_port := int_string (hd port)\<rparr>
      else let c1 = c\<lparr>cc_host := DEFAULT_H9BUS_HOST_FOR_CLIENT, cc_port := int_string H9BUS_DEFAULT_PORT\<rparr>;
               (title, c2) = (if length connect = 1 then (hd connect, c1\<lparr>cc_host := hd connect\<rparr>) else (''default'', c1))
           in if length port = 1 then c2\<lparr>cc_port := int_string (hd port)\<rparr>
              else (case sections of None \<Rightarrow> c2 | Some ss \<Rightarrow> fold (take_section title) ss c2))"

subsection \<open>Settings of the daemons\<close>

record daemon_config =
  dc_daemonize :: bool
  dc_pidfile :: "string option"
  dc_setuid :: int
  dc_setgid :: int
  dc_port :: int
  dc_logfile :: "string option"
  dc_send_logfile :: "string option"
  dc_recv_logfile :: "string option"

record bus_config = daemon_config +
  bc_buses :: "(string \<times> string option \<times> string option) list"
    \<comment> \<open>title, driver and connection string of each section \<open>bus\<close>\<close>

record d_config = daemon_config +
  dd_h9bus_hostname :: "string option"
  dd_h9bus_port :: int
  dd_send_frame_timeout :: int
  dd_recv_response_timeout :: int

datatype 'c parsed = Parsed 'c | File_error | Parse_error

definition override_config :: "bool \<Rightarrow> string \<Rightarrow> string \<Rightarrow> 'c daemon_config_scheme \<Rightarrow> 'c daemon_config_scheme" where
  "override_config daemonize logfile pidfile c = c\<lparr>
     dc_daemonize := (dc_daemonize c \<or> daemonize),
     dc_logfile := (if logfile \<noteq> [] then Some logfile else dc_logfile c),
     dc_pidfile := (if pidfile \<noteq> [] then Some pidfile else dc_pidfile c)\<rparr>"

definition or_else :: "string \<Rightarrow> string option \<Rightarrow> string" where
  "or_else d v = (case v of None \<Rightarrow> d | Some s \<Rightarrow> s)"

definition cfg_log_logfile :: "'c daemon_config_scheme \<Rightarrow> string" where
  "cfg_log_logfile c = or_else ''stdout'' (dc_logfile c)"

definition load_configuration ::
  "'c daemon_config_scheme parsed \<Rightarrow> bool \<Rightarrow> string \<Rightarrow> string \<Rightarrow> ('c daemon_config_scheme \<times> string option) option" where
  \<comment> \<open>\<open>load_configuration\<close> of both daemons: the settings, and the file to which the log is redirected;
      \<open>None\<close>: \<open>exit(EXIT_FAILURE)\<close>\<close>
  "load_configuration r daemonize logfile pidfile = (case r of
       Parsed c \<Rightarrow> let c1 = override_config daemonize logfile pidfile c
         in Some (c1, if cfg_log_logfile c1 \<noteq> ''stdout'' then Some (cfg_log_logfile c1) else None)
     | _ \<Rightarrow> None)"

definition cfg_pidfile :: "'c daemon_config_scheme \<Rightarrow> string" where "cfg_pidfile c = or_else [] (dc_pidfile c)"

definition cfg_drop_privileges :: "'c daemon_config_scheme \<Rightarrow> bool" where
  "cfg_drop_privileges c \<longleftrightarrow> dc_setuid c > 0 \<or> dc_setgid c > 0"

definition cfg_server_port :: "'c daemon_config_scheme \<Rightarrow> u16" where "cfg_server_port c = word_of_int (dc_port c)"

definition cfg_log_send_logfile :: "'c daemon_config_scheme \<Rightarrow> string" where
  "cfg_log_send_logfile c = or_else [] (dc_send_logfile c)"

definition cfg_log_recv_logfile :: "'c daemon_config_scheme \<Rightarrow> string" where
  "cfg_log_recv_logfile c = or_else [] (dc_recv_logfile c)"

definition cfg_bus_list :: "bus_config \<Rightarrow> string list" where "cfg_bus_list c = map fst (bc_buses c)"

definition cfg_bus_driver :: "bus_config \<Rightarrow> string \<Rightarrow> string" where
  "cfg_bus_driver c b = (case map_of (bc_buses c) b of None \<Rightarrow> [] | Some (d, cs) \<Rightarrow> or_else [] d)"

definition cfg_bus_connection_string :: "bus_config \<Rightarrow> string \<Rightarrow> string" where
  "cfg_bus_connection_string c b = (case map_of (bc_buses c) b of None \<Rightarrow> [] | Some (d, cs) \<Rightarrow> or_else [] cs)"

definition cfg_h9bus_hostname :: "d_config \<Rightarrow> string" where "cfg_h9bus_hostname c = or_else ''localhost'' (dd_h9bus_hostname c)"

definition cfg_h9bus_port :: "d_config \<Rightarrow> u16" where "cfg_h9bus_port c = word_of_int (dd_h9bus_port c)"

subsection \<open>Start-up\<close>

datatype effect =
    Daemonize
  | Write_pid string
  | Open_frame_logs string string
  | Open_driver string string string
  | Listen_on u16
  | Connect_bus string string
  | Subscribe_frames
  | Set_gid int
  | Set_uid int
  | Discover_nodes
  | Serve

datatype outcome = Running | Exit_failure | Aborted
  \<comment> \<open>the daemon serves; \<open>EXIT_FAILURE\<close>; an exception leaves \<open>main\<close>\<close>

record start_env =
  su_daemon :: bool
  su_root :: bool
  su_setgid :: bool
  su_setuid :: bool
  su_open :: "string \<Rightarrow> bool"
  su_listen :: bool
  su_connect :: bool
  su_devices :: bool
  \<comment> \<open>which calls succeed: \<open>daemon\<close>, \<open>getuid() == 0\<close>, \<open>setgid\<close>, \<open>setuid\<close>, \<open>open\<close> of an endpoint, the
      listening socket, the connection to h9bus, the numbers in the file of device descriptions\<close>

type_synonym trace = "effect list \<times> outcome"

definition and_then :: "trace \<Rightarrow> trace \<Rightarrow> trace" where
  \<comment> \<open>one part of \<open>main\<close> after another, while it goes on\<close>
  "and_then a b = (if snd a = Running then (fst a @ fst b, snd b) else a)"

definition go_background :: "'c daemon_config_scheme \<Rightarrow> start_env \<Rightarrow> trace" where
  "go_background c env = (if \<not> dc_daemonize c then ([], Running)
     else if su_daemon env then ([Daemonize], Running) else ([], Exit_failure))"

definition write_pid :: "'c daemon_config_scheme \<Rightarrow> trace" where
  "write_pid c = (if cfg_pidfile c \<noteq> [] then [Write_pid (cfg_pidfile c)] else [], Running)"

definition drivers :: "string list" where "drivers = [''dummy'', ''loop'', ''slcan'', ''socketcan'']"

fun open_buses :: "bus_config \<Rightarrow> start_env \<Rightarrow> string list \<Rightarrow> trace" where
  \<comment> \<open>the loop of \<open>BusMgr::load_config\<close>\<close>
  "open_buses c env [] = ([], Running)"
| "open_buses c env (b # bs) =
     (if cfg_bus_driver c b \<notin> set drivers \<or> \<not> su_open env b then ([], Exit_failure)
      else and_then ([Open_driver (cfg_bus_driver c b) b (cfg_bus_connection_string c b)], Running) (open_buses c env bs))"

definition drop_privileges :: "'c daemon_config_scheme \<Rightarrow> start_env \<Rightarrow> trace" where
  "drop_privileges c env = (if \<not> cfg_drop_privileges c \<or> \<not> su_root env then ([], Running)
     else if \<not> su_setgid env then ([], Exit_failure)
     else if \<not> su_setuid env then ([Set_gid (dc_setgid c)], Exit_failure)
     else ([Set_gid (dc_setgid c), Set_uid (dc_setuid c)], Running))"

definition h9bus_main :: "bus_config \<Rightarrow> start_env \<Rightarrow> trace" where
  \<comment> \<open>from the loaded settings to \<open>select_loop\<close>\<close>
  "h9bus_main c env =
     and_then (go_background c env) (and_then (write_pid c)
       (and_then ([Open_frame_logs (cfg_log_send_logfile c) (cfg_log_recv_logfile c)], Running)
       (and_then (open_buses c env (cfg_bus_list c))
       (and_then (if su_listen env then ([Listen_on (cfg_server_port c)], Running) else ([], Aborted))
       (and_then (drop_privileges c env) ([Serve], Running))))))"

definition connect_h9bus :: "d_config \<Rightarrow> start_env \<Rightarrow> trace" where
  \<comment> \<open>\<open>Bus::load_config\<close>\<close>
  "connect_h9bus c env = (if su_connect env
     then ([Connect_bus (cfg_h9bus_hostname c) (dec_string (unat (cfg_h9bus_port c))), Subscribe_frames], Running)
     else ([], Exit_failure))"

definition load_descriptions :: "start_env \<Rightarrow> trace" where
  \<comment> \<open>\<open>DevMgr::load_config\<close>; a title that is no number is an exception\<close>
  "load_descriptions env = ([], if su_devices env then Running else Aborted)"

definition h9d_main :: "d_config \<Rightarrow> start_env \<Rightarrow> trace" where
  \<comment> \<open>from the loaded settings to \<open>TCPServer::run\<close>\<close>
  "h9d_main c env =
     and_then (go_background c env) (and_then (write_pid c) (and_then (connect_h9bus c env)
       (and_then (load_descriptions env) (and_then (drop_privileges c env) (and_then ([Discover_nodes], Running)
       (if su_listen env then ([Listen_on (cfg_server_port c), Serve], Running) else ([], Aborted)))))))"

subsection \<open>Properties\<close>

lemma and_then_simps [simp]:
  "and_then (es, Running) b = (es @ fst b, snd b)" "and_then (es, Exit_failure) b = (es, Exit_failure)"
  "and_then (es, Aborted) b = (es, Aborted)"
  by (simp_all add: and_then_def)

definition quiet_part :: "trace \<Rightarrow> bool" where
  \<comment> \<open>no effect of serving or of changing the user\<close>
  "quiet_part t \<longleftrightarrow> (\<forall>e \<in> set (fst t). \<forall>i. e \<notin> {Serve, Discover_nodes, Set_gid i, Set_uid i})"

lemma open_buses_quiet: "quiet_part (open_buses c env bs)"
  by (induction bs) (auto simp: quiet_part_def)

lemma start_parts_quiet: "quiet_part (go_background c env)" "quiet_part (write_pid c)" "quiet_part (connect_h9bus d env)"
  "quiet_part (load_descriptions env)"
  by (auto simp: load_descriptions_def quiet_part_def go_background_def write_pid_def connect_h9bus_def)

lemma and_then_quiet:
  assumes "quiet_part a"
  shows "Serve \<in> set (fst (and_then a b)) \<longleftrightarrow> snd a = Running \<and> Serve \<in> set (fst b)"
  using assms by (auto simp: and_then_def quiet_part_def)

definition privileged :: "'c daemon_config_scheme \<Rightarrow> start_env \<Rightarrow> bool" where
  "privileged c env \<longleftrightarrow> su_root env \<and> cfg_drop_privileges c"

lemma and_then_suffix:
  "snd a = Running \<Longrightarrow> fst b = pre @ s \<Longrightarrow> \<exists>pre. fst (and_then a b) = pre @ s"
  by (auto simp: and_then_def)

text \<open>
  A daemon started as root with a user or group in its settings never serves as root: when it comes
  to serve, the group and then the user have been changed, with success, after everything that needs
  the rights of root, and h9bus opens its port before, h9d after. With only a user in the settings the
  group is set to 0, and with only a group the user is set to 0, that is, it stays root.
\<close>

theorem serves_without_root:
  assumes "su_root env" and "dc_setuid c > 0 \<or> dc_setgid c > 0" and "dc_setuid d > 0 \<or> dc_setgid d > 0"
  shows "(Serve \<in> set (fst (h9bus_main c env)) \<longrightarrow> su_setgid env \<and> su_setuid env \<and>
      (\<exists>pre. fst (h9bus_main c env) = pre @ [Listen_on (cfg_server_port c), Set_gid (dc_setgid c), Set_uid (dc_setuid c), Serve])) \<and>
    (Serve \<in> set (fst (h9d_main d env)) \<longrightarrow> su_setgid env \<and> su_setuid env \<and>
      (\<exists>pre. fst (h9d_main d env) = pre @ [Set_gid (dc_setgid d), Set_uid (dc_setuid d), Discover_nodes, Listen_on (cfg_server_port d), Serve]))"
proof (intro conjI impI)
  have p: "cfg_drop_privileges c" "cfg_drop_privileges d" using assms(2,3) by (simp_all add: cfg_drop_privileges_def)
  have logs: "quiet_part ([Open_frame_logs x y], Running)" for x y by (simp add: quiet_part_def)
  note q = and_then_quiet [OF start_parts_quiet(1)] and_then_quiet [OF start_parts_quiet(2)] and_then_quiet [OF start_parts_quiet(3)]
    and_then_quiet [OF start_parts_quiet(4)]
    and_then_quiet [OF open_buses_quiet] and_then_quiet [OF logs]
  {
    assume "Serve \<in> set (fst (h9bus_main c env))"
    then have s: "snd (go_background c env) = Running" "snd (open_buses c env (cfg_bus_list c)) = Running"
      "su_listen env" "su_setgid env" "su_setuid env"
      using p(1) assms(1) unfolding h9bus_main_def q by (auto simp: drop_privileges_def split: if_splits)
    then show "su_setgid env" "su_setuid env" by simp_all
    show "\<exists>pre. fst (h9bus_main c env) = pre @ [Listen_on (cfg_server_port c), Set_gid (dc_setgid c), Set_uid (dc_setuid c), Serve]"
      using s p(1) assms(1) by (simp add: h9bus_main_def and_then_def drop_privileges_def write_pid_def)
  next
    assume "Serve \<in> set (fst (h9d_main d env))"
    then have s: "snd (go_background d env) = Running" "snd (connect_h9bus d env) = Running" "snd (load_descriptions env) = Running"
      "su_listen env" "su_setgid env" "su_setuid env"
      using p(2) assms(1) unfolding h9d_main_def q by (auto simp: drop_privileges_def split: if_splits)
    then show "su_setgid env" "su_setuid env" by simp_all
    show "\<exists>pre. fst (h9d_main d env) = pre @ [Set_gid (dc_setgid d), Set_uid (dc_setuid d), Discover_nodes, Listen_on (cfg_server_port d), Serve]"
      using s p(2) assms(1) by (simp add: h9d_main_def and_then_def drop_privileges_def write_pid_def)
  }
qed

definition sample_bus_config :: bus_config where
  "sample_bus_config = \<lparr>dc_daemonize = True, dc_pidfile = Some ''/run/h9bus.pid'', dc_setuid = 65534, dc_setgid = 0, dc_port = 7878,
     dc_logfile = None, dc_send_logfile = None, dc_recv_logfile = None, bc_buses = [(''can0'', Some ''socketcan'', Some ''can0'')]\<rparr>"

definition sample_d_config :: d_config where
  "sample_d_config = \<lparr>dc_daemonize = False, dc_pidfile = None, dc_setuid = 65534, dc_setgid = 65534, dc_port = 7979,
     dc_logfile = None, dc_send_logfile = None, dc_recv_logfile = None, dd_h9bus_hostname = None, dd_h9bus_port = 7878,
     dd_send_frame_timeout = 3, dd_recv_response_timeout = 3\<rparr>"

definition sample_start :: start_env where
  "sample_start = \<lparr>su_daemon = True, su_root = True, su_setgid = True, su_setuid = True, su_open = (\<lambda>_. True),
     su_listen = True, su_connect = True, su_devices = True\<rparr>"

theorem serves_without_root_witness:
  "(\<exists>pre. fst (h9bus_main sample_bus_config sample_start) = pre @ [Listen_on 7878, Set_gid 0, Set_uid 65534, Serve]) \<and>
   (\<exists>pre. fst (h9d_main sample_d_config sample_start) = pre @ [Set_gid 65534, Set_uid 65534, Discover_nodes, Listen_on 7979, Serve])"
proof -
  have "Serve \<in> set (fst (h9bus_main sample_bus_config sample_start))" "Serve \<in> set (fst (h9d_main sample_d_config sample_start))"
    by (simp_all add: h9bus_main_def h9d_main_def sample_start_def sample_bus_config_def sample_d_config_def go_background_def
        write_pid_def cfg_pidfile_def or_else_def cfg_bus_list_def cfg_bus_driver_def drivers_def drop_privileges_def
        cfg_drop_privileges_def connect_h9bus_def load_descriptions_def)
  then show ?thesis
    using serves_without_root [of sample_start sample_bus_config sample_d_config]
    by (simp add: sample_start_def sample_bus_config_def sample_d_config_def cfg_server_port_def)
qed

definition section_config :: "h9bus_section \<Rightarrow> client_config" where
  "section_config s = \<lparr>cc_host = hs_host_name s, cc_port = int_string (hs_port s), cc_source_id = word_of_int (hs_source_id s)\<rparr>"

lemma fold_take_section:
  "fold (take_section t) ss c = (case find (\<lambda>s. hs_title s = t) (rev ss) of None \<Rightarrow> c | Some s \<Rightarrow> section_config s)"
proof (induction ss rule: rev_induct)
  case (snoc s ss)
  then show ?case by (simp add: take_section_def section_config_def)
qed simp

text \<open>
  Where a client tool connects: with both options to the host and port given; without \<open>port\<close> to the last
  section of the file with the title given by \<open>connect\<close> (or \<open>default\<close>), and when there is none to the
  option itself as a host name, with the default port. With \<open>port\<close> alone the file is not looked at: the
  host is the built-in default and so is the source number, whatever the section \<open>default\<close> says.
\<close>

theorem client_address:
  shows "load_client_configuration [h] [p] ss client_defaults = client_defaults\<lparr>cc_host := h, cc_port := int_string p\<rparr> \<and>
    load_client_configuration [h] [] (Some ss') client_defaults =
      (case find (\<lambda>s. hs_title s = h) (rev ss') of Some s \<Rightarrow> section_config s | None \<Rightarrow> client_defaults\<lparr>cc_host := h\<rparr>) \<and>
    load_client_configuration [] [] (Some ss') client_defaults =
      (case find (\<lambda>s. hs_title s = ''default'') (rev ss') of Some s \<Rightarrow> section_config s | None \<Rightarrow> client_defaults) \<and>
    load_client_configuration [] [p] ss client_defaults = client_defaults\<lparr>cc_port := int_string p\<rparr>"
  by (simp add: load_client_configuration_def fold_take_section client_defaults_def split: option.splits)

end
