(* ===== verification/H9_Events.thy ===== *)
theory H9_Events
  imports H9_Client
begin

text \<open>
  The event queues of the h9d daemon, \<open>h9d/epoll.cc\<close> and \<open>h9d/kqueue.cc\<close>, which share one interface
  (the locale \<open>event_queue\<close>); the loop of \<open>h9d/tcpserver.cc\<close> over them; and the progress of the thread of
  a client: every message that is queued for it is sent. Results of system calls are arguments, with
  \<open>errno\<close>.
\<close>

subsection \<open>Epoll\<close>

record epoll =
  ep_epoll :: int
  ep_event_fd :: int
  ep_tevent :: "int option list"
    \<comment> \<open>\<open>data.fd\<close> of the entries of the array; \<open>None\<close> is an entry never written\<close>

definition epoll_event_number :: nat where
  "epoll_event_number = 2"

definition new_epoll :: "int \<times> int \<Rightarrow> int \<Rightarrow> int \<times> int \<Rightarrow> epoll res \<times> int list" where
  \<comment> \<open>the results of \<open>epoll_create1\<close>, \<open>eventfd\<close> and \<open>epoll_ctl\<close>; with the object, or the exception, the
      descriptors that stay open without an owner: the destructor of an object whose constructor
      throws does not run\<close>
  "new_epoll cr efd ctl =
     (if fst cr = -1 then (Inl (System_error (snd cr)), [])
      else if fst ctl = -1 then (Inl (System_error (snd ctl)), filter (\<lambda>d. d \<noteq> -1) [fst cr, efd])
      else (Inr \<lparr>ep_epoll = fst cr, ep_event_fd = efd, ep_tevent = replicate epoll_event_number None\<rparr>, []))"

definition epoll_destroy :: "epoll \<Rightarrow> int list" where
  \<comment> \<open>the descriptors it closes\<close>
  "epoll_destroy q = (if ep_epoll q > -1 then [ep_epoll q] else []) @ (if ep_event_fd q > -1 then [ep_event_fd q] else [])"

definition epoll_attach_socket :: "int \<times> int \<Rightarrow> epoll \<Rightarrow> epoll res" where
  "epoll_attach_socket ctl q = (if fst ctl \<noteq> 0 then Inl (System_error (snd ctl)) else Inr q)"

definition epoll_wait :: "int list option \<Rightarrow> int \<Rightarrow> epoll \<Rightarrow> (nat \<times> epoll) res" where
  \<comment> \<open>the kernel writes the events it reports to the front of the array, at most as many as it has\<close>
  "epoll_wait r en q = (case r of None \<Rightarrow> Inl (System_error en)
     | Some fds \<Rightarrow> let es = take epoll_event_number fds
         in Inr (length es, q\<lparr>ep_tevent := map Some es @ drop (length es) (ep_tevent q)\<rparr>))"

definition epoll_trigger_async_event :: "int \<times> int \<Rightarrow> epoll \<Rightarrow> epoll res" where
  "epoll_trigger_async_event r q = (if fst r < 0 then Inl (System_error (snd r)) else Inr q)"

definition event_entry :: "'e option list \<Rightarrow> nat \<Rightarrow> 'e res" where
  \<comment> \<open>\<open>tevent[event_num]\<close>\<close>
  "event_entry es i = (if i < length es then case es ! i of None \<Rightarrow> Inl Undefined_behaviour | Some e \<Rightarrow> Inr e
     else Inl Undefined_behaviour)"

definition epoll_is_socket_event :: "epoll \<Rightarrow> nat \<Rightarrow> int \<Rightarrow> bool res" where
  "epoll_is_socket_event q i fd = rbind (event_entry (ep_tevent q) i) (\<lambda>d. Inr (fd = d))"

definition epoll_is_async_event :: "epoll \<Rightarrow> nat \<Rightarrow> bool res" where
  "epoll_is_async_event q i = rbind (event_entry (ep_tevent q) i) (\<lambda>d. Inr (ep_event_fd q = d))"

subsection \<open>KQueue\<close>

datatype evfilt = EVFILT_READ | EVFILT_USER

record kqueue =
  kq_kq :: int
  kq_tevent :: "(int \<times> evfilt) option list"
    \<comment> \<open>\<open>ident\<close> and \<open>filter\<close>\<close>

definition kqueue_event_number :: nat where
  "kqueue_event_number = 2"

definition user_ident :: int where
  \<comment> \<open>the number the user event is registered with\<close>
  "user_ident = 1"

definition kevent_call :: "int \<times> int \<Rightarrow> string option \<Rightarrow> unit res" where
  \<comment> \<open>\<open>kevent\<close> for a change: its result with \<open>errno\<close>, and the text of \<open>EV_ERROR\<close> when the flag is set\<close>
  "kevent_call r err = (if fst r = -1 then Inl (System_error (snd r))
     else case err of Some t \<Rightarrow> Inl (Runtime_error t) | None \<Rightarrow> Inr ())"

definition new_kqueue :: "int \<times> int \<Rightarrow> int \<times> int \<Rightarrow> string option \<Rightarrow> kqueue res \<times> int list" where
  "new_kqueue kq r err = (if fst kq = -1 then (Inl (System_error (snd kq)), [])
     else case kevent_call r err of Inl e \<Rightarrow> (Inl e, [fst kq])
       | Inr _ \<Rightarrow> (Inr \<lparr>kq_kq = fst kq, kq_tevent = replicate kqueue_event_number None\<rparr>, []))"

definition kqueue_destroy :: "kqueue \<Rightarrow> int list" where
  "kqueue_destroy q = (if kq_kq q > -1 then [kq_kq q] else [])"

definition kqueue_attach_socket :: "int \<times> int \<Rightarrow> string option \<Rightarrow> kqueue \<Rightarrow> kqueue res" where
  "kqueue_attach_socket r err q = rbind (kevent_call r err) (\<lambda>_. Inr q)"

definition kqueue_wait :: "(int \<times> evfilt) list option \<Rightarrow> int \<Rightarrow> kqueue \<Rightarrow> (nat \<times> kqueue) res" where
  "kqueue_wait r en q = (case r of None \<Rightarrow> Inl (System_error en)
     | Some evs \<Rightarrow> let es = take kqueue_event_number evs
         in Inr (length es, q\<lparr>kq_tevent := map Some es @ drop (length es) (kq_tevent q)\<rparr>))"

definition kqueue_trigger_async_event :: "int \<times> int \<Rightarrow> string option \<Rightarrow> kqueue \<Rightarrow> kqueue res" where
  "kqueue_trigger_async_event r err q = rbind (kevent_call r err) (\<lambda>_. Inr q)"

definition kqueue_is_socket_event :: "kqueue \<Rightarrow> nat \<Rightarrow> int \<Rightarrow> bool res" where
  \<comment> \<open>the filter is not compared\<close>
  "kqueue_is_socket_event q i fd = rbind (event_entry (kq_tevent q) i) (\<lambda>e. Inr (fd = fst e))"

definition kqueue_is_async_event :: "kqueue \<Rightarrow> nat \<Rightarrow> bool res" where
  "kqueue_is_async_event q i = rbind (event_entry (kq_tevent q) i) (\<lambda>e. Inr (snd e = EVFILT_USER))"

subsection \<open>The interface\<close>

datatype happening = Socket_ready | Async_event
  \<comment> \<open>what a queue reports to its only user: its one socket can be read, or the event was triggered\<close>

fun dispatch :: "(nat \<Rightarrow> bool res) \<Rightarrow> (nat \<Rightarrow> bool res) \<Rightarrow> nat \<Rightarrow> nat \<Rightarrow> happening list res" where
  \<comment> \<open>the loop over the \<open>n\<close> events of a wait, from \<open>i\<close> on: which branches it takes\<close>
  "dispatch sock asy i 0 = Inr []"
| "dispatch sock asy i (Suc n) = rbind (sock i) (\<lambda>s. rbind (if s then Inr False else asy i) (\<lambda>a.
     rbind (dispatch sock asy (Suc i) n) (\<lambda>hs.
       Inr ((if s then [Socket_ready] else if a then [Async_event] else []) @ hs))))"

locale event_queue =
  fixes report :: "'q \<Rightarrow> int \<Rightarrow> happening \<Rightarrow> 'e"
    and wait_ev :: "'e list option \<Rightarrow> int \<Rightarrow> 'q \<Rightarrow> (nat \<times> 'q) res"
    and is_sock :: "'q \<Rightarrow> nat \<Rightarrow> int \<Rightarrow> bool res"
    and is_asy :: "'q \<Rightarrow> nat \<Rightarrow> bool res"
    and ready :: "'q \<Rightarrow> int \<Rightarrow> bool"
  assumes wait_reports: "ready q fd \<Longrightarrow> length hs \<le> 2 \<Longrightarrow>
      \<exists>p. wait_ev (Some (map (report q fd) hs)) en q = Inr (length hs, p) \<and> ready p fd \<and>
        (\<forall>i < length hs. is_sock p i fd = Inr (hs ! i = Socket_ready) \<and>
          (hs ! i \<noteq> Socket_ready \<longrightarrow> is_asy p i = Inr True))"
    and wait_fails: "wait_ev None en q = Inl (System_error en)"
begin

lemma dispatch_from:
  assumes "\<forall>i < length hs. is_sock p i fd = Inr (hs ! i = Socket_ready) \<and>
      (hs ! i \<noteq> Socket_ready \<longrightarrow> is_asy p i = Inr True)"
  shows "i + n \<le> length hs \<Longrightarrow> dispatch (\<lambda>i. is_sock p i fd) (is_asy p) i n = Inr (take n (drop i hs))"
proof (induction n arbitrary: i)
  case (Suc n)
  then have i: "i < length hs" and "drop i hs = hs ! i # drop (Suc i) hs" by (simp_all add: Cons_nth_drop_Suc)
  moreover have "hs ! i = Async_event" if "hs ! i \<noteq> Socket_ready" using that by (cases "hs ! i") simp_all
  ultimately show ?case using Suc.IH [of "Suc i"] Suc.prems assms by (cases "hs ! i = Socket_ready") auto
qed simp

lemma turn_sees_events:
  \<comment> \<open>a wait and the loop over its events: the branches taken are what the kernel reported, in order\<close>
  assumes "ready q fd" and "length hs \<le> 2"
  shows "\<exists>p. wait_ev (Some (map (report q fd) hs)) en q = Inr (length hs, p) \<and> ready p fd \<and>
    dispatch (\<lambda>i. is_sock p i fd) (is_asy p) 0 (length hs) = Inr hs"
  using wait_reports [OF assms, of en] dispatch_from [of hs _ fd 0 "length hs"] by auto

end

definition epoll_ready :: "epoll \<Rightarrow> int \<Rightarrow> bool" where
  "epoll_ready q fd \<longleftrightarrow> length (ep_tevent q) = epoll_event_number \<and> ep_event_fd q \<noteq> fd"

definition epoll_report :: "epoll \<Rightarrow> int \<Rightarrow> happening \<Rightarrow> int" where
  \<comment> \<open>the \<open>data.fd\<close> the two registrations gave\<close>
  "epoll_report q fd h = (case h of Socket_ready \<Rightarrow> fd | Async_event \<Rightarrow> ep_event_fd q)"

definition kqueue_ready :: "kqueue \<Rightarrow> int \<Rightarrow> bool" where
  "kqueue_ready q fd \<longleftrightarrow> length (kq_tevent q) = kqueue_event_number \<and> fd \<noteq> user_ident"

definition kqueue_report :: "kqueue \<Rightarrow> int \<Rightarrow> happening \<Rightarrow> int \<times> evfilt" where
  "kqueue_report q fd h = (case h of Socket_ready \<Rightarrow> (fd, EVFILT_READ) | Async_event \<Rightarrow> (user_ident, EVFILT_USER))"

lemma event_entry_front [simp]:
  "i < length es \<Longrightarrow> event_entry (map Some es @ rest) i = Inr (es ! i)"
  by (simp add: event_entry_def nth_append)

interpretation ep: event_queue epoll_report epoll_wait epoll_is_socket_event epoll_is_async_event epoll_ready
proof
  fix q fd en and hs :: "happening list"
  assume q: "epoll_ready q fd" and n: "length hs \<le> 2"
  let ?es = "map (epoll_report q fd) hs"
  let ?p = "q\<lparr>ep_tevent := map Some ?es @ drop (length ?es) (ep_tevent q)\<rparr>"
  have "epoll_wait (Some ?es) en q = Inr (length hs, ?p)"
    using n by (simp add: epoll_wait_def epoll_event_number_def)
  moreover have "epoll_ready ?p fd" using q n by (simp add: epoll_ready_def epoll_event_number_def)
  moreover have "epoll_is_socket_event ?p i fd = Inr (hs ! i = Socket_ready) \<and>
      (hs ! i \<noteq> Socket_ready \<longrightarrow> epoll_is_async_event ?p i = Inr True)" if "i < length hs" for i
  proof -
    have "event_entry (ep_tevent ?p) i = Inr (epoll_report q fd (hs ! i))"
      using that event_entry_front [of i ?es] by simp
    then show ?thesis using q
      by (cases "hs ! i") (simp_all add: epoll_is_socket_event_def epoll_is_async_event_def epoll_report_def epoll_ready_def)
  qed
  ultimately show "\<exists>p. epoll_wait (Some ?es) en q = Inr (length hs, p) \<and> epoll_ready p fd \<and>
      (\<forall>i < length hs. epoll_is_socket_event p i fd = Inr (hs ! i = Socket_ready) \<and>
        (hs ! i \<noteq> Socket_ready \<longrightarrow> epoll_is_async_event p i = Inr True))"
    by blast
qed (simp add: epoll_wait_def)

interpretation kq: event_queue kqueue_report kqueue_wait kqueue_is_socket_event kqueue_is_async_event kqueue_ready
proof
  fix q fd en and hs :: "happening list"
  assume q: "kqueue_ready q fd" and n: "length hs \<le> 2"
  let ?es = "map (kqueue_report q fd) hs"
  let ?p = "q\<lparr>kq_tevent := map Some ?es @ drop (length ?es) (kq_tevent q)\<rparr>"
  have "kqueue_wait (Some ?es) en q = Inr (length hs, ?p)"
    using n by (simp add: kqueue_wait_def kqueue_event_number_def)
  moreover have "kqueue_ready ?p fd" using q n by (simp add: kqueue_ready_def kqueue_event_number_def)
  moreover have "kqueue_is_socket_event ?p i fd = Inr (hs ! i = Socket_ready) \<and>
      (hs ! i \<noteq> Socket_ready \<longrightarrow> kqueue_is_async_event ?p i = Inr True)" if "i < length hs" for i
  proof -
    have "event_entry (kq_tevent ?p) i = Inr (kqueue_report q fd (hs ! i))"
      using that event_entry_front [of i ?es] by simp
    then show ?thesis using q
      by (cases "hs ! i") (simp_all add: kqueue_is_socket_event_def kqueue_is_async_event_def kqueue_report_def kqueue_ready_def)
  qed
  ultimately show "\<exists>p. kqueue_wait (Some ?es) en q = Inr (length hs, p) \<and> kqueue_ready p fd \<and>
      (\<forall>i < length hs. kqueue_is_socket_event p i fd = Inr (hs ! i = Socket_ready) \<and>
        (hs ! i \<noteq> Socket_ready \<longrightarrow> kqueue_is_async_event p i = Inr True))"
    by blast
qed (simp add: kqueue_wait_def)

lemma kqueue_descriptor_one:
  \<comment> \<open>a socket with descriptor 1 takes the user event for its own\<close>
  assumes "kqueue_wait (Some [kqueue_report q fd Async_event]) en q = Inr (n, p)"
  shows "dispatch (\<lambda>i. kqueue_is_socket_event p i user_ident) (kqueue_is_async_event p) 0 n = Inr [Socket_ready]"
  using assms event_entry_front [of 0 "[(user_ident, EVFILT_USER)]" "drop (Suc 0) (kq_tevent q)"]
  by (auto simp: kqueue_wait_def kqueue_event_number_def kqueue_report_def kqueue_is_socket_event_def)


subsection \<open>The loop of the server\<close>

datatype server_event = Incoming "int \<times> int" nat | Collect
  \<comment> \<open>the listening socket is ready: the result of \<open>accept\<close> with \<open>errno\<close>, and a name for the new thread;
      or the asynchronous event\<close>

fun server_events :: "server_event list \<Rightarrow> tcp_server \<Rightarrow> tcp_server res" where
  "server_events [] s = Inr s"
| "server_events (Incoming r k # es) s =
     (if fst r = -1 then Inl (System_error (snd r)) else server_events es (server_accept k s))"
| "server_events (Collect # es) s = server_events es (server_collect s)"

datatype server_input = Server_wait "server_event list" | Cleanup_connection | Thread_ends nat
  \<comment> \<open>what one \<open>wait\<close> reports; the two last steps of a thread of a client\<close>

fun server_run :: "server_input list \<Rightarrow> tcp_server \<Rightarrow> tcp_server res" where
  "server_run [] s = Inr s"
| "server_run (Server_wait es # is) s = rbind (server_events es s) (server_run is)"
| "server_run (Cleanup_connection # is) s = server_run is (cleanup_tcpclientthread s)"
| "server_run (Thread_ends k # is) s = server_run is (thread_ends k s)"

definition server_destroy :: "tcp_server \<Rightarrow> nat list \<times> tcp_server" where
  \<comment> \<open>\<open>~TCPServer\<close>: the threads it deletes, and waits for\<close>
  "server_destroy s = (map fst (sv_clients s), s\<lparr>sv_clients := []\<rparr>)"

fun accepted_by :: "server_input \<Rightarrow> nat list" where
  "accepted_by (Server_wait es) = concat (map (\<lambda>e. case e of Incoming r k \<Rightarrow> [k] | Collect \<Rightarrow> []) es)"
| "accepted_by Cleanup_connection = []"
| "accepted_by (Thread_ends k) = []"

fun ended_by :: "server_input \<Rightarrow> nat list" where
  "ended_by (Thread_ends k) = [k]" | "ended_by (Server_wait es) = []" | "ended_by Cleanup_connection = []"

lemma running_events:
  "server_events es s = Inr t \<Longrightarrow>
     map fst (filter snd (sv_clients t)) = map fst (filter snd (sv_clients s)) @ accepted_by (Server_wait es)"
  by (induction es s rule: server_events.induct)
     (auto simp: server_accept_def server_collect_def split: if_splits)

lemma running_ends:
  "map fst (filter snd (sv_clients (thread_ends k s))) = filter (\<lambda>j. j \<noteq> k) (map fst (filter snd (sv_clients s)))"
proof -
  have "map fst (filter snd (map (\<lambda>(j, r). (j, if j = k then False else r)) cs)) = filter (\<lambda>j. j \<noteq> k) (map fst (filter snd cs))"
    for cs by (induction cs) auto
  then show ?thesis by (simp add: thread_ends_def)
qed

fun known :: "nat list \<Rightarrow> server_input list \<Rightarrow> bool" where
  \<comment> \<open>names are new when a connection is accepted, and only known threads end\<close>
  "known ks [] = True"
| "known ks (i # is) \<longleftrightarrow> distinct (ks @ accepted_by i) \<and> set (ended_by i) \<subseteq> set ks \<and> known (ks @ accepted_by i) is"

lemma known_later: "known ks is \<Longrightarrow> set (concat (map accepted_by is)) \<inter> set ks = {}"
  by (induction ks "is" rule: known.induct) auto

lemma filter_ended_id: "set xs \<inter> A = {} \<Longrightarrow> filter (\<lambda>k. k \<notin> A) xs = xs"
  by (auto simp: filter_id_conv)

lemma server_events_known:
  "server_events es s = Inr u \<Longrightarrow>
     set (map fst (sv_clients u)) \<subseteq> set (map fst (sv_clients s)) \<union> set (accepted_by (Server_wait es))"
proof (induction es s rule: server_events.induct)
  case (2 r k es s)
  then show ?case by (auto simp: server_accept_def split: if_splits)
next
  case (3 es s)
  then have "set (map fst (sv_clients u)) \<subseteq> set (map fst (filter snd (sv_clients s))) \<union> set (accepted_by (Server_wait es))"
    by (simp add: server_collect_def)
  then show ?case by auto
qed simp

lemma server_run_running:
  "server_run is s = Inr t \<Longrightarrow> known ks is \<Longrightarrow> set (map fst (sv_clients s)) \<subseteq> set ks \<Longrightarrow>
   map fst (filter snd (sv_clients t)) =
     filter (\<lambda>k. k \<notin> set (concat (map ended_by is))) (map fst (filter snd (sv_clients s)) @ concat (map accepted_by is))"
proof (induction "is" s arbitrary: ks rule: server_run.induct)
  case (2 es "is" s)
  then obtain u where u: "server_events es s = Inr u" "server_run is u = Inr t" by (auto simp: rbind_Inr_iff)
  have "set (map fst (sv_clients u)) \<subseteq> set (map fst (sv_clients s)) \<union> set (accepted_by (Server_wait es))"
    using u(1) by (rule server_events_known)
  then have "set (map fst (sv_clients u)) \<subseteq> set (ks @ accepted_by (Server_wait es))" using "2.prems"(3) by auto
  moreover have "known (ks @ accepted_by (Server_wait es)) is" using "2.prems"(2) by simp
  ultimately have "map fst (filter snd (sv_clients t)) = filter (\<lambda>k. k \<notin> set (concat (map ended_by is)))
      (map fst (filter snd (sv_clients u)) @ concat (map accepted_by is))"
    using "2.IH" [OF u(2)] by blast
  then show ?case using running_events [OF u(1)] by simp
next
  case (4 k "is" s)
  let ?E = "set (concat (map ended_by is))" and ?R = "map fst (filter snd (sv_clients s)) @ concat (map accepted_by is)"
  have "set (concat (map accepted_by is)) \<inter> {k} = {}"
    using known_later [of ks "is"] "4.prems"(2) by auto
  then have acc: "filter (\<lambda>j. j \<noteq> k) (concat (map accepted_by is)) = concat (map accepted_by is)"
    using filter_ended_id [of "concat (map accepted_by is)" "{k}"] by simp
  have "set (map fst (sv_clients (thread_ends k s))) \<subseteq> set ks"
    using "4.prems"(3) by (auto simp: thread_ends_def)
  moreover have "known ks is" "server_run is (thread_ends k s) = Inr t" using "4.prems" by simp_all
  ultimately have "map fst (filter snd (sv_clients t)) = filter (\<lambda>j. j \<notin> ?E)
      (map fst (filter snd (sv_clients (thread_ends k s))) @ concat (map accepted_by is))"
    using "4.IH" by blast
  also have "\<dots> = filter (\<lambda>j. j \<notin> ?E) (filter (\<lambda>j. j \<noteq> k) ?R)"
    by (simp only: running_ends acc filter_append)
  also have "\<dots> = filter (\<lambda>j. j \<noteq> k \<and> j \<notin> ?E) ?R" by (rule filter_filter)
  finally show ?case by simp
qed (auto simp: cleanup_tcpclientthread_def)

text \<open>
  The clients of the server: whatever connections come, threads end and events are collected in whatever
  order, the threads that run and are in the list are exactly those accepted and not ended, in the order of their
  connections: no thread is deleted while it runs. Only \<open>accept\<close> ends the loop, with an exception.
\<close>

theorem server_keeps_running:
  assumes "server_run is \<lparr>sv_clients = [], sv_event = False\<rparr> = Inr s" and "known [] is"
  shows "map fst (filter snd (sv_clients s)) =
    filter (\<lambda>k. k \<notin> set (concat (map ended_by is))) (concat (map accepted_by is))"
  using server_run_running [OF assms] by simp

subsection \<open>Progress of the thread of a client\<close>

definition thread_turn :: "int \<Rightarrow> 'm client_thread \<Rightarrow> 'm client_thread" where
  \<comment> \<open>what the thread does when it is scheduled, for the result of the socket if it sends\<close>
  "thread_turn res s = (if ct_error s \<noteq> None then s else case ct_phase s of
       Waiting \<Rightarrow> if ct_event s then take_event s
                  else if ct_running s then s else s\<lparr>ct_phase := Ended\<rparr>
     | Draining \<Rightarrow> pop_async_msg s
     | Sending m e \<Rightarrow> async_sent res m e s
     | Ended \<Rightarrow> s)"

datatype 'm turn = Other_pushes 'm | Scheduled int
  \<comment> \<open>another thread calls \<open>send_msg\<close>; the thread of the client is scheduled\<close>

fun do_turn :: "'m turn \<Rightarrow> 'm client_thread \<Rightarrow> 'm client_thread" where
  "do_turn (Other_pushes m) s = send_msg m s"
| "do_turn (Scheduled res) s = thread_turn res s"

primrec history :: "(nat \<Rightarrow> 'm turn) \<Rightarrow> nat \<Rightarrow> 'm client_thread" where
  \<comment> \<open>the state after the first \<open>n\<close> turns\<close>
  "history sched 0 = new_client_thread"
| "history sched (Suc n) = do_turn (sched n) (history sched n)"

definition fair :: "(nat \<Rightarrow> 'm turn) \<Rightarrow> bool" where
  \<comment> \<open>the thread of the client is scheduled again and again\<close>
  "fair sched \<longleftrightarrow> (\<forall>i. \<exists>j \<ge> i. \<exists>res. sched j = Scheduled res)"

definition socket_takes :: "(nat \<Rightarrow> 'm turn) \<Rightarrow> bool" where
  \<comment> \<open>no send fails or finds the connection closed\<close>
  "socket_takes sched \<longleftrightarrow> (\<forall>i res. sched i = Scheduled res \<longrightarrow> 0 < res)"

lemma thread_turn_step: "thread_turn res s = s \<or> client_step s (thread_turn res s)"
  by (auto simp: thread_turn_def split: phase.split intro: client_step.intros)

lemma history_queue_ok: "queue_ok (history sched n)"
proof (induction n)
  case 0
  show ?case using queue_always_ok [of new_client_thread] by simp
next
  case (Suc n)
  have "do_turn (sched n) (history sched n) = history sched n \<or> client_step (history sched n) (do_turn (sched n) (history sched n))"
    using thread_turn_step by (cases "sched n") (auto intro: client_step.push)
  then show ?case using Suc clients.inv_step by auto
qed

definition sending_well :: "'m client_thread \<Rightarrow> bool" where
  "sending_well s \<longleftrightarrow> queue_ok s \<and> ct_error s = None \<and> ct_running s \<and> ct_phase s \<noteq> Ended \<and> (\<forall>t \<in> set (ct_tried s). snd t)"

lemma history_sending_well:
  assumes "socket_takes sched"
  shows "sending_well (history sched n)"
proof (induction n)
  case 0
  show ?case using history_queue_ok [of sched 0] by (simp add: sending_well_def new_client_thread_def)
next
  case (Suc n)
  have ok: "queue_ok (history sched (Suc n))" by (rule history_queue_ok)
  show ?case
  proof (cases "sched n")
    case (Other_pushes m)
    then show ?thesis using Suc ok by (simp add: sending_well_def send_msg_def)
  next
    case (Scheduled res)
    then have "0 < res" using assms by (simp add: socket_takes_def)
    then show ?thesis using Suc ok Scheduled
      by (auto simp: sending_well_def thread_turn_def take_event_def pop_async_msg_def async_sent_def queue_ok_def
          split: phase.splits list.splits if_splits)
  qed
qed

definition turns_left :: "nat \<Rightarrow> 'm client_thread \<Rightarrow> nat" where
  \<comment> \<open>how often the thread must still be scheduled until the message number \<open>k\<close> is sent\<close>
  "turns_left k s = 3 * (Suc k - length (ct_tried s)) +
     (case ct_phase s of Waiting \<Rightarrow> 2 | Draining \<Rightarrow> 1 | Sending m e \<Rightarrow> 0 | Ended \<Rightarrow> 0)"

lemma turn_progress:
  assumes "sending_well s" and "length (ct_tried s) \<le> k" and "k < length (ct_pushed s)" and "0 < res"
  shows "turns_left k (thread_turn res s) < turns_left k s"
  using assms
  by (auto simp: sending_well_def queue_ok_def thread_turn_def turns_left_def take_event_def pop_async_msg_def
      async_sent_def split: phase.splits list.splits)

lemma push_progress [simp]:
  "turns_left k (send_msg m s) = turns_left k s" "ct_tried (send_msg m s) = ct_tried s"
  "ct_pushed (send_msg m s) = ct_pushed s @ [m]"
  by (simp_all add: turns_left_def send_msg_def)

lemma pushed_turn [simp]: "ct_pushed (thread_turn res s) = ct_pushed s"
  by (auto simp: thread_turn_def take_event_def pop_async_msg_def async_sent_def split: phase.splits list.splits)

lemma pushed_grows: "i \<le> j \<Longrightarrow> \<exists>ms. ct_pushed (history sched j) = ct_pushed (history sched i) @ ms"
proof (induction j)
  case (Suc j)
  then show ?case by (cases "i = Suc j"; cases "sched j") (auto simp: le_Suc_eq)
qed simp

lemma sent_eventually:
  assumes "fair sched" and pos: "socket_takes sched"
  shows "k < length (ct_pushed (history sched i)) \<Longrightarrow> \<exists>j \<ge> i. k < length (ct_tried (history sched j))"
proof (induction "turns_left k (history sched i)" arbitrary: i rule: less_induct)
  case less
  show ?case
  proof (cases "k < length (ct_tried (history sched i))")
    case False
    define j where "j = (LEAST j. i \<le> j \<and> (\<exists>res. sched j = Scheduled res))"
    have ex: "\<exists>j. i \<le> j \<and> (\<exists>res. sched j = Scheduled res)" using assms(1) by (auto simp: fair_def)
    then have j: "i \<le> j" "\<exists>res. sched j = Scheduled res" unfolding j_def using LeastI_ex [OF ex] by simp_all
    have before: "\<exists>m. sched l = Other_pushes m" if "i \<le> l" "l < j" for l
      using not_less_Least [of l "\<lambda>j. i \<le> j \<and> (\<exists>res. sched j = Scheduled res)"] that
      by (cases "sched l") (auto simp: j_def)
    have same: "turns_left k (history sched (i + d)) = turns_left k (history sched i) \<and>
        ct_tried (history sched (i + d)) = ct_tried (history sched i)" if "i + d \<le> j" for d
      using that
    proof (induction d)
      case (Suc d)
      then show ?case using before [of "i + d"] by auto
    qed simp
    obtain res where res: "sched j = Scheduled res" using j(2) ..
    have at: "turns_left k (history sched j) = turns_left k (history sched i)"
      "ct_tried (history sched j) = ct_tried (history sched i)" using same [of "j - i"] j(1) by simp_all
    have k: "k < length (ct_pushed (history sched j))" using pushed_grows [OF j(1), of sched] less.prems by auto
    have "0 < res" using pos res by (simp add: socket_takes_def)
    then have "turns_left k (history sched (Suc j)) < turns_left k (history sched i)"
      using turn_progress [OF history_sending_well [OF pos] _ k] at False res by simp
    moreover have "k < length (ct_pushed (history sched (Suc j)))" using k res by simp
    ultimately have "\<exists>l \<ge> Suc j. k < length (ct_tried (history sched l))" by (rule less.hyps)
    then show ?thesis using j(1) by (meson Suc_leD order_trans)
  qed blast
qed

text \<open>
  C10. Progress: when the thread of a client is scheduled again and again and its socket takes what it
  is given, every message that any thread queues with \<open>send_msg\<close>, at whatever moment and however many others
  are queued, is eventually sent, and in its turn: as the message number \<open>k\<close> if it was queued as
  number \<open>k\<close>. No wake-up is needed but the one event.
\<close>

theorem queued_messages_sent:
  assumes "fair sched" and "socket_takes sched" and "sched i = Other_pushes m"
  shows "\<exists>j > i. length (ct_pushed (history sched i)) < length (ct_tried (history sched j)) \<and>
    ct_tried (history sched j) ! length (ct_pushed (history sched i)) = (m, True)"
proof -
  let ?k = "length (ct_pushed (history sched i))"
  have p: "ct_pushed (history sched (Suc i)) = ct_pushed (history sched i) @ [m]" using assms(3) by simp
  then obtain j where j: "Suc i \<le> j" "?k < length (ct_tried (history sched j))"
    using sent_eventually [OF assms(1,2), where k = ?k and i = "Suc i"] by auto
  let ?s = "history sched j"
  obtain ms where "ct_pushed ?s = ct_pushed (history sched i) @ m # ms"
    using pushed_grows [OF j(1), of sched] p by auto
  moreover have "ct_pushed ?s = map fst (ct_tried ?s) @ in_send (ct_phase ?s) @ ct_queue ?s"
    using history_queue_ok [of sched j] by (simp add: queue_ok_def)
  ultimately have "map fst (ct_tried ?s) ! ?k = m"
    using j(2) by (metis length_map nth_append nth_append_length)
  moreover have "snd (ct_tried ?s ! ?k)"
    using history_sending_well [OF assms(2), of j] j(2) by (simp add: sending_well_def)
  ultimately have "ct_tried ?s ! ?k = (m, True)" using j(2) by (simp add: prod_eq_iff)
  then show ?thesis using j by (intro exI [of _ j]) simp
qed

definition sample_schedule :: "nat \<Rightarrow> nat turn" where
  \<comment> \<open>messages come faster than the thread is scheduled\<close>
  "sample_schedule i = (if i mod 3 = 2 then Scheduled 1 else Other_pushes i)"

theorem queued_messages_sent_witness:
  "\<exists>j > 1. 1 < length (ct_tried (history sample_schedule j)) \<and> ct_tried (history sample_schedule j) ! 1 = (1, True)"
proof -
  have "\<exists>j \<ge> i. \<exists>res. sample_schedule j = Scheduled res" for i
  proof -
    have "(3 * i + 2) mod 3 = (2::nat)" by presburger
    then have "sample_schedule (3 * i + 2) = Scheduled 1" unfolding sample_schedule_def by (rule if_P)
    then show ?thesis by (intro exI [of _ "3 * i + 2"]) auto
  qed
  then have f: "fair sample_schedule" by (simp add: fair_def)
  have p: "socket_takes sample_schedule" by (simp add: sample_schedule_def socket_takes_def)
  have m: "sample_schedule 1 = Other_pushes 1" by (simp add: sample_schedule_def)
  have k: "length (ct_pushed (history sample_schedule 1)) = 1"
    by (simp add: sample_schedule_def new_client_thread_def)
  show ?thesis using queued_messages_sent [OF f p m] by (simp only: k)
qed

end
