(* ===== verification/H9_Doc.thy ===== *)
theory H9_Doc
  imports H9_Msg
begin

text \<open>
  Who owns a document. A \<open>GenericMsg\<close> (\<open>protocol/genericmsg.cc\<close>) holds a pointer to a libxml2 document
  that its constructors allocate and its destructor frees; the other theories use messages as values. Here
  the pointers are explicit: the store of the live documents, the objects of a program by number, and every
  constructor, assignment and the destructor as a step on both. \<open>GenericMethod\<close> (\<open>protocol/genericmethod.h\<close>)
  keeps a second pointer into the document, \<open>parres\<close>.
\<close>

subsection \<open>Documents and objects\<close>

record 'n doc_state =
  ds_docs :: "nat \<Rightarrow> 'n gmsg option"
    \<comment> \<open>the documents allocated and not freed\<close>
  ds_next :: nat
    \<comment> \<open>an address no document has had\<close>
  ds_objs :: "nat \<Rightarrow> nat option option"
    \<comment> \<open>the field \<open>doc\<close> of each object that lives; \<open>Some None\<close> is a null pointer\<close>

definition no_docs :: "'n doc_state" where
  "no_docs = \<lparr>ds_docs = Map.empty, ds_next = 0, ds_objs = Map.empty\<rparr>"

definition alloc_doc :: "'n gmsg \<Rightarrow> 'n doc_state \<Rightarrow> nat \<times> 'n doc_state" where
  "alloc_doc d s = (ds_next s, s\<lparr>ds_docs := (ds_docs s)(ds_next s \<mapsto> d), ds_next := Suc (ds_next s)\<rparr>)"

definition free_doc :: "nat option \<Rightarrow> 'n doc_state \<Rightarrow> 'n doc_state res" where
  \<comment> \<open>\<open>if (doc) xmlFreeDoc(doc)\<close>; freeing what is not allocated is undefined\<close>
  "free_doc p s = (case p of None \<Rightarrow> Inr s
     | Some a \<Rightarrow> if ds_docs s a = None then Inl Undefined_behaviour else Inr (s\<lparr>ds_docs := (ds_docs s)(a := None)\<rparr>))"

definition copy_doc :: "nat option \<Rightarrow> 'n doc_state \<Rightarrow> (nat option \<times> 'n doc_state) res" where
  \<comment> \<open>\<open>if (k.doc) doc = xmlCopyDoc(k.doc, 1)\<close> on a null \<open>doc\<close>\<close>
  "copy_doc p s = (case p of None \<Rightarrow> Inr (None, s)
     | Some a \<Rightarrow> (case ds_docs s a of None \<Rightarrow> Inl Undefined_behaviour
         | Some d \<Rightarrow> let (b, s1) = alloc_doc d s in Inr (Some b, s1)))"

definition set_obj :: "nat \<Rightarrow> nat option \<Rightarrow> 'n doc_state \<Rightarrow> 'n doc_state" where
  "set_obj v p s = s\<lparr>ds_objs := (ds_objs s)(v \<mapsto> p)\<rparr>"

definition doc_of :: "nat \<Rightarrow> 'n doc_state \<Rightarrow> nat option res" where
  \<comment> \<open>the field of an object; an object that does not live cannot be used\<close>
  "doc_of v s = (case ds_objs s v of None \<Rightarrow> Inl Undefined_behaviour | Some p \<Rightarrow> Inr p)"

subsection \<open>The operations\<close>

datatype 'n doc_op =
    Make nat msg_type
  | Make_parsed nat "'n option"
    \<comment> \<open>from text, with the result of \<open>xmlReadMemory\<close>\<close>
  | Make_default nat
  | Make_copy nat nat
  | Make_moved nat nat
  | Assign_copy nat nat
  | Assign_moved nat nat
  | Destroy nat

definition make_msg :: "'n libxml \<Rightarrow> nat \<Rightarrow> msg_type \<Rightarrow> 'n doc_state \<Rightarrow> cxx_error option \<times> 'n doc_state" where
  \<comment> \<open>the document is allocated before the type is looked at; when the constructor throws, no destructor
      runs\<close>
  "make_msg X v t s = (case new_msg X t of
       Inl e \<Rightarrow> (Some e, snd (alloc_doc \<lparr>doc_root = xnew X ''h9'', msg_node = None\<rparr> s))
     | Inr d \<Rightarrow> (let (a, s1) = alloc_doc d s in (None, set_obj v (Some a) s1)))"

definition make_parsed :: "'n libxml \<Rightarrow> nat \<Rightarrow> 'n option \<Rightarrow> 'n doc_state \<Rightarrow> cxx_error option \<times> 'n doc_state" where
  "make_parsed X v r s = (case parsed_msg X r of
       Inl e \<Rightarrow> (Some e, s)
     | Inr d \<Rightarrow> (let (a, s1) = alloc_doc d s in (None, set_obj v (Some a) s1)))"

definition assign_copy :: "nat \<Rightarrow> nat \<Rightarrow> 'n doc_state \<Rightarrow> 'n doc_state res" where
  \<comment> \<open>the old document is freed and the pointer cleared before the other object is read, which may be
      the same\<close>
  "assign_copy v w s = rbind (doc_of v s) (\<lambda>p. rbind (free_doc p s) (\<lambda>s1. let s2 = set_obj v None s1 in
     rbind (doc_of w s2) (\<lambda>q. rbind (copy_doc q s2) (\<lambda>(r, s3). Inr (set_obj v r s3)))))"

definition assign_moved :: "nat \<Rightarrow> nat \<Rightarrow> 'n doc_state \<Rightarrow> 'n doc_state res" where
  "assign_moved v w s = rbind (doc_of v s) (\<lambda>p. rbind (free_doc p s) (\<lambda>s1.
     rbind (doc_of w s1) (\<lambda>q. Inr (set_obj w None (set_obj v q s1)))))"

definition destroy :: "nat \<Rightarrow> 'n doc_state \<Rightarrow> 'n doc_state res" where
  "destroy v s = rbind (doc_of v s) (\<lambda>p. rbind (free_doc p s) (\<lambda>s1. Inr (s1\<lparr>ds_objs := (ds_objs s1)(v := None)\<rparr>)))"

definition lift_res :: "'s \<Rightarrow> 's res \<Rightarrow> cxx_error option \<times> 's" where
  "lift_res s r = (case r of Inl e \<Rightarrow> (Some e, s) | Inr t \<Rightarrow> (None, t))"

fun doc_step :: "'n libxml \<Rightarrow> 'n doc_op \<Rightarrow> 'n doc_state \<Rightarrow> cxx_error option \<times> 'n doc_state" where
  "doc_step X (Make v t) s = make_msg X v t s"
| "doc_step X (Make_parsed v r) s = make_parsed X v r s"
| "doc_step X (Make_default v) s = (None, set_obj v None s)"
| "doc_step X (Make_copy v w) s =
     lift_res s (rbind (doc_of w s) (\<lambda>p. rbind (copy_doc p s) (\<lambda>(q, s1). Inr (set_obj v q s1))))"
| "doc_step X (Make_moved v w) s = lift_res s (rbind (doc_of w s) (\<lambda>p. Inr (set_obj w None (set_obj v p s))))"
| "doc_step X (Assign_copy v w) s = lift_res s (assign_copy v w s)"
| "doc_step X (Assign_moved v w) s = lift_res s (assign_moved v w s)"
| "doc_step X (Destroy v) s = lift_res s (destroy v s)"

fun doc_run :: "'n libxml \<Rightarrow> 'n doc_op list \<Rightarrow> 'n doc_state \<Rightarrow> cxx_error list \<times> 'n doc_state" where
  \<comment> \<open>a program that handles its exceptions: the exceptions, in order, and the state\<close>
  "doc_run X [] s = ([], s)"
| "doc_run X (p # ps) s = (let (e, s1) = doc_step X p s; (es, s2) = doc_run X ps s1
     in ((case e of None \<Rightarrow> [] | Some x \<Rightarrow> [x]) @ es, s2))"

subsection \<open>Messages as values\<close>

type_synonym 'n msg_values = "nat \<Rightarrow> 'n gmsg option option"
  \<comment> \<open>each living object with its message, \<open>Some None\<close> when it has none\<close>

definition values_of :: "'n doc_state \<Rightarrow> 'n msg_values" where
  "values_of s v = map_option (\<lambda>p. Option.bind p (ds_docs s)) (ds_objs s v)"

fun value_step :: "'n libxml \<Rightarrow> 'n doc_op \<Rightarrow> 'n msg_values \<Rightarrow> 'n msg_values" where
  \<comment> \<open>the same operations on values: a moved object has no message, and neither has an object that was
      assigned to itself\<close>
  "value_step X (Make v t) f = (case new_msg X t of Inl e \<Rightarrow> f | Inr d \<Rightarrow> f(v \<mapsto> Some d))"
| "value_step X (Make_parsed v r) f = (case parsed_msg X r of Inl e \<Rightarrow> f | Inr d \<Rightarrow> f(v \<mapsto> Some d))"
| "value_step X (Make_default v) f = f(v \<mapsto> None)"
| "value_step X (Make_copy v w) f = f(v := f w)"
| "value_step X (Make_moved v w) f = f(v := f w, w \<mapsto> None)"
| "value_step X (Assign_copy v w) f = (if v = w then f(v \<mapsto> None) else f(v := f w))"
| "value_step X (Assign_moved v w) f = f(v := f w, w \<mapsto> None)"
| "value_step X (Destroy v) f = f(v := None)"

fun scoped :: "'n libxml \<Rightarrow> 'n doc_op \<Rightarrow> nat set \<Rightarrow> bool" where
  \<comment> \<open>what the compiler guarantees: constructors make new objects, other operations are on living ones\<close>
  "scoped X (Make v t) vs \<longleftrightarrow> v \<notin> vs"
| "scoped X (Make_parsed v r) vs \<longleftrightarrow> v \<notin> vs"
| "scoped X (Make_default v) vs \<longleftrightarrow> v \<notin> vs"
| "scoped X (Make_copy v w) vs \<longleftrightarrow> v \<notin> vs \<and> w \<in> vs"
| "scoped X (Make_moved v w) vs \<longleftrightarrow> v \<notin> vs \<and> w \<in> vs"
| "scoped X (Assign_copy v w) vs \<longleftrightarrow> v \<in> vs \<and> w \<in> vs"
| "scoped X (Assign_moved v w) vs \<longleftrightarrow> v \<in> vs \<and> w \<in> vs"
| "scoped X (Destroy v) vs \<longleftrightarrow> v \<in> vs"

fun scope_after :: "'n libxml \<Rightarrow> 'n doc_op \<Rightarrow> nat set \<Rightarrow> nat set" where
  "scope_after X (Make v t) vs = (if t = GENERIC then vs else insert v vs)"
| "scope_after X (Make_parsed v r) vs = (case parsed_msg X r of Inl _ \<Rightarrow> vs | Inr _ \<Rightarrow> insert v vs)"
| "scope_after X (Make_default v) vs = insert v vs"
| "scope_after X (Make_copy v w) vs = insert v vs"
| "scope_after X (Make_moved v w) vs = insert v vs"
| "scope_after X (Destroy v) vs = vs - {v}"
| "scope_after X (Assign_copy v w) vs = vs"
| "scope_after X (Assign_moved v w) vs = vs"

fun scoped_run :: "'n libxml \<Rightarrow> 'n doc_op list \<Rightarrow> nat set \<Rightarrow> bool" where
  "scoped_run X [] vs = True"
| "scoped_run X (p # ps) vs \<longleftrightarrow> scoped X p vs \<and> scoped_run X ps (scope_after X p vs)"

subsection \<open>The invariant\<close>

definition owned :: "'n doc_state \<Rightarrow> bool" where
  \<comment> \<open>every pointer leads to a document, no two objects share one, and new addresses are new\<close>
  "owned s \<longleftrightarrow>
     (\<forall>v a. ds_objs s v = Some (Some a) \<longrightarrow> ds_docs s a \<noteq> None) \<and>
     (\<forall>v w a. ds_objs s v = Some (Some a) \<and> ds_objs s w = Some (Some a) \<longrightarrow> v = w) \<and>
     (\<forall>a. ds_docs s a \<noteq> None \<longrightarrow> a < ds_next s)"

definition pointed :: "(nat \<Rightarrow> nat option option) \<Rightarrow> nat set" where
  "pointed f = {a. \<exists>v. f v = Some (Some a)}"

definition leaked :: "'n doc_state \<Rightarrow> nat set" where
  \<comment> \<open>the documents no object points to\<close>
  "leaked s = dom (ds_docs s) - pointed (ds_objs s)"

lemma pointed_empty: "f v = None \<or> f v = Some None \<Longrightarrow> p = None \<or> p = Some None \<Longrightarrow> pointed (f(v := p)) = pointed f"
  by (auto simp: pointed_def) (metis option.distinct(1) option.inject)+

lemma pointed_new: "f v = None \<or> f v = Some None \<Longrightarrow> pointed (f(v \<mapsto> Some a)) = insert a (pointed f)"
  by (auto simp: pointed_def) (metis option.distinct(1) option.inject)+

lemma ownedD:
  assumes "owned s"
  shows "ds_objs s v = Some (Some a) \<Longrightarrow> \<exists>d. ds_docs s a = Some d"
    and "ds_objs s v = Some (Some a) \<Longrightarrow> ds_objs s w = Some (Some a) \<Longrightarrow> v = w"
    and "ds_docs s (ds_next s) = None"
    and "ds_objs s v \<noteq> Some (Some (ds_next s))"
    and "ds_docs s a = Some d \<Longrightarrow> a < ds_next s"
proof -
  show "ds_objs s v = Some (Some a) \<Longrightarrow> \<exists>d. ds_docs s a = Some d"
    "ds_objs s v = Some (Some a) \<Longrightarrow> ds_objs s w = Some (Some a) \<Longrightarrow> v = w"
    "ds_docs s a = Some d \<Longrightarrow> a < ds_next s"
    using assms unfolding owned_def by blast+
  show n: "ds_docs s (ds_next s) = None" using assms unfolding owned_def by blast
  show "ds_objs s v \<noteq> Some (Some (ds_next s))" using assms n unfolding owned_def by blast
qed


definition becomes :: "'n doc_state \<Rightarrow> 'n doc_state \<Rightarrow> 'n msg_values \<Rightarrow> bool" where
  \<comment> \<open>the state after a change of the objects: still owned, nothing leaked, with the given values\<close>
  "becomes s t f \<longleftrightarrow> owned t \<and> leaked t = leaked s \<and> values_of t = f"

lemma values_dom: "dom (values_of s) = dom (ds_objs s)"
  by (auto simp: values_of_def)

definition empty_slot :: "nat \<Rightarrow> 'n doc_state \<Rightarrow> bool" where
  \<comment> \<open>no object, or one without a document\<close>
  "empty_slot v s \<longleftrightarrow> ds_objs s v = None \<or> ds_objs s v = Some None"

lemma bind_upd: "Option.bind p (f(a := x)) = (if p = Some a then x else Option.bind p f)"
  by (cases p) simp_all

lemma becomes_new:
  assumes "owned s" and "empty_slot v s" and "alloc_doc d s = (a, s1)"
  shows "becomes s (set_obj v (Some a) s1) ((values_of s)(v \<mapsto> Some d))"
proof -
  note o = ownedD [OF assms(1)]
  have s1: "a = ds_next s" "s1 = s\<lparr>ds_docs := (ds_docs s)(a \<mapsto> d), ds_next := Suc a\<rparr>"
    using assms(3) by (auto simp: alloc_doc_def)
  have v: "ds_objs s v \<noteq> Some (Some b)" for b using assms(2) by (auto simp: empty_slot_def)
  have "owned (set_obj v (Some a) s1)"
    unfolding owned_def s1(2) using assms(1) o(4,5) s1(1) by (auto simp: set_obj_def owned_def less_Suc_eq)
  moreover have "leaked (set_obj v (Some a) s1) = leaked s"
    using o(3) s1(1) pointed_new [of "ds_objs s" v a] assms(2) unfolding s1(2)
    by (auto simp: leaked_def set_obj_def empty_slot_def)
  moreover have "values_of (set_obj v (Some a) s1) = (values_of s)(v \<mapsto> Some d)"
  proof (rule ext)
    fix w
    show "values_of (set_obj v (Some a) s1) w = ((values_of s)(v \<mapsto> Some d)) w"
      using o(4) [of w] s1(1) unfolding s1(2)
      by (cases "ds_objs s w") (simp_all add: values_of_def set_obj_def bind_upd)
  qed
  ultimately show ?thesis by (simp add: becomes_def)
qed

lemma becomes_null:
  assumes "owned s" and "empty_slot v s"
  shows "becomes s (set_obj v None s) ((values_of s)(v \<mapsto> None))"
proof -
  have "owned (set_obj v None s)" using assms(1) by (auto simp: owned_def set_obj_def)
  moreover have "leaked (set_obj v None s) = leaked s"
    using assms(2) pointed_empty [of "ds_objs s" v "Some None"] by (simp add: leaked_def set_obj_def empty_slot_def)
  ultimately show ?thesis by (auto simp: becomes_def values_of_def set_obj_def)
qed

lemma becomes_freed:
  assumes "owned s" and "ds_objs s v = Some p"
  shows "\<exists>s1. free_doc p s = Inr s1 \<and> ds_objs s1 = ds_objs s \<and>
    becomes s (set_obj v None s1) ((values_of s)(v \<mapsto> None)) \<and>
    becomes s (s1\<lparr>ds_objs := (ds_objs s1)(v := None)\<rparr>) ((values_of s)(v := None))"
proof (cases p)
  case None
  then have "empty_slot v s" using assms(2) by (simp add: empty_slot_def)
  moreover have "owned (s\<lparr>ds_objs := (ds_objs s)(v := None)\<rparr>)" using assms(1) by (simp add: owned_def)
  then have "becomes s (s\<lparr>ds_objs := (ds_objs s)(v := None)\<rparr>) ((values_of s)(v := None))"
    using assms(2) None pointed_empty [of "ds_objs s" v None] by (auto simp: becomes_def leaked_def values_of_def)
  ultimately show ?thesis using becomes_null [OF assms(1)] None by (simp add: free_doc_def)
next
  case (Some a)
  note o = ownedD [OF assms(1)]
  let ?s1 = "s\<lparr>ds_docs := (ds_docs s)(a := None)\<rparr>"
  have v: "ds_objs s v = Some (Some a)" using assms(2) Some by simp
  have f: "free_doc p s = Inr ?s1" using o(1) [OF v] Some by (auto simp: free_doc_def)
  have other: "ds_objs s w \<noteq> Some (Some a)" if "w \<noteq> v" for w using o(2) [OF v] that by auto
  have b: "becomes s (?s1\<lparr>ds_objs := (ds_objs s)(v := n)\<rparr>) ((values_of s)(v := map_option (\<lambda>p. None) n))"
    if n: "n = None \<or> n = Some None" for n
  proof -
    let ?t = "?s1\<lparr>ds_objs := (ds_objs s)(v := n)\<rparr>"
    have "owned ?t" unfolding owned_def
    proof (intro conjI allI impI)
      fix w c assume "ds_objs ?t w = Some (Some c)"
      then have w: "w \<noteq> v" "ds_objs s w = Some (Some c)" using n by (auto split: if_splits)
      then have "c \<noteq> a" using other by auto
      then show "ds_docs ?t c \<noteq> None" using o(1) [OF w(2)] by simp
    next
      fix w x c assume "ds_objs ?t w = Some (Some c) \<and> ds_objs ?t x = Some (Some c)"
      then have "ds_objs s w = Some (Some c)" "ds_objs s x = Some (Some c)" using n by (auto split: if_splits)
      then show "w = x" by (rule o(2))
    next
      fix c assume "ds_docs ?t c \<noteq> None"
      then show "c < ds_next ?t" using o(5) by (auto split: if_splits)
    qed
    moreover have "leaked ?t = leaked s"
    proof -
      have restored: "((ds_objs s)(v := n))(v \<mapsto> Some a) = ds_objs s" using v by (simp add: fun_upd_idem_iff)
      have "pointed (ds_objs s) = insert a (pointed ((ds_objs s)(v := n)))"
        using pointed_new [of "(ds_objs s)(v := n)" v a] n unfolding restored by simp
      moreover have "a \<notin> pointed ((ds_objs s)(v := n))" using other n by (auto simp: pointed_def split: if_splits)
      ultimately show ?thesis by (auto simp: leaked_def)
    qed
    moreover have "values_of ?t = (values_of s)(v := map_option (\<lambda>p. None) n)"
    proof (rule ext)
      fix w
      show "values_of ?t w = ((values_of s)(v := map_option (\<lambda>p. None) n)) w"
        using other [of w] n by (cases "ds_objs s w") (auto simp: values_of_def bind_upd)
    qed
    ultimately show ?thesis by (simp add: becomes_def)
  qed
  show ?thesis using f b [of None] b [of "Some None"] by (simp add: set_obj_def)
qed

lemma becomes_moved:
  assumes "owned s" and "empty_slot v s" and "ds_objs s w = Some q" and "v \<noteq> w"
  shows "becomes s (set_obj w None (set_obj v q s)) ((values_of s)(v := values_of s w, w \<mapsto> None))"
proof -
  note o = ownedD [OF assms(1)]
  let ?t = "set_obj w None (set_obj v q s)"
  have t: "ds_objs ?t x = Some (Some c) \<longleftrightarrow> (if x = v then q = Some c else x \<noteq> w \<and> ds_objs s x = Some (Some c))" for x c
    using assms(4) by (auto simp: set_obj_def)
  have "owned ?t" unfolding owned_def
  proof (intro conjI allI impI)
    fix x c assume "ds_objs ?t x = Some (Some c)"
    then have "ds_objs s x = Some (Some c) \<or> ds_objs s w = Some (Some c)" using assms(3) by (auto simp: t split: if_splits)
    then show "ds_docs ?t c \<noteq> None" using o(1) by (auto simp: set_obj_def)
  next
    fix x y c assume "ds_objs ?t x = Some (Some c) \<and> ds_objs ?t y = Some (Some c)"
    then have "(if x = v then q = Some c else x \<noteq> w \<and> ds_objs s x = Some (Some c)) \<and>
        (if y = v then q = Some c else y \<noteq> w \<and> ds_objs s y = Some (Some c))" by (simp only: t)
    moreover have "z = w" if "q = Some c" "ds_objs s z = Some (Some c)" for z
      using o(2) [OF that(2)] that(1) assms(3) by simp
    moreover have "x = y" if "ds_objs s x = Some (Some c)" "ds_objs s y = Some (Some c)"
      using o(2) [OF that] .
    ultimately show "x = y" by (auto split: if_splits)
  next
    fix c assume "ds_docs ?t c \<noteq> None"
    then show "c < ds_next ?t" using o(5) by (auto simp: set_obj_def)
  qed
  moreover have "leaked ?t = leaked s"
  proof -
    have "c \<in> pointed (ds_objs ?t) \<longleftrightarrow> c \<in> pointed (ds_objs s)" for c
    proof
      assume "c \<in> pointed (ds_objs ?t)"
      then obtain x where "if x = v then q = Some c else x \<noteq> w \<and> ds_objs s x = Some (Some c)"
        unfolding pointed_def mem_Collect_eq t ..
      then show "c \<in> pointed (ds_objs s)" using assms(3) by (auto simp: pointed_def split: if_splits)
    next
      assume "c \<in> pointed (ds_objs s)"
      then obtain x where x: "ds_objs s x = Some (Some c)" by (auto simp: pointed_def)
      then have "x \<noteq> v" using assms(2) by (auto simp: empty_slot_def)
      then have "if (if x = w then v else x) = v then q = Some c else (if x = w then v else x) \<noteq> w \<and>
          ds_objs s (if x = w then v else x) = Some (Some c)" using x assms(3) by auto
      then show "c \<in> pointed (ds_objs ?t)" unfolding pointed_def mem_Collect_eq t ..
    qed
    then show ?thesis by (auto simp: leaked_def set_obj_def)
  qed
  moreover have "values_of ?t = (values_of s)(v := values_of s w, w \<mapsto> None)"
    using assms(3,4) by (auto simp: values_of_def set_obj_def)
  ultimately show ?thesis by (simp add: becomes_def)
qed

lemma becomes_trans: "becomes s t f \<Longrightarrow> becomes t u g \<Longrightarrow> becomes s u g"
  by (simp add: becomes_def)

lemma becomes_copied:
  assumes "owned s" and "empty_slot v s" and "ds_objs s w = Some p"
  shows "\<exists>q s1. copy_doc p s = Inr (q, s1) \<and> becomes s (set_obj v q s1) ((values_of s)(v := values_of s w))"
proof (cases p)
  case None
  then show ?thesis using becomes_null [OF assms(1,2)] assms(3) by (simp add: copy_doc_def values_of_def)
next
  case (Some a)
  then obtain d where d: "ds_docs s a = Some d" using ownedD(1) [OF assms(1)] assms(3) by blast
  obtain b s1 where b: "alloc_doc d s = (b, s1)" by fastforce
  have "values_of s w = Some (Some d)" using assms(3) Some d by (simp add: values_of_def)
  then show ?thesis using becomes_new [OF assms(1,2) b] Some d b by (simp add: copy_doc_def)
qed


lemma becomes_assigned:
  \<comment> \<open>the second half of an assignment, after the object has lost its document\<close>
  assumes "owned s" and "ds_objs s v = Some p" and "ds_objs s w = Some q"
  shows "\<exists>t. assign_copy v w s = Inr t \<and>
      becomes s t (if v = w then (values_of s)(v \<mapsto> None) else (values_of s)(v := values_of s w))"
    and "\<exists>t. assign_moved v w s = Inr t \<and> becomes s t ((values_of s)(v := values_of s w, w \<mapsto> None))"
proof -
  obtain s1 where s1: "free_doc p s = Inr s1" "ds_objs s1 = ds_objs s"
      "becomes s (set_obj v None s1) ((values_of s)(v \<mapsto> None))"
    using becomes_freed [OF assms(1,2)] by blast
  let ?s2 = "set_obj v None s1"
  have s2: "owned ?s2" "values_of ?s2 = (values_of s)(v \<mapsto> None)" "empty_slot v ?s2"
    using s1(3) by (simp_all add: becomes_def empty_slot_def set_obj_def)
  have w: "ds_objs ?s2 w = Some (if v = w then None else q)"
    using assms(3) s1(2) by (auto simp: set_obj_def)
  obtain r s3 where c: "copy_doc (if v = w then None else q) ?s2 = Inr (r, s3)"
      "becomes ?s2 (set_obj v r s3) ((values_of ?s2)(v := values_of ?s2 w))"
    using becomes_copied [OF s2(1,3) w] by blast
  have "assign_copy v w s = Inr (set_obj v r s3)"
    using assms(2) s1(1) w c(1) by (simp add: assign_copy_def doc_of_def Let_def)
  moreover have "becomes s (set_obj v r s3) (if v = w then (values_of s)(v \<mapsto> None) else (values_of s)(v := values_of s w))"
    using becomes_trans [OF s1(3) c(2)] s2(2) by (cases "v = w") simp_all
  ultimately show "\<exists>t. assign_copy v w s = Inr t \<and>
      becomes s t (if v = w then (values_of s)(v \<mapsto> None) else (values_of s)(v := values_of s w))" by blast
  have m: "assign_moved v w s = Inr (set_obj w None (set_obj v q s1))"
    using assms(2,3) s1(1,2) by (simp add: assign_moved_def doc_of_def)
  have "becomes s (set_obj w None (set_obj v q s1)) ((values_of s)(v := values_of s w, w \<mapsto> None))"
  proof (cases "v = w")
    case True
    then show ?thesis using s1(3) by (simp add: set_obj_def)
  next
    case False
    then have w2: "ds_objs ?s2 w = Some q" using w by simp
    have "set_obj w None (set_obj v q s1) = set_obj w None (set_obj v q ?s2)"
      by (simp add: set_obj_def)
    then show ?thesis
      using becomes_trans [OF s1(3) becomes_moved [OF s2(1,3) w2 False]] s2(2) False by simp
  qed
  then show "\<exists>t. assign_moved v w s = Inr t \<and> becomes s t ((values_of s)(v := values_of s w, w \<mapsto> None))"
    using m by blast
qed

fun constructor_error :: "'n libxml \<Rightarrow> 'n doc_op \<Rightarrow> cxx_error option" where
  \<comment> \<open>the exceptions of the two constructors that have one\<close>
  "constructor_error X (Make v t) = (if t = GENERIC then Some Invalid_argument else None)"
| "constructor_error X (Make_parsed v r) = (case parsed_msg X r of Inl e \<Rightarrow> Some e | Inr _ \<Rightarrow> None)"
| "constructor_error X (Make_default v) = None"
| "constructor_error X (Make_copy v w) = None"
| "constructor_error X (Make_moved v w) = None"
| "constructor_error X (Assign_copy v w) = None"
| "constructor_error X (Assign_moved v w) = None"
| "constructor_error X (Destroy v) = None"

fun makes_generic :: "'n doc_op \<Rightarrow> bool" where
  "makes_generic (Make v t) \<longleftrightarrow> t = GENERIC"
| "makes_generic (Make_parsed v r) = False" | "makes_generic (Make_default v) = False"
| "makes_generic (Make_copy v w) = False" | "makes_generic (Make_moved v w) = False"
| "makes_generic (Assign_copy v w) = False" | "makes_generic (Assign_moved v w) = False"
| "makes_generic (Destroy v) = False"

lemma doc_step_becomes:
  assumes "owned s" and "scoped X p (dom (ds_objs s))" and "\<not> makes_generic p"
  shows "\<exists>t. doc_step X p s = (constructor_error X p, t) \<and> becomes s t (value_step X p (values_of s))"
  using assms(2,3)
proof (cases p)
  case (Make v t)
  then obtain d where d: "new_msg X t = Inr d" using assms(3) by (auto simp: new_msg_def)
  obtain a s1 where a: "alloc_doc d s = (a, s1)" by fastforce
  have "empty_slot v s" using assms(2) Make by (auto simp: empty_slot_def)
  then show ?thesis using becomes_new [OF assms(1) _ a] d a Make assms(3) by (simp add: make_msg_def)
next
  case (Make_parsed v r)
  have v: "empty_slot v s" using assms(2) Make_parsed by (auto simp: empty_slot_def)
  show ?thesis
  proof (cases "parsed_msg X r")
    case (Inl e)
    then show ?thesis using Make_parsed assms(1) by (simp add: make_parsed_def becomes_def)
  next
    case (Inr d)
    obtain a s1 where a: "alloc_doc d s = (a, s1)" by fastforce
    show ?thesis using becomes_new [OF assms(1) v a] Inr a Make_parsed by (simp add: make_parsed_def)
  qed
next
  case (Make_default v)
  then have "empty_slot v s" using assms(2) by (auto simp: empty_slot_def)
  then show ?thesis using becomes_null [OF assms(1)] Make_default by simp
next
  case (Make_copy v w)
  then have v: "empty_slot v s" using assms(2) by (auto simp: empty_slot_def)
  obtain p' where w: "ds_objs s w = Some p'" using assms(2) Make_copy by auto
  then show ?thesis
    using becomes_copied [OF assms(1) v w] Make_copy by (auto simp: doc_of_def lift_res_def)
next
  case (Make_moved v w)
  then have v: "empty_slot v s" "v \<noteq> w" using assms(2) by (auto simp: empty_slot_def)
  obtain q where w: "ds_objs s w = Some q" using assms(2) Make_moved by auto
  then show ?thesis
    using becomes_moved [OF assms(1) v(1) w v(2)] Make_moved by (simp add: doc_of_def lift_res_def)
next
  case (Assign_copy v w)
  then obtain p' q where vw: "ds_objs s v = Some p'" "ds_objs s w = Some q" using assms(2) by auto
  show ?thesis using becomes_assigned(1) [OF assms(1) vw] Assign_copy by (auto simp: lift_res_def)
next
  case (Assign_moved v w)
  then obtain p' q where vw: "ds_objs s v = Some p'" "ds_objs s w = Some q" using assms(2) by auto
  show ?thesis using becomes_assigned(2) [OF assms(1) vw] Assign_moved by (auto simp: lift_res_def)
next
  case (Destroy v)
  then obtain p' where v: "ds_objs s v = Some p'" using assms(2) by auto
  show ?thesis using becomes_freed [OF assms(1) v] v Destroy by (auto simp: destroy_def doc_of_def lift_res_def)
qed

lemma scope_after_dom:
  "scoped X p (dom f) \<Longrightarrow> \<not> makes_generic p \<Longrightarrow> dom (value_step X p f) = scope_after X p (dom f)"
  by (cases p) (auto simp: new_msg_def insert_absorb split: sum.splits)

lemma doc_run_becomes:
  "owned s \<Longrightarrow> scoped_run X ps (dom (ds_objs s)) \<Longrightarrow> (\<forall>p \<in> set ps. \<not> makes_generic p) \<Longrightarrow>
   \<exists>t. doc_run X ps s = (List.map_filter (constructor_error X) ps, t) \<and>
     becomes s t (fold (value_step X) ps (values_of s))"
proof (induction ps arbitrary: s)
  case Nil
  then show ?case by (simp add: becomes_def)
next
  case (Cons p ps)
  then have sc: "scoped X p (dom (ds_objs s))" "\<not> makes_generic p" by simp_all
  obtain t where t: "doc_step X p s = (constructor_error X p, t)" "becomes s t (value_step X p (values_of s))"
    using doc_step_becomes [OF Cons.prems(1) sc] by blast
  then have o: "owned t" and v: "values_of t = value_step X p (values_of s)" by (simp_all add: becomes_def)
  have "dom (ds_objs t) = scope_after X p (dom (ds_objs s))"
    using scope_after_dom [of X p "values_of s"] sc v by (simp add: values_dom flip: values_dom [of t])
  then have "scoped_run X ps (dom (ds_objs t))" using Cons.prems(2) by simp
  then obtain u where "doc_run X ps t = (List.map_filter (constructor_error X) ps, u)"
      "becomes t u (fold (value_step X) ps (values_of t))"
    using Cons.IH [OF o] Cons.prems(3) by auto
  then show ?case using t becomes_trans [OF t(2)] v
    by (auto simp: List.map_filter_simps split: option.split)
qed


lemma no_docs_simps [simp]: "owned no_docs" "leaked no_docs = {}" "values_of no_docs = Map.empty" "dom (ds_objs no_docs) = {}"
  by (auto simp: no_docs_def owned_def leaked_def values_of_def)

text \<open>
  C14. Messages are values: any sequence of constructions, copies, moves, assignments and destructions of
  messages that the compiler accepts gives each object the message it has when messages are plain values,
  where a moved object, and one assigned to itself, is empty. No document is freed twice or used after it
  was freed, none is lost, and when all objects are gone no document is left; a constructor that throws
  leaves the others alone.
\<close>

theorem messages_are_values:
  assumes "scoped_run X ps {}" and "\<forall>p \<in> set ps. \<not> makes_generic p"
  shows "\<exists>t. doc_run X ps no_docs = (List.map_filter (constructor_error X) ps, t) \<and>
    values_of t = fold (value_step X) ps Map.empty \<and> leaked t = {} \<and>
    (fold (value_step X) ps Map.empty = Map.empty \<longrightarrow> ds_docs t = Map.empty)"
proof -
  obtain t where t: "doc_run X ps no_docs = (List.map_filter (constructor_error X) ps, t)"
      "becomes no_docs t (fold (value_step X) ps Map.empty)"
    using doc_run_becomes [of no_docs X ps] assms by auto
  then have "leaked t = {}" and v: "values_of t = fold (value_step X) ps Map.empty" by (simp_all add: becomes_def)
  moreover have "ds_docs t = Map.empty" if "fold (value_step X) ps Map.empty = Map.empty"
  proof -
    have "dom (ds_objs t) = {}" using v that values_dom [of t] by auto
    then have "pointed (ds_objs t) = {}" by (auto simp: pointed_def)
    then show ?thesis using calculation(1) by (auto simp: leaked_def)
  qed
  ultimately show ?thesis using t(1) by blast
qed

definition sample_doc_ops :: "xtree doc_op list" where
  \<comment> \<open>a message is made, copied, moved into a parsed one, assigned to itself, and all are destroyed\<close>
  "sample_doc_ops = [Make 0 SUBSCRIBE, Make_copy 1 0, Make_parsed 2 None, Make_default 2, Assign_moved 2 0,
     Assign_copy 1 1, Assign_copy 0 2, Destroy 1, Destroy 0, Destroy 2]"

theorem messages_are_values_witness:
  "\<exists>t. doc_run xtree_ops sample_doc_ops no_docs = ([Invalid_msg ''Failed to parse XML''], t) \<and> ds_docs t = Map.empty"
proof -
  have 1: "scoped_run xtree_ops sample_doc_ops {}" "\<forall>p \<in> set sample_doc_ops. \<not> makes_generic p"
    by (simp_all add: sample_doc_ops_def parsed_msg_def)
  have 2: "fold (value_step xtree_ops) sample_doc_ops Map.empty = Map.empty"
    by (auto simp: sample_doc_ops_def parsed_msg_def new_msg_def fun_eq_iff)
  have 3: "List.map_filter (constructor_error xtree_ops) sample_doc_ops = [Invalid_msg ''Failed to parse XML'']"
    by (simp add: sample_doc_ops_def parsed_msg_def List.map_filter_simps)
  show ?thesis using messages_are_values [OF 1] 2 3 by auto
qed

lemma generic_leaks:
  \<comment> \<open>the constructor with the type \<open>GENERIC\<close> throws after its document was allocated\<close>
  "owned s \<Longrightarrow> \<exists>t. doc_step X (Make v GENERIC) s = (Some Invalid_argument, t) \<and> leaked t = insert (ds_next s) (leaked s)"
  using ownedD(3,4) [of s]
  by (auto simp: make_msg_def new_msg_def alloc_doc_def leaked_def pointed_def)

subsection \<open>The second pointer of a method message\<close>

type_synonym 'n method_state = "'n doc_state \<times> (nat \<Rightarrow> nat option)"
  \<comment> \<open>with the document that \<open>parres\<close> of each object points into\<close>

definition method_of_msg :: "nat \<Rightarrow> nat \<Rightarrow> 'n method_state \<Rightarrow> 'n method_state res" where
  \<comment> \<open>\<open>GenericMethod(GenericMsg&& k)\<close>: the root of a message without a document cannot be read\<close>
  "method_of_msg v w s = rbind (doc_of w (fst s)) (\<lambda>p. case p of None \<Rightarrow> Inl Undefined_behaviour
     | Some a \<Rightarrow> Inr (set_obj w None (set_obj v (Some a) (fst s)), (snd s)(v := Some a)))"

definition method_copied :: "nat \<Rightarrow> nat \<Rightarrow> 'n method_state \<Rightarrow> 'n method_state res" where
  \<comment> \<open>the copy constructor the compiler makes: the base is copied and the pointer is kept\<close>
  "method_copied v w s = rbind (doc_of w (fst s)) (\<lambda>p. rbind (copy_doc p (fst s)) (\<lambda>(q, s1).
     Inr (set_obj v q s1, (snd s)(v := snd s w))))"

definition method_moved :: "nat \<Rightarrow> nat \<Rightarrow> 'n method_state \<Rightarrow> 'n method_state res" where
  \<comment> \<open>the move constructor the compiler makes\<close>
  "method_moved v w s = rbind (doc_of w (fst s)) (\<lambda>p. Inr (set_obj w None (set_obj v p (fst s)), (snd s)(v := snd s w)))"

definition method_destroy :: "nat \<Rightarrow> 'n method_state \<Rightarrow> 'n method_state res" where
  "method_destroy v s = rbind (destroy v (fst s)) (\<lambda>t. Inr (t, (snd s)(v := None)))"

definition method_value :: "'n libxml \<Rightarrow> nat \<Rightarrow> string \<Rightarrow> 'n method_state \<Rightarrow> 'n res" where
  \<comment> \<open>\<open>operator[]\<close> goes through \<open>parres\<close>\<close>
  "method_value X v k s = (case Option.bind (snd s v) (ds_docs (fst s)) of
       None \<Rightarrow> Inl Undefined_behaviour | Some d \<Rightarrow> msg_value X d k)"

text \<open>
  A moved method message keeps its values; a copied one reads those of its source, and after the end of
  the source it reads freed memory.
\<close>

theorem method_copy_dangles:
  assumes "owned (fst s)" and "ds_objs (fst s) w = Some (Some a)" and "ds_docs (fst s) a = Some d"
    and "snd s w = Some a" and "ds_objs (fst s) v = None"
  shows "\<exists>t u. method_copied v w s = Inr t \<and> method_value X v k t = msg_value X d k \<and>
      method_destroy w t = Inr u \<and> method_value X v k u = Inl Undefined_behaviour"
    and "\<exists>t u. method_moved v w s = Inr t \<and> method_destroy w t = Inr u \<and> method_value X v k u = msg_value X d k"
proof -
  have "v \<noteq> w" using assms(2,5) by auto
  moreover have "a \<noteq> ds_next (fst s)" using ownedD(3) [OF assms(1)] assms(3) by auto
  ultimately show "\<exists>t u. method_copied v w s = Inr t \<and> method_value X v k t = msg_value X d k \<and>
      method_destroy w t = Inr u \<and> method_value X v k u = Inl Undefined_behaviour"
    and "\<exists>t u. method_moved v w s = Inr t \<and> method_destroy w t = Inr u \<and> method_value X v k u = msg_value X d k"
    using assms(2-4)
    by (simp_all add: method_copied_def method_moved_def method_destroy_def method_value_def doc_of_def copy_doc_def
        alloc_doc_def set_obj_def destroy_def free_doc_def)
qed

end
