(* ===== verification/H9_Schema.thy ===== *)
theory H9_Schema
  imports H9_Server
begin

text \<open>
  The schema of the messages, \<open>protocol/h9msg.xsd\<close>, as a predicate on the elements and attributes of a
  message: what \<open>GenericMsg::validate_msg\<close> lets pass. Only h9bus validates what it receives
  (\<open>TcpClient::recv_msg\<close>). The other theories take the validation as a parameter \<open>chk\<close>; here are the
  consequences for a \<open>chk\<close> that implies the schema. The documents themselves are validated by libxml2:
  the declaration of namespaces, text between elements and further elements below the root are not
  visible in the model.
\<close>

subsection \<open>Types of attributes\<close>

definition xml_space :: "char \<Rightarrow> bool" where
  "xml_space c = (let n = of_char c :: nat in n = 32 \<or> n = 9 \<or> n = 10 \<or> n = 13)"

definition collapse :: "string \<Rightarrow> string" where
  \<comment> \<open>white space at the ends is not part of the value of a number\<close>
  "collapse s = rev (dropWhile xml_space (rev (dropWhile xml_space s)))"

definition is_dec_digit :: "char \<Rightarrow> bool" where
  "is_dec_digit c = (case digit_val c of None \<Rightarrow> False | Some d \<Rightarrow> d < 10)"

definition xsd_integer :: "string \<Rightarrow> int option" where
  "xsd_integer s = (let (neg, ds) = split_sign (collapse s) in
     if ds \<noteq> [] \<and> list_all is_dec_digit ds
     then Some (if neg then - int (parse_digits 10 0 ds) else int (parse_digits 10 0 ds)) else None)"

definition xsd_hex :: "string \<Rightarrow> bool" where
  "xsd_hex s \<longleftrightarrow> even (length (collapse s)) \<and> list_all (\<lambda>c. digit_val c \<noteq> None) (collapse s)"

definition between :: "int \<Rightarrow> int \<Rightarrow> string \<Rightarrow> bool" where
  \<comment> \<open>\<open>minInclusive\<close> and \<open>maxInclusive\<close>\<close>
  "between lo hi s = (case xsd_integer s of None \<Rightarrow> False | Some v \<Rightarrow> lo \<le> v \<and> v \<le> hi)"

definition required_attr :: "'n libxml \<Rightarrow> 'n \<Rightarrow> string \<Rightarrow> (string \<Rightarrow> bool) \<Rightarrow> bool" where
  "required_attr X n k P = (case xget_prop X n k of None \<Rightarrow> False | Some s \<Rightarrow> P s)"

definition optional_attr :: "'n libxml \<Rightarrow> 'n \<Rightarrow> string \<Rightarrow> (string \<Rightarrow> bool) \<Rightarrow> bool" where
  "optional_attr X n k P = (case xget_prop X n k of None \<Rightarrow> True | Some s \<Rightarrow> P s)"

definition only_attrs :: "'n libxml \<Rightarrow> 'n \<Rightarrow> string list \<Rightarrow> bool" where
  \<comment> \<open>there is no attribute that is not declared\<close>
  "only_attrs X n ks \<longleftrightarrow> (\<forall>k. xget_prop X n k \<noteq> None \<longrightarrow> k \<in> set ks)"

definition any_string :: "string \<Rightarrow> bool" where
  "any_string s = True"

subsection \<open>The types of the schema\<close>

definition value_t :: "'n libxml \<Rightarrow> 'n \<Rightarrow> bool" where
  "value_t X n \<longleftrightarrow> xelems X n = [] \<and> only_attrs X n [''name'']"

definition array_t :: "'n libxml \<Rightarrow> 'n \<Rightarrow> bool" where
  "array_t X n \<longleftrightarrow> list_all (\<lambda>c. xname X c = ''value'' \<and> value_t X c) (xelems X n) \<and> only_attrs X n [''name'']"

definition valuegroup :: "'n libxml \<Rightarrow> 'n \<Rightarrow> bool" where
  "valuegroup X c \<longleftrightarrow> (xname X c = ''value'' \<and> value_t X c) \<or>
     ((xname X c = ''array'' \<or> xname X c = ''dict'') \<and> array_t X c)"

definition error_t :: "'n libxml \<Rightarrow> 'n \<Rightarrow> bool" where
  "error_t X n \<longleftrightarrow> xelems X n = [] \<and> required_attr X n ''code'' (\<lambda>s. case xsd_integer s of None \<Rightarrow> False | Some v \<Rightarrow> 1 \<le> v) \<and>
     required_attr X n ''message'' any_string \<and> only_attrs X n [''code'', ''name'', ''message'']"

definition identification_t :: "'n libxml \<Rightarrow> 'n \<Rightarrow> bool" where
  "identification_t X n \<longleftrightarrow> xelems X n = [] \<and> required_attr X n ''entity'' any_string \<and> only_attrs X n [''entity'']"

definition executemethod_t :: "'n libxml \<Rightarrow> 'n \<Rightarrow> bool" where
  "executemethod_t X n \<longleftrightarrow> list_all (valuegroup X) (xelems X n) \<and> required_attr X n ''method'' any_string \<and>
     optional_attr X n ''device-id'' (between 0 511) \<and> only_attrs X n [''method'', ''device-id'']"

definition methodresponse_t :: "'n libxml \<Rightarrow> 'n \<Rightarrow> bool" where
  \<comment> \<open>at most one element: a value, an array, a dictionary or an error\<close>
  "methodresponse_t X n \<longleftrightarrow> length (xelems X n) \<le> 1 \<and>
     list_all (\<lambda>c. valuegroup X c \<or> (xname X c = ''error'' \<and> error_t X c)) (xelems X n) \<and>
     required_attr X n ''method'' any_string \<and>
     optional_attr X n ''device-id'' (between 0 511) \<and> only_attrs X n [''method'', ''device-id'']"

definition deviceevent_t :: "'n libxml \<Rightarrow> 'n \<Rightarrow> bool" where
  "deviceevent_t X n \<longleftrightarrow> list_all (valuegroup X) (xelems X n) \<and> required_attr X n ''event'' any_string \<and>
     required_attr X n ''device-id'' (between 0 511) \<and> only_attrs X n [''event'', ''device-id'']"

definition sendframe_attrs :: "string list" where
  "sendframe_attrs = [''endpoint'', ''priority'', ''type'', ''seqnum'', ''source'', ''destination'', ''dlc'', ''data'']"

definition h9sendframe_t :: "string list \<Rightarrow> 'n libxml \<Rightarrow> 'n \<Rightarrow> bool" where
  \<comment> \<open>with the attributes an extension adds; \<open>data\<close> is optional whatever \<open>dlc\<close> is\<close>
  "h9sendframe_t ext X n \<longleftrightarrow> xelems X n = [] \<and>
     required_attr X n ''priority'' (\<lambda>s. s \<in> set [''H'', ''h'', ''L'', ''l'']) \<and>
     required_attr X n ''type'' (between 0 31) \<and> required_attr X n ''seqnum'' (between 0 31) \<and>
     required_attr X n ''source'' (between 0 511) \<and> required_attr X n ''destination'' (between 0 511) \<and>
     required_attr X n ''dlc'' (between 0 8) \<and> optional_attr X n ''data'' xsd_hex \<and>
     only_attrs X n (ext @ sendframe_attrs)"

definition h9frame_t :: "'n libxml \<Rightarrow> 'n \<Rightarrow> bool" where
  "h9frame_t X n \<longleftrightarrow> h9sendframe_t [''origin''] X n \<and> required_attr X n ''origin'' any_string"

definition max_id :: int where
  "max_id = 18446744073709551615"

definition h9_attrs :: "'n libxml \<Rightarrow> 'n \<Rightarrow> bool" where
  \<comment> \<open>the attributes of the root\<close>
  "h9_attrs X d \<longleftrightarrow> xname X d = ''h9'' \<and> required_attr X d ''version'' (\<lambda>s. s = ''0.0'') \<and>
     required_attr X d ''id'' (between 1 max_id) \<and> optional_attr X d ''request-id'' (between 1 max_id) \<and>
     only_attrs X d [''version'', ''id'', ''request-id'']"

definition h9_choice :: "'n libxml \<Rightarrow> 'n \<Rightarrow> bool" where
  \<comment> \<open>the element below the root; there is none with the name \<open>subscribe\<close>\<close>
  "h9_choice X n \<longleftrightarrow> (xname X n = ''identification'' \<and> identification_t X n) \<or>
     (xname X n = ''sendframe'' \<and> h9sendframe_t [] X n) \<or> (xname X n = ''frame'' \<and> h9frame_t X n) \<or>
     (xname X n = ''error'' \<and> error_t X n) \<or> (xname X n = ''execute'' \<and> executemethod_t X n) \<or>
     (xname X n = ''response'' \<and> methodresponse_t X n) \<or> (xname X n = ''event'' \<and> deviceevent_t X n)"

definition schema_valid :: "'n libxml \<Rightarrow> 'n gmsg \<Rightarrow> bool" where
  "schema_valid X m \<longleftrightarrow> h9_attrs X (doc_root m) \<and> (case msg_node m of None \<Rightarrow> False | Some n \<Rightarrow> h9_choice X n)"

subsection \<open>The two readings of a number\<close>

lemma xml_space_space: "xml_space c \<Longrightarrow> is_space c"
  by (auto simp: xml_space_def is_space_def Let_def)

lemma dec_digit_no_space: "is_dec_digit c \<Longrightarrow> \<not> is_space c"
  by (auto simp: is_dec_digit_def digit_val_def is_space_def Let_def split: if_splits)

lemma space_no_digit: "xml_space c \<Longrightarrow> digit_val c = None"
  by (auto simp: xml_space_def digit_val_def Let_def)

lemma collapse_parts: "\<exists>p q. s = p @ collapse s @ q \<and> list_all xml_space p \<and> list_all xml_space q"
proof -
  let ?t = "dropWhile xml_space s"
  have "s = takeWhile xml_space s @ ?t" by simp
  moreover have "rev ?t = takeWhile xml_space (rev ?t) @ dropWhile xml_space (rev ?t)" by simp
  then have "?t = rev (dropWhile xml_space (rev ?t)) @ rev (takeWhile xml_space (rev ?t))"
    by (metis rev_append rev_rev_ident)
  ultimately have "s = takeWhile xml_space s @ collapse s @ rev (takeWhile xml_space (rev ?t))"
    by (simp add: collapse_def)
  moreover have "list_all xml_space (takeWhile xml_space s)" "list_all xml_space (rev (takeWhile xml_space (rev ?t)))"
    by (auto simp: list_all_iff dest: set_takeWhileD)
  ultimately show ?thesis by blast
qed

lemma parse_digits_stops:
  "list_all is_dec_digit ds \<Longrightarrow> list_all xml_space q \<Longrightarrow> parse_digits 10 a (ds @ q) = parse_digits 10 a ds"
proof (induction ds arbitrary: a)
  case Nil
  then show ?case by (cases q) (auto dest: space_no_digit)
next
  case (Cons c ds)
  then show ?case by (auto simp: is_dec_digit_def split: option.splits)
qed

lemma xsd_integer_strto:
  assumes "xsd_integer s = Some v"
  shows "strto 10 s = Some v"
proof -
  obtain neg ds where nd: "split_sign (collapse s) = (neg, ds)" by fastforce
  then have ds: "ds \<noteq> []" "list_all is_dec_digit ds"
    and v: "v = (if neg then - int (parse_digits 10 0 ds) else int (parse_digits 10 0 ds))"
    using assms by (auto simp: xsd_integer_def split: if_splits)
  obtain p q where s: "s = p @ collapse s @ q" and p: "list_all xml_space p" and q: "list_all xml_space q"
    using collapse_parts by blast
  have dsq: "split_sign (collapse s @ q) = (neg, ds @ q)" and first: "\<exists>c cs. collapse s = c # cs \<and> \<not> is_space c"
  proof -
    obtain c cs where c: "collapse s = c # cs" using nd ds(1) by (cases "collapse s") (auto simp: split_sign_def)
    then show "split_sign (collapse s @ q) = (neg, ds @ q)" using nd by (auto simp: split_sign_def split: if_splits)
    have "\<not> is_space (CHR ''-'')" "\<not> is_space (CHR ''+'')" by (simp_all add: is_space_def)
    then have "\<not> is_space c" using nd ds dec_digit_no_space unfolding c by (auto simp: split_sign_def split: if_splits)
    then show "\<exists>c cs. collapse s = c # cs \<and> \<not> is_space c" using c by blast
  qed
  have "dropWhile is_space p = []" using p xml_space_space by (auto simp: list_all_iff)
  then have "dropWhile is_space s = collapse s @ q"
    using s first by (metis append_Cons append_Nil dropWhile.simps(2) dropWhile_append dropWhile_eq_Nil_conv)
  moreover have "starts_digit 10 (ds @ q)"
    using ds by (cases ds) (auto simp: starts_digit_def is_dec_digit_def split: option.splits)
  moreover have "skip_0x 10 t = t" for t by (simp add: skip_0x_def split: list.split)
  ultimately show ?thesis
    using dsq v parse_digits_stops [OF ds(2) q, of 0] by (simp add: strto_def)
qed

lemma between_strtol:
  assumes "between lo hi s" and "0 \<le> lo" and "hi < 2 ^ 63"
  shows "\<exists>v. xsd_integer s = Some (int v) \<and> strtol 10 s = int v \<and> lo \<le> int v \<and> int v \<le> hi"
proof -
  obtain v where v: "xsd_integer s = Some v" "lo \<le> v" "v \<le> hi"
    using assms(1) by (auto simp: between_def split: option.splits)
  then have "strtol 10 s = v" using xsd_integer_strto [OF v(1)] assms(2,3) by (simp add: strtol_def)
  then show ?thesis using v assms(2) by (intro exI [of _ "nat v"]) simp
qed


subsection \<open>What the server does with a valid message\<close>

definition attr_int :: "'n libxml \<Rightarrow> 'n \<Rightarrow> string \<Rightarrow> int option" where
  "attr_int X n k = Option.bind (xget_prop X n k) xsd_integer"

definition frame_of_attrs :: "'n libxml \<Rightarrow> 'n \<Rightarrow> h9frame \<Rightarrow> bool" where
  \<comment> \<open>the fields of the frame are the numbers the schema reads\<close>
  "frame_of_attrs X n f \<longleftrightarrow>
     attr_int X n ''type'' = Some (int (unat (ftype f))) \<and> attr_int X n ''seqnum'' = Some (int (unat (seqnum f))) \<and>
     attr_int X n ''source'' = Some (int (unat (source_id f))) \<and>
     attr_int X n ''destination'' = Some (int (unat (destination_id f))) \<and>
     attr_int X n ''dlc'' = Some (int (unat (dlc f))) \<and>
     (priority f = HIGH \<longleftrightarrow> xget_prop X n ''priority'' \<in> {Some ''H'', Some ''h''})"

definition dlc_data_mismatch :: cxx_error where
  "dlc_data_mismatch = Invalid_msg (CHR 0x27 # ''dlc'' @ CHR 0x27 # '' and '' @ CHR 0x27 # ''data'' @ CHR 0x27 # '' mismatch'')"

lemma required_int:
  assumes "required_attr X n k (between lo hi)" and "0 \<le> lo" and "hi < 2 ^ 63" and "msg_node m = Some n"
  shows "\<exists>s v. msg_prop X m k = Inr s \<and> strtol 10 s = int v \<and> attr_int X n k = Some (int v) \<and> lo \<le> int v \<and> int v \<le> hi"
  using assms(1,4) between_strtol [OF _ assms(2,3)]
  by (fastforce simp: required_attr_def msg_prop_def attr_int_def split: option.splits)

lemma narrow_nat:
  "v < 32 \<Longrightarrow> unat (ucast (word_of_nat v :: u8) :: 5 word) = v"
  "v < 512 \<Longrightarrow> unat (ucast (word_of_nat v :: u16) :: 9 word) = v"
  by (simp_all add: unsigned_ucast_eq take_bit_nat_eq_self unsigned_of_nat)

lemma sendframe_read:
  assumes "h9sendframe_t ext X n" and "msg_node m = Some n"
  shows "(\<exists>f. get_frame X m = Inr f \<and> valid_frame f \<and> frame_of_attrs X n f) \<or>
    (xget_prop X n ''data'' = None \<and> attr_int X n ''dlc'' \<noteq> Some 0 \<and> get_frame X m = Inl dlc_data_mismatch)"
proof -
  note a = assms(1) [unfolded h9sendframe_t_def]
  note r = required_int [OF _ _ _ assms(2)]
  obtain st t where t: "msg_prop X m ''type'' = Inr st" "strtol 10 st = int t" "attr_int X n ''type'' = Some (int t)" "t < 32"
    using r [of X "''type''" 0 31] a by auto
  obtain sq q where q: "msg_prop X m ''seqnum'' = Inr sq" "strtol 10 sq = int q" "attr_int X n ''seqnum'' = Some (int q)" "q < 32"
    using r [of X "''seqnum''" 0 31] a by auto
  obtain ss src where src: "msg_prop X m ''source'' = Inr ss" "strtol 10 ss = int src"
      "attr_int X n ''source'' = Some (int src)" "src < 512"
    using r [of X "''source''" 0 511] a by auto
  obtain sd dst where dst: "msg_prop X m ''destination'' = Inr sd" "strtol 10 sd = int dst"
      "attr_int X n ''destination'' = Some (int dst)" "dst < 512"
    using r [of X "''destination''" 0 511] a by auto
  obtain sl l where l: "msg_prop X m ''dlc'' = Inr sl" "strtol 10 sl = int l" "attr_int X n ''dlc'' = Some (int l)" "l \<le> 8"
    using r [of X "''dlc''" 0 8] a by auto
  obtain pr where pr: "xget_prop X n ''priority'' = Some pr" "pr \<in> set [''H'', ''h'', ''L'', ''l'']"
    using a by (auto simp: required_attr_def split: option.splits)
  then have p: "msg_prop X m ''priority'' = Inr pr" and p1: "take 1 pr = pr"
    using assms(2) by (auto simp: msg_prop_def)
  let ?f = "(new_frame 0 0 0)\<lparr>priority := (if pr = ''H'' \<or> pr = ''h'' then HIGH else LOW), ftype := word_of_nat t,
    seqnum := ucast (word_of_nat q :: u8), source_id := ucast (word_of_nat src :: u16),
    destination_id := ucast (word_of_nat dst :: u16), dlc := word_of_nat l\<rparr>"
  have small: "unat (word_of_nat t :: u8) = t" "unat (word_of_nat l :: u8) = l"
    using t(4) l(4) by (simp_all add: unsigned_of_nat take_bit_nat_eq_self)
  then have ty: "set_type_from_underlying (word_of_nat t) g = Inr (g\<lparr>ftype := word_of_nat t\<rparr>)" for g
    using t(4) by (simp add: set_type_from_underlying_def)
  have w: "word_of_int (int k) = word_of_nat k" for k by simp
  have g: "get_frame X m = (case msg_prop X m ''data'' of
      Inr da \<Rightarrow> Inr (?f\<lparr>data := parse_frame_data da 0 (min (length da) 16 div 2) (data ?f)\<rparr>)
    | Inl _ \<Rightarrow> if (word_of_nat l :: u8) \<noteq> 0 then Inl dlc_data_mismatch else Inr ?f)"
    by (simp only: get_frame_def p t(1,2) q(1,2) src(1,2) dst(1,2) l(1,2) p1 rbind_simps w ty Let_def dlc_data_mismatch_def)
       (simp add: new_frame_def)
  have fields: "frame_of_attrs X n ?f" and v: "valid_frame ?f"
    using t(3,4) q(3,4) src(3,4) dst(3,4) l(3,4) pr small
    by (auto simp: frame_of_attrs_def narrow_nat valid_frame_def wf_frame_def new_frame_def)
  show ?thesis
  proof (cases "msg_prop X m ''data''")
    case (Inr da)
    let ?g = "?f\<lparr>data := parse_frame_data da 0 (min (length da) 16 div 2) (data ?f)\<rparr>"
    have "frame_of_attrs X n ?g" using fields by (simp add: frame_of_attrs_def)
    moreover have "valid_frame ?g" using v by (simp add: valid_frame_def wf_frame_def parse_frame_data_length)
    ultimately show ?thesis using g Inr by auto
  next
    case (Inl e)
    then have none: "xget_prop X n ''data'' = None" using assms(2) by (auto simp: msg_prop_def split: option.splits)
    show ?thesis
    proof (cases "l = 0")
      case True
      then show ?thesis using g Inl fields v by auto
    next
      case False
      then have "(word_of_nat l :: u8) \<noteq> 0" using small(2) by (metis unat_0)
      then show ?thesis using g Inl none l(3) False by auto
    qed
  qed
qed


lemma required_prop:
  "required_attr X n k P \<Longrightarrow> msg_node m = Some n \<Longrightarrow> \<exists>s. msg_prop X m k = Inr s"
  by (auto simp: required_attr_def msg_prop_def split: option.splits)

lemma valid_id: "schema_valid X m \<Longrightarrow> \<exists>i. get_id X m = Inr i"
  by (auto simp: schema_valid_def h9_attrs_def required_attr_def get_id_def split: option.splits)

lemma valid_type:
  assumes "schema_valid X m"
  shows "\<exists>n t. msg_node m = Some n \<and> get_type X m = Inr t \<and> t \<notin> {GENERIC, SUBSCRIBE} \<and>
    (t = IDENTIFICATION \<longrightarrow> identification_t X n) \<and> (t = SEND_FRAME \<longrightarrow> h9sendframe_t [] X n) \<and>
    (t = EXECUTEMETHOD \<longrightarrow> executemethod_t X n)"
  using assms by (auto simp: schema_valid_def h9_choice_def get_type_def split: option.splits)

definition accepted_to :: "'n hb_env \<Rightarrow> int \<Rightarrow> 'n gmsg \<Rightarrow> 'n h9bus \<Rightarrow> cxx_error option \<times> 'n h9bus \<Rightarrow> bool" where
  \<comment> \<open>what becomes of a valid message: a frame is sent with exactly the fields of the message, or the
      exception for a missing \<open>data\<close>; any other message leaves the bus alone and is handled\<close>
  "accepted_to env fd m h r \<longleftrightarrow>
     (if get_type (he_xml env) m = Inr SEND_FRAME
      then (\<exists>n f. msg_node m = Some n \<and> get_frame (he_xml env) m = Inr f \<and> valid_frame f \<and>
              frame_of_attrs (he_xml env) n f \<and> r = process_msg env fd m h) \<or>
           (\<exists>n. msg_node m = Some n \<and> xget_prop (he_xml env) n ''data'' = None \<and>
              attr_int (he_xml env) n ''dlc'' \<noteq> Some 0 \<and> r = (Some dlc_data_mismatch, h))
      else \<exists>h'. r = (None, h') \<and> hb_bus h' = hb_bus h \<and> map fst (hb_clients h') = map fst (hb_clients h))"

lemma upd_client_keys: "map_of cs fd = Some c \<Longrightarrow> g c = (None, c1) \<Longrightarrow>
    \<exists>cs'. upd_client fd g cs = (None, cs') \<and> map fst cs' = map fst cs"
proof (induction cs)
  case (Cons a cs)
  then show ?case by (cases a; cases "fst a = fd") auto
qed simp



subsection \<open>The messages of the programs\<close>

lemma collapse_no_space: "list_all (\<lambda>c. \<not> xml_space c) s \<Longrightarrow> collapse s = s"
proof -
  have d: "list_all (\<lambda>c. \<not> xml_space c) t \<Longrightarrow> dropWhile xml_space t = t" for t by (cases t) auto
  assume "list_all (\<lambda>c. \<not> xml_space c) s"
  then show ?thesis using d [of s] d [of "rev s"] by (simp add: collapse_def list_all_iff)
qed

lemma digit_char_dec [simp]: "d < 10 \<Longrightarrow> is_dec_digit (digit_char up d)"
  by (simp add: is_dec_digit_def)

lemma digit_char_no_xml_space: "d < 16 \<Longrightarrow> \<not> xml_space (digit_char up d)"
  using digit_char_no_space xml_space_space by blast

lemma xsd_dec_string [simp]: "xsd_integer (dec_string n) = Some (int n)"
proof -
  let ?ds = "digits_of 10 n"
  have ds: "\<forall>d \<in> set ?ds. d < 10" by (auto dest: digits_of_less [rotated])
  then have c: "collapse (dec_string n) = dec_string n"
    by (intro collapse_no_space) (auto simp: dec_string_def list_all_iff digit_char_no_xml_space)
  have "dropWhile is_space (dec_string n) = dec_string n"
    using ds by (cases ?ds) (auto simp: dec_string_def)
  moreover have "\<forall>d \<in> set ?ds. d < 16" using ds by auto
  ultimately have "split_sign (dec_string n) = (False, dec_string n)"
    using split_sign_chars [of ?ds False] by (simp add: dec_string_def)
  moreover have "list_all is_dec_digit (dec_string n)" using ds by (auto simp: dec_string_def list_all_iff)
  moreover have "parse_digits 10 0 (dec_string n) = n"
    using ds number_of_digits_of [of 10 n] by (simp add: dec_string_def parse_digits_chars number_of_digits_def)
  ultimately show ?thesis by (simp add: xsd_integer_def c)
qed

lemma between_dec_string [simp]: "between lo hi (dec_string n) \<longleftrightarrow> lo \<le> int n \<and> int n \<le> hi"
  by (simp add: between_def)

lemma xsd_hex_bytes: "xsd_hex (concat (map (hex_byte up) bs))"
proof -
  have d: "\<exists>d < 16. c = digit_char up d" if "c \<in> set (hex_byte up b)" for c b
    using that set_setw_hex by (auto simp: hex_byte_def)
  have "list_all (\<lambda>c. \<not> xml_space c \<and> digit_val c \<noteq> None) (concat (map (hex_byte up) bs))"
    using d digit_char_no_xml_space by (fastforce simp: list_all_iff)
  then show ?thesis
    using collapse_no_space [of "concat (map (hex_byte up) bs)"] by (simp add: xsd_hex_def length_hex_data list_all_iff)
qed

lemma only_attrs_new:
  assumes "xml_laws X"
  shows "only_attrs X (xnew X t) ks" "only_attrs X (xtext_child X t v) ks"
    "only_attrs X (xnew_prop X n k v) ks \<longleftrightarrow> k \<in> set ks \<and> only_attrs X n ks"
    "only_attrs X (xset_prop X n k v) ks \<longleftrightarrow> k \<in> set ks \<and> only_attrs X n ks"
    "only_attrs X (xadd_child X n c) ks \<longleftrightarrow> only_attrs X n ks"
  using assms by (auto simp: only_attrs_def)

lemma sent_root:
  \<comment> \<open>the root of a message made by a program, with the number the connection gives it\<close>
  assumes "xml_laws X" and "i \<noteq> 0" and "t \<noteq> GENERIC"
  shows "h9_attrs X (doc_root (set_id X i (get_msg X t)))"
proof -
  have "0 < unat i" using assms(2) by (simp add: unat_gt_0)
  then have "1 \<le> int (unat i)" by linarith
  moreover have "int (unat i) \<le> max_id" using uint_bounded [of i] by (simp add: max_id_def)
  ultimately show ?thesis using assms
    by (simp add: h9_attrs_def set_id_def get_msg_def new_msg_def required_attr_def optional_attr_def only_attrs_new)
qed

lemma with_node_root [simp]: "doc_root (set_id X i (with_node g m)) = doc_root (set_id X i m)"
  "doc_root (set_id X i (m\<lparr>msg_node := p\<rparr>)) = doc_root (set_id X i m)"
  by (simp_all add: set_id_def with_node_def)

lemma send_frame_valid:
  assumes "xml_laws X" and "i \<noteq> 0" and "valid_frame f"
  shows "\<exists>m. send_frame_msg X f = Inr m \<and> schema_valid X (set_id X i m)"
proof -
  note v = valid_frameD [OF assms(3)]
  obtain n where n: "frame_node X f [] (xnew X (type_element SEND_FRAME)) = Inr n"
      "new_frame_msg X SEND_FRAME f [] = Inr ((get_msg X SEND_FRAME)\<lparr>msg_node := Some n\<rparr>)"
    using new_frame_msg_ok [OF assms(1), of SEND_FRAME f "[]"] v by (auto simp: wf_frame_def)
  note l = xml_lawsD [OF assms(1)]
  have new: "xelems X (xnew X (type_element SEND_FRAME)) = []" "xget_prop X (xnew X (type_element SEND_FRAME)) k = None" for k
    by (simp_all add: l)
  note p = frame_node_props [OF assms(1) new n(1)]
  have r: "unat (seqnum f) < 32" "unat (source_id f) < 512" "unat (destination_id f) < 512"
    using unsigned_less [of "seqnum f"] unsigned_less [of "source_id f"] unsigned_less [of "destination_id f"] by simp_all
  have e: "xelems X n = []" and o: "only_attrs X n sendframe_attrs"
    using n(1) by (auto simp: frame_node_def rbind_Inr_iff Let_def l only_attrs_new [OF assms(1)] sendframe_attrs_def)
  have dt: "optional_attr X n ''data'' xsd_hex" using p(10) xsd_hex_bytes by (auto simp: optional_attr_def)
  have pr: "required_attr X n ''priority'' (\<lambda>s. s \<in> set [''H'', ''h'', ''L'', ''l''])"
    unfolding required_attr_def p(4) by simp
  have "int (unat (ftype f)) \<le> 31" "int (unat (seqnum f)) \<le> 31" "int (unat (source_id f)) \<le> 511"
    "int (unat (destination_id f)) \<le> 511" "int (unat (dlc f)) \<le> 8"
    using v r by linarith+
  then have "h9sendframe_t [] X n"
    using e o dt pr by (simp add: h9sendframe_t_def p(5-9) required_attr_def)
  moreover have "xname X n = ''sendframe''" using p(1) by (simp add: l)
  ultimately have "h9_choice X n" by (simp add: h9_choice_def)
  then have "schema_valid X (set_id X i ((get_msg X SEND_FRAME)\<lparr>msg_node := Some n\<rparr>))"
    using sent_root [OF assms(1,2), of SEND_FRAME] by (simp add: schema_valid_def)
  then show ?thesis using n(2) by (simp add: send_frame_msg_def)
qed

lemma call_valid:
  assumes "xml_laws X" and "i \<noteq> 0"
  shows "schema_valid X (set_id X i (add_value X k v (execute_method_msg X name)))"
    and "schema_valid X (set_id X i (execute_method_msg X name))"
    and "schema_valid X (set_id X i (identification_msg X entity))"
  using sent_root [OF assms, of EXECUTEMETHOD] sent_root [OF assms, of IDENTIFICATION]
  by (simp_all add: schema_valid_def add_value_def dict_add_value_def execute_method_msg_def set_method_name_def
      identification_msg_def h9_choice_def executemethod_t_def identification_t_def valuegroup_def
      value_t_def only_attrs_new [OF assms(1)] xml_lawsD [OF assms(1)] required_attr_def optional_attr_def any_string_def)

text \<open>
  What the schema makes of the messages of the programs: the frames that valid frame objects give, the
  calls of \<open>subscribe\<close> and of the other methods, and the name of a program are valid; but the subscription
  message of h9cli is not, as the schema has no such element. h9bus answers it with an error and the
  connection does not become a subscriber: the answers h9cli waits for are not sent to it.
\<close>

theorem schema_of_programs:
  assumes "xml_laws (he_xml env)" and "i \<noteq> 0" and "valid_frame f"
    and "\<forall>m. chk m = None \<longrightarrow> schema_valid (he_xml env) m"
    and "msg_socket_recv (he_xml env) rd r = Inr (Got_msg m)"
    and "map_option (xname (he_xml env)) (msg_node m) = map_option (xname (he_xml env)) (msg_node (subscribe_msg (he_xml env)))"
    and "distinct (map fst (hb_clients h))" and "map_of (hb_clients h) fd = Some c"
    and "0 < fst (he_send env (tc_fd c) (tc_sends c))"
  shows "(\<exists>sm. send_frame_msg (he_xml env) f = Inr sm \<and> schema_valid (he_xml env) (set_id (he_xml env) i sm)) \<and>
    schema_valid (he_xml env) (set_id (he_xml env) i (add_value (he_xml env) ''event'' ev (execute_method_msg (he_xml env) name))) \<and>
    schema_valid (he_xml env) (set_id (he_xml env) i (identification_msg (he_xml env) entity)) \<and>
    (\<exists>h' c' e. recv_msg env rd chk fd r h = (None, h') \<and> map_of (hb_clients h') fd = Some c' \<and>
       tc_active c' = tc_active c \<and> tc_out c' = tc_out c @ [e] \<and>
       error_code (he_xml env) e = Inr (int (errnum INVALID_MESSAGE_SCHEMA)))"
proof -
  let ?X = "he_xml env"
  note v = call_valid [OF assms(1,2)]
  obtain n where "msg_node m = Some n" "xname ?X n = ''subscribe''"
    using assms(6) xml_lawsD [OF assms(1)] by (auto simp: subscribe_msg_def)
  then have "\<not> schema_valid ?X m" by (simp add: schema_valid_def h9_choice_def)
  then obtain t where t: "chk m = Some t" using assms(4) by (cases "chk m") auto
  let ?e = "error_msg ?X INVALID_MESSAGE_SCHEMA t"
  let ?c = "after_send ?X (he_send env) ?e c"
  have "client_send ?X (he_send env) ?e c = (None, ?c)"
    by (rule client_send_ok) (rule assms(9))
  then have "recv_msg env rd chk fd r h = (None, h\<lparr>hb_clients := map (\<lambda>(k, d). (k, if k = fd then ?c else d)) (hb_clients h)\<rparr>)"
    using assms(5) t upd_client_eq [OF assms(7,8)] by (simp add: recv_msg_def Let_def)
  moreover have "map_of (map (\<lambda>(k, d). (k, if k = fd then ?c else d)) cs) fd = Some ?c" if "map_of cs fd = Some d" for cs d
    using that by (induction cs) (auto split: if_splits)
  then have "map_of (map (\<lambda>(k, d). (k, if k = fd then ?c else d)) (hb_clients h)) fd = Some ?c" using assms(8) by blast
  moreover have "error_code ?X (set_id ?X j ?e) = Inr (int (errnum INVALID_MESSAGE_SCHEMA))" for j
  proof -
    have "stoi 10 (dec_string 2) = Inr (2 :: int)" by (simp add: stoi_def)
    then show ?thesis using xml_lawsD [OF assms(1)] by (simp add: error_code_def error_msg_def msg_prop_def)
  qed
  ultimately show ?thesis
    using v(1,3) send_frame_valid [OF assms(1-3)] assms(9)
    by (simp add: after_send_def)
qed


subsection \<open>Witnesses\<close>

definition sample_root :: "xtree \<Rightarrow> xtree" where
  \<comment> \<open>a document as it is parsed\<close>
  "sample_root n = xadd_child xtree_ops (doc_root (set_id xtree_ops 7 (get_msg xtree_ops SUBSCRIBE))) n"

definition sample_chk :: "xtree gmsg \<Rightarrow> string option" where
  "sample_chk m = (if schema_valid xtree_ops m then None else Some ''invalid'')"

lemma sample_root_attrs: "h9_attrs xtree_ops (sample_root n)"
  using sent_root [OF xtree_laws, of 7 SUBSCRIBE] xml_lawsD [OF xtree_laws]
  by (simp add: sample_root_def h9_attrs_def required_attr_def optional_attr_def only_attrs_def)

lemma sample_recv:
  "msg_socket_recv xtree_ops (\<lambda>s. Some (sample_root n)) (Msg ''x'') = Inr (Got_msg \<lparr>doc_root = sample_root n, msg_node = Some n\<rparr>)"
  using xml_lawsD [OF xtree_laws]
  by (simp add: msg_socket_recv_def parsed_msg_def sample_root_def set_id_def get_msg_def new_msg_def)


theorem schema_of_programs_witness:
  "\<exists>m h' c' e. get_type xtree_ops m = Inr SUBSCRIBE \<and>
     recv_msg sample_env (\<lambda>s. Some (doc_root m)) sample_chk 5 (Msg ''x'') sample_h9bus = (None, h') \<and>
     map_of (hb_clients h') 5 = Some c' \<and> tc_active c' = 0 \<and> tc_out c' = [e] \<and> error_code xtree_ops e = Inr 2"
proof -
  let ?n = "xnew xtree_ops ''subscribe''" and ?c = "new_tcp_client 5 ''10.0.0.5:900'' :: xtree tcp_client"
  let ?m = "\<lparr>doc_root = sample_root ?n, msg_node = Some ?n\<rparr>"
  have x: "xml_laws (he_xml sample_env)" "he_xml sample_env = xtree_ops" by (simp_all add: sample_env_def xtree_laws)
  have ch: "\<forall>m. sample_chk m = None \<longrightarrow> schema_valid (he_xml sample_env) m"
    by (simp add: sample_chk_def sample_env_def)
  have r: "msg_socket_recv (he_xml sample_env) (\<lambda>s. Some (sample_root ?n)) (Msg ''x'') = Inr (Got_msg ?m)"
    using sample_recv by (simp add: sample_env_def)
  have n: "map_option (xname (he_xml sample_env)) (msg_node ?m) =
      map_option (xname (he_xml sample_env)) (msg_node (subscribe_msg (he_xml sample_env)))"
    unfolding x(2) using xml_lawsD [OF xtree_laws] by (simp add: subscribe_msg_def)
  have s: "distinct (map fst (hb_clients sample_h9bus))" "map_of (hb_clients sample_h9bus) 5 = Some ?c"
    "0 < fst (he_send sample_env (tc_fd ?c) (tc_sends ?c))"
    by (simp_all add: sample_h9bus_def sample_clients_def sample_env_def)
  have f: "valid_frame (new_frame 0 5 32)" by (simp add: valid_frame_def wf_frame_def new_frame_def)
  have t: "get_type xtree_ops ?m = Inr SUBSCRIBE" using xml_lawsD [OF xtree_laws] by (simp add: get_type_def)
  show ?thesis
    using schema_of_programs [OF x(1) _ f ch r n s, of 7] t x(2)
    by (intro exI [of _ ?m]) (simp add: new_tcp_client_def)
qed

end
