(* ===== verification/H9_Open.thy ===== *)
theory H9_Open
  imports H9_Driver
begin

text \<open>
  Opening the drivers of h9bus: \<open>open\<close> of \<open>drivers/dummy.cc\<close>, \<open>loop.cc\<close>, \<open>slcan.cc\<close> and \<open>socketcan.cc\<close>,
  with the terminal settings of the serial line; the \<open>send_data\<close> and \<open>recv_data\<close> of each driver by itself;
  and what becomes of the descriptors when \<open>BusMgr::cron\<close> opens a driver again. A result of a system
  call is a pair with \<open>errno\<close>. The outcome of an \<open>open\<close> is the descriptor the object then holds, or the
  exception, with the descriptors that were opened and that nobody holds.
\<close>

subsection \<open>The drivers\<close>

type_synonym syscall = "int \<times> int"

definition unowned :: "int \<Rightarrow> int list" where
  "unowned fd = (if fd = -1 then [] else [fd])"

definition loop_open :: "syscall \<Rightarrow> syscall \<Rightarrow> int res \<times> int list" where
  \<comment> \<open>\<open>socket\<close>, whose result is not looked at, and \<open>bind\<close>\<close>
  "loop_open so b = (if fst b = -1 then (Inl (System_error (snd b)), unowned (fst so)) else (Inr (fst so), []))"

definition dummy_open :: "syscall \<Rightarrow> syscall \<Rightarrow> int res \<times> int list" where
  "dummy_open so b = (if fst b = -1 then (Inl (System_error (snd b)), unowned (fst so)) else (Inr (fst so), []))"

definition IFNAMSIZ :: nat where "IFNAMSIZ = 16"

definition socketcan_open :: "string \<Rightarrow> syscall \<Rightarrow> syscall \<Rightarrow> syscall \<Rightarrow> syscall \<Rightarrow> int res \<times> int list" where
  \<comment> \<open>\<open>socket\<close>, \<open>strcpy\<close> of the name of the interface into its array, \<open>ioctl\<close>, \<open>bind\<close>, \<open>setsockopt\<close>\<close>
  "socketcan_open ifname so io b f =
     (if fst so = -1 then (Inl (System_error (snd so)), [])
      else if IFNAMSIZ \<le> length ifname then (Inl Undefined_behaviour, unowned (fst so))
      else if fst io < 0 then (Inl (System_error (snd io)), unowned (fst so))
      else if fst b < 0 then (Inl (System_error (snd b)), unowned (fst so))
      else if fst f < 0 then (Inl (System_error (snd f)), unowned (fst so))
      else (Inr (fst so), []))"

subsection \<open>The serial line\<close>

record termios =
  c_iflag :: u32
  c_oflag :: u32
  c_cflag :: u32
  c_lflag :: u32
  c_cc :: "nat \<Rightarrow> u8"
  c_ispeed :: u32
  c_ospeed :: u32

definition CLOCAL :: u32 where "CLOCAL = 0x800"
definition CREAD :: u32 where "CREAD = 0x80"
definition PARENB :: u32 where "PARENB = 0x100"
definition CSTOPB :: u32 where "CSTOPB = 0x40"
definition CSIZE :: u32 where "CSIZE = 0x30"
definition CS8 :: u32 where "CS8 = 0x30"
definition CRTSCTS :: u32 where "CRTSCTS = 0x80000000"
definition B115200 :: u32 where "B115200 = 0x1002"
definition VTIME :: nat where "VTIME = 5"
definition VMIN :: nat where "VMIN = 6"

definition slcan_termios :: "bool \<Rightarrow> termios \<Rightarrow> termios" where
  \<comment> \<open>the settings, from those of the line; the flags for input and for local modes are masked and then
      cleared as a whole\<close>
  "slcan_termios noblock t =
    (let t1 = t\<lparr>c_ispeed := B115200, c_ospeed := B115200\<rparr>;
         t2 = t1\<lparr>c_cflag := c_cflag t1 OR (CLOCAL OR CREAD)\<rparr>;
         t3 = t2\<lparr>c_cflag := c_cflag t2 AND NOT PARENB\<rparr>;
         t4 = t3\<lparr>c_cflag := c_cflag t3 AND NOT CSTOPB\<rparr>;
         t5 = t4\<lparr>c_cflag := c_cflag t4 AND NOT CSIZE\<rparr>;
         t6 = t5\<lparr>c_cflag := c_cflag t5 OR CS8\<rparr>;
         t7 = t6\<lparr>c_cflag := c_cflag t6 AND NOT CRTSCTS\<rparr>
     in t7\<lparr>c_iflag := 0, c_lflag := 0, c_oflag := 0,
       c_cc := (c_cc t7)(VMIN := (if noblock then 0 else 1), VTIME := 1)\<rparr>)"

definition O_NONBLOCK :: int where "O_NONBLOCK = 2048"

definition slcan_open :: "bool \<Rightarrow> syscall \<Rightarrow> termios \<Rightarrow> syscall \<Rightarrow> int res \<times> int list \<times> (int \<times> termios) option" where
  \<comment> \<open>\<open>open\<close>, the settings \<open>tcgetattr\<close> gives, \<open>tcsetattr\<close>; with the flags and the settings asked for\<close>
  "slcan_open noblock op t ts =
     (if fst op = -1 then (Inl (System_error (snd op)), [], None)
      else let asked = Some (if noblock then O_NONBLOCK else 0, slcan_termios noblock t) in
        if fst ts \<noteq> 0 then (Inl (System_error (snd ts)), unowned (fst op), asked) else (Inr (fst op), [], asked))"

lemma serial_line_settings:
  \<comment> \<open>8N1 without flow control, raw, whatever the line was set to before\<close>
  "c_cflag (slcan_termios nb t) AND (CSIZE OR PARENB OR CSTOPB OR CRTSCTS) = CS8"
  "c_cflag (slcan_termios nb t) AND (CLOCAL OR CREAD) = CLOCAL OR CREAD"
  "c_iflag (slcan_termios nb t) = 0 \<and> c_oflag (slcan_termios nb t) = 0 \<and> c_lflag (slcan_termios nb t) = 0"
  "c_ispeed (slcan_termios nb t) = B115200 \<and> c_ospeed (slcan_termios nb t) = B115200"
  "c_cc (slcan_termios False t) VMIN = 1 \<and> c_cc (slcan_termios nb t) VTIME = 1"
proof -
  have w: "(((((x OR (CLOCAL OR CREAD)) AND NOT PARENB) AND NOT CSTOPB) AND NOT CSIZE) OR CS8) AND NOT CRTSCTS =
      (x AND NOT (CSIZE OR PARENB OR CSTOPB OR CRTSCTS)) OR (CLOCAL OR CREAD OR CS8)" for x :: u32
  proof -
    have c: "(CLOCAL OR CREAD) AND NOT PARENB AND NOT CSTOPB AND NOT CSIZE AND NOT CRTSCTS = CLOCAL OR CREAD"
      "CS8 AND NOT CRTSCTS = CS8"
      by (simp_all add: CLOCAL_def CREAD_def PARENB_def CSTOPB_def CSIZE_def CRTSCTS_def CS8_def)
    have "(((((x OR (CLOCAL OR CREAD)) AND NOT PARENB) AND NOT CSTOPB) AND NOT CSIZE) OR CS8) AND NOT CRTSCTS =
      (x AND NOT (CSIZE OR PARENB OR CSTOPB OR CRTSCTS)) OR
      ((CLOCAL OR CREAD) AND NOT PARENB AND NOT CSTOPB AND NOT CSIZE AND NOT CRTSCTS) OR (CS8 AND NOT CRTSCTS)"
      by (rule bit_word_eqI) (auto simp: bit_simps)
    then show ?thesis by (simp only: c) (simp add: or.assoc)
  qed
  have k: "c_cflag (slcan_termios nb t) = (c_cflag t AND NOT (CSIZE OR PARENB OR CSTOPB OR CRTSCTS)) OR (CLOCAL OR CREAD OR CS8)"
    using w [of "c_cflag t"] by (simp add: slcan_termios_def Let_def)
  have m: "(CLOCAL OR CREAD OR CS8) AND (CSIZE OR PARENB OR CSTOPB OR CRTSCTS) = CS8"
    "(CLOCAL OR CREAD OR CS8) AND (CLOCAL OR CREAD) = CLOCAL OR CREAD"
    "NOT (CSIZE OR PARENB OR CSTOPB OR CRTSCTS) AND (CLOCAL OR CREAD) = CLOCAL OR CREAD"
    by (simp_all add: CLOCAL_def CREAD_def PARENB_def CSTOPB_def CSIZE_def CRTSCTS_def CS8_def)
  have d: "((x AND NOT mk) OR y) AND mk = y AND mk" for x y mk :: u32
    by (rule bit_word_eqI) (auto simp: bit_simps)
  show "c_cflag (slcan_termios nb t) AND (CSIZE OR PARENB OR CSTOPB OR CRTSCTS) = CS8"
    unfolding k d by (rule m(1))
  have "((x AND nm) OR y) AND z = z" if "nm AND z = z" "y AND z = z" for x y z nm :: u32
  proof -
    have "((x AND nm) OR y) AND z = (x AND (nm AND z)) OR (y AND z)" by (rule bit_word_eqI) (auto simp: bit_simps)
    also have "\<dots> = z" unfolding that by (rule bit_word_eqI) (auto simp: bit_simps)
    finally show ?thesis .
  qed
  then show "c_cflag (slcan_termios nb t) AND (CLOCAL OR CREAD) = CLOCAL OR CREAD"
    unfolding k using m(2,3) by blast
qed (simp_all add: slcan_termios_def Let_def VMIN_def VTIME_def)


subsection \<open>Sending and receiving of each driver\<close>

definition dummy_send_data :: "driver \<Rightarrow> nat \<Rightarrow> h9frame \<Rightarrow> store \<Rightarrow> cxx_error option \<times> driver \<times> store" where
  \<comment> \<open>up to the call of \<open>on_frame_send\<close>, as in the other drivers\<close>
  "dummy_send_data d p f s = (None, d, s)"

definition loop_send_data :: "syscall \<Rightarrow> driver \<Rightarrow> nat \<Rightarrow> h9frame \<Rightarrow> store \<Rightarrow> cxx_error option \<times> driver \<times> store" where
  "loop_send_data r d p f s =
     (if fst r = -1 then (Some (System_error (snd r)), d, s\<lparr>writes := writes s + 1\<rparr>)
      else (None, d, s\<lparr>writes := writes s + 1, written := written s @ [(dr_name d, f)]\<rparr>))"

definition write_failure :: "syscall \<Rightarrow> cxx_error" where
  \<comment> \<open>\<open>close()\<close> throws before the \<open>system_error\<close> is reached\<close>
  "write_failure r = (if fst r = 0 \<or> snd r = ENXIO then Close_socket else System_error (snd r))"

definition slcan_send_data :: "syscall \<Rightarrow> driver \<Rightarrow> nat \<Rightarrow> h9frame \<Rightarrow> store \<Rightarrow> cxx_error option \<times> driver \<times> store" where
  "slcan_send_data r d p f s = (case build_slcan_msg f of Inl e \<Rightarrow> (Some e, d, s)
     | Inr _ \<Rightarrow> if fst r \<le> 0 then (Some (write_failure r), d, s\<lparr>writes := writes s + 1\<rparr>)
         else (None, d\<lparr>dr_last_send := Some p\<rparr>, s\<lparr>writes := writes s + 1, written := written s @ [(dr_name d, f)]\<rparr>))"

definition slcan_send_ack :: "syscall \<Rightarrow> cxx_error option" where
  "slcan_send_ack r = (if fst r \<le> 0 then Some (write_failure r) else None)"

definition socketcan_send_data :: "syscall \<Rightarrow> driver \<Rightarrow> nat \<Rightarrow> h9frame \<Rightarrow> store \<Rightarrow> cxx_error option \<times> driver \<times> store" where
  "socketcan_send_data r d p f s = (case socketcan_send f of Inl e \<Rightarrow> (Some e, d, s)
     | Inr _ \<Rightarrow> if fst r \<le> 0 then (Some (write_failure r), d, s\<lparr>writes := writes s + 1\<rparr>)
         else (None, d, s\<lparr>writes := writes s + 1, written := written s @ [(dr_name d, f)]\<rparr>))"

lemma write_frame_drivers:
  "write_frame env d p f s = (let r = write_ret env (writes s) in case dr_kind d of
       Dummy \<Rightarrow> dummy_send_data d p f s | Loop \<Rightarrow> loop_send_data r d p f s
     | Slcan \<Rightarrow> slcan_send_data r d p f s | SocketCAN \<Rightarrow> socketcan_send_data r d p f s)"
  by (simp add: write_frame_def dummy_send_data_def loop_send_data_def slcan_send_data_def socketcan_send_data_def
      write_failure_def Let_def split: driver_kind.split sum.split prod.split)

definition loop_recv_data :: "h9frame option \<Rightarrow> int \<Rightarrow> driver \<Rightarrow> store \<Rightarrow> cxx_error option \<times> driver \<times> store" where
  \<comment> \<open>the frame \<open>recvfrom\<close> left in the buffer, or its failure with \<open>errno\<close>\<close>
  "loop_recv_data r en d s = (case r of None \<Rightarrow> (Some (System_error en), d, s)
     | Some f \<Rightarrow> (let (d1, s1) = driver_on_frame_recv f d s in (None, d1, s1)))"

definition dummy_recv_data :: "h9frame option \<Rightarrow> int \<Rightarrow> driver \<Rightarrow> store \<Rightarrow> cxx_error option \<times> driver \<times> store" where
  \<comment> \<open>what arrives is dropped\<close>
  "dummy_recv_data r en d s = ((case r of None \<Rightarrow> Some (System_error en) | Some f \<Rightarrow> None), d, s)"

subsection \<open>Opening again\<close>

record port =
  pt_driver :: driver
  pt_unowned :: "int list"
    \<comment> \<open>descriptors that stay open without an owner\<close>
  pt_closed :: "int list"
    \<comment> \<open>the numbers \<open>on_close\<close> closed\<close>

definition cron_turn :: "int res \<times> int list \<Rightarrow> port \<Rightarrow> port" where
  \<comment> \<open>one driver in \<open>BusMgr::cron\<close>, for the outcome of \<open>open\<close> if it is called: any exception counts as a
      failure, and after the last one \<open>on_close\<close> closes the number in the object\<close>
  "cron_turn opn t = (let d = pt_driver t in
     if dr_connected d \<or> dr_retry d = 0 then t
     else case opn of
       (Inr fd, _) \<Rightarrow> t\<lparr>pt_driver := d\<lparr>dr_socket := fd, dr_connected := True\<rparr>\<rparr>
     | (Inl e, lost) \<Rightarrow> let d1 = d\<lparr>dr_retry := dr_retry d - 1\<rparr>; t1 = t\<lparr>pt_unowned := pt_unowned t @ lost\<rparr> in
         if dr_retry d1 = 0 then t1\<lparr>pt_driver := driver_on_close d1, pt_closed := pt_closed t @ [dr_socket d1]\<rparr>
         else t1\<lparr>pt_driver := d1\<rparr>)"

lemma cron_turn_cron_devs:
  \<comment> \<open>it is what the model of \<open>cron\<close> does to a driver\<close>
  "fst opn \<noteq> Inr 0 \<Longrightarrow> fst (snd (cron_devs (\<lambda>_. case fst opn of Inr fd \<Rightarrow> Some fd | Inl e \<Rightarrow> None) [(n, pt_driver t)] sm))
     = [(n, pt_driver (cron_turn opn t))]"
  by (cases opn; cases "fst opn") (auto simp: cron_turn_def Let_def register_socket_def split: prod.splits)

definition failed_open :: "int res \<times> int list \<Rightarrow> bool" where
  "failed_open r \<longleftrightarrow> (case fst r of Inl e \<Rightarrow> True | Inr fd \<Rightarrow> False)"

lemma cron_failures:
  assumes "\<forall>r \<in> set rs. failed_open r" and "\<not> dr_connected (pt_driver t)" and "int (length rs) < dr_retry (pt_driver t)"
  shows "fold cron_turn rs t = t\<lparr>pt_driver := (pt_driver t)\<lparr>dr_retry := dr_retry (pt_driver t) - int (length rs)\<rparr>,
    pt_unowned := pt_unowned t @ concat (map snd rs)\<rparr>"
  using assms
proof (induction rs arbitrary: t)
  case (Cons r rs)
  let ?t = "t\<lparr>pt_driver := (pt_driver t)\<lparr>dr_retry := dr_retry (pt_driver t) - 1\<rparr>, pt_unowned := pt_unowned t @ snd r\<rparr>"
  have "cron_turn r t = ?t"
    using Cons.prems by (cases r; cases "fst r") (auto simp: cron_turn_def failed_open_def Let_def)
  moreover have "fold cron_turn rs ?t = ?t\<lparr>pt_driver := (pt_driver ?t)\<lparr>dr_retry := dr_retry (pt_driver ?t) - int (length rs)\<rparr>,
      pt_unowned := pt_unowned ?t @ concat (map snd rs)\<rparr>"
    using Cons.prems by (intro Cons.IH) auto
  ultimately show ?case by (simp add: algebra_simps)
qed simp

text \<open>
  C38. Descriptors of the drivers: an \<open>open\<close> that succeeds leaves its one descriptor in the object and no
  other, but one that fails after the descriptor was made leaves it open without an owner. A driver that
  cannot be opened again is tried ten times: each of these attempts can lose a descriptor, and after the last
  one \<open>on_close\<close> closes the number of the connection before, which was closed when that connection
  ended and may be the descriptor of a client by now.
\<close>

theorem driver_descriptors:
  assumes "\<forall>r \<in> set rs. failed_open r" and "length rs = 10" and "dr_retry d = 10" and "\<not> dr_connected d"
  shows "(loop_open so b = (Inr fd, lost) \<or> dummy_open so b = (Inr fd, lost) \<or> socketcan_open nm so io b f = (Inr fd, lost) \<or>
        (\<exists>a. slcan_open nb so t ts = (Inr fd, lost, a)) \<longrightarrow> fd = fst so \<and> lost = []) \<and>
    (loop_open so b = (Inl e, lost) \<or> dummy_open so b = (Inl e, lost) \<or> socketcan_open nm so io b f = (Inl e, lost) \<or>
        (\<exists>a. slcan_open nb so t ts = (Inl e, lost, a)) \<longrightarrow> lost = unowned (fst so)) \<and>
    (let t' = fold cron_turn rs \<lparr>pt_driver = d, pt_unowned = [], pt_closed = []\<rparr> in
      pt_unowned t' = concat (map snd rs) \<and> pt_closed t' = [dr_socket d] \<and> dr_retry (pt_driver t') = 0)"
proof -
  obtain qs r where rs: "rs = qs @ [r]" using assms(2) by (cases rs rule: rev_cases) auto
  let ?p = "\<lparr>pt_driver = d, pt_unowned = [], pt_closed = []\<rparr>"
  have "fold cron_turn qs ?p = ?p\<lparr>pt_driver := d\<lparr>dr_retry := 1\<rparr>, pt_unowned := concat (map snd qs)\<rparr>"
    using cron_failures [of qs ?p] assms rs by simp
  moreover have "failed_open r" using assms(1) rs by simp
  ultimately have "let t' = fold cron_turn rs ?p in
      pt_unowned t' = concat (map snd rs) \<and> pt_closed t' = [dr_socket d] \<and> dr_retry (pt_driver t') = 0"
    using rs assms(4) by (cases r; cases "fst r") (auto simp: cron_turn_def failed_open_def driver_on_close_def Let_def)
  moreover have "loop_open so b = (Inr fd, lost) \<or> dummy_open so b = (Inr fd, lost) \<or> socketcan_open nm so io b f = (Inr fd, lost) \<or>
        (\<exists>a. slcan_open nb so t ts = (Inr fd, lost, a)) \<longrightarrow> fd = fst so \<and> lost = []"
    by (auto simp: loop_open_def dummy_open_def socketcan_open_def slcan_open_def Let_def split: if_splits)
  moreover have "loop_open so b = (Inl e, lost) \<or> dummy_open so b = (Inl e, lost) \<or> socketcan_open nm so io b f = (Inl e, lost) \<or>
        (\<exists>a. slcan_open nb so t ts = (Inl e, lost, a)) \<longrightarrow> lost = unowned (fst so)"
    by (auto simp: loop_open_def dummy_open_def socketcan_open_def slcan_open_def unowned_def Let_def split: if_splits)
  ultimately show ?thesis by blast
qed

theorem driver_descriptors_witness:
  "(let rs = map (\<lambda>fd. loop_open (fd, 0) (-1, 98)) [21, 22, 23, 24, 25, 26, 27, 28, 29, 30];
      t = fold cron_turn rs \<lparr>pt_driver = (new_driver Loop ''lo'')\<lparr>dr_socket := 7\<rparr>, pt_unowned = [], pt_closed = []\<rparr>
    in pt_unowned t = [21, 22, 23, 24, 25, 26, 27, 28, 29, 30] \<and> pt_closed t = [7])"
proof -
  let ?rs = "map (\<lambda>fd. loop_open (fd, 0) (-1, 98)) [21, 22, 23, 24, 25, 26, 27, 28, 29, 30]"
  let ?d = "(new_driver Loop ''lo'')\<lparr>dr_socket := 7\<rparr>"
  have "\<forall>r \<in> set ?rs. failed_open r" "length ?rs = 10" "dr_retry ?d = 10" "\<not> dr_connected ?d"
    by (simp_all add: loop_open_def failed_open_def new_driver_def)
  from driver_descriptors [OF this] show ?thesis
    by (simp add: Let_def loop_open_def unowned_def)
qed

end
