(* ===== verification/H9_Config.thy ===== *)
theory H9_Config
  imports H9_Start H9_Log
begin

text \<open>
  From the command line and the file to the settings: the tables of options that \<open>h9bus/busctx.cc\<close>,
  \<open>h9d/dctx.cc\<close> and \<open>common/clientctx.cc\<close> give to libconfuse, the getters that read a parsed file, the
  command line in \<open>common/daemonctx.cc\<close> and \<open>clientctx.cc\<close>, the basics of \<open>common/ctx.cc\<close>, and the members of
  \<open>common/log.cc\<close> per level. The values of a section after parsing are those of its table, with the last
  assignment of the file to each option (\<open>fill\<close>), the documented behaviour of libconfuse; the options
  as cxxopts has counted them are an input.
\<close>

subsection \<open>Tables\<close>

datatype cfg_value = VBool bool | VInt int | VStr "string option"

datatype cfg_opt = CFG_BOOL string bool | CFG_INT string int | CFG_STR string "string option"

fun opt_entry :: "cfg_opt \<Rightarrow> string \<times> cfg_value" where
  "opt_entry (CFG_BOOL k b) = (k, VBool b)"
| "opt_entry (CFG_INT k i) = (k, VInt i)"
| "opt_entry (CFG_STR k s) = (k, VStr s)"

definition H9D_DEFAULT_PORT :: int where "H9D_DEFAULT_PORT = 7979"
definition DEFAULT_SEND_FRAME_TO_H9BUS_TIMEOUT :: int where "DEFAULT_SEND_FRAME_TO_H9BUS_TIMEOUT = 3"
definition DEFAULT_RECV_RESPONSE_FRAME_TIMEOUT :: int where "DEFAULT_RECV_RESPONSE_FRAME_TIMEOUT = 3"

definition bus_process_sec :: "cfg_opt list" where
  "bus_process_sec = [CFG_BOOL ''daemonize'' False, CFG_STR ''pidfile'' None, CFG_INT ''setuid'' 0, CFG_INT ''setgid'' 0]"

definition bus_server_sec :: "cfg_opt list" where
  "bus_server_sec = [CFG_INT ''port'' H9BUS_DEFAULT_PORT]"

definition bus_log_sec :: "cfg_opt list" where
  "bus_log_sec = [CFG_STR ''logfile'' None, CFG_STR ''send_frame_logfile'' None, CFG_STR ''recv_frame_logfile'' None]"

definition bus_bus_sec :: "cfg_opt list" where
  "bus_bus_sec = [CFG_STR ''driver'' None, CFG_STR ''connection_string'' None]"

definition d_process_sec :: "cfg_opt list" where
  "d_process_sec = [CFG_BOOL ''daemonize'' False, CFG_STR ''pidfile'' None, CFG_INT ''setuid'' 0, CFG_INT ''setgid'' 0]"

definition d_server_sec :: "cfg_opt list" where
  "d_server_sec = [CFG_INT ''port'' H9D_DEFAULT_PORT]"

definition d_bus_sec :: "cfg_opt list" where
  "d_bus_sec = [CFG_STR ''h9bus_hostname'' (Some ''localhost''), CFG_INT ''h9bus_port'' H9BUS_DEFAULT_PORT,
     CFG_INT ''h9bus_send_frame_timeout'' DEFAULT_SEND_FRAME_TO_H9BUS_TIMEOUT,
     CFG_INT ''h9bus_recv_response_timeout'' DEFAULT_RECV_RESPONSE_FRAME_TIMEOUT]"

definition d_log_sec :: "cfg_opt list" where
  "d_log_sec = [CFG_STR ''logfile'' None, CFG_STR ''send_frame_logfile'' None, CFG_STR ''recv_frame_logfile'' None]"

subsection \<open>Parsed sections\<close>

type_synonym assignments = "(string \<times> cfg_value) list"
type_synonym section_values = "string \<Rightarrow> cfg_value option"

fun same_type :: "cfg_value \<Rightarrow> cfg_value \<Rightarrow> bool" where
  "same_type (VBool a) v = (case v of VBool b \<Rightarrow> True | _ \<Rightarrow> False)"
| "same_type (VInt a) v = (case v of VInt b \<Rightarrow> True | _ \<Rightarrow> False)"
| "same_type (VStr a) v = (case v of VStr b \<Rightarrow> True | _ \<Rightarrow> False)"

definition fits :: "cfg_opt list \<Rightarrow> assignments \<Rightarrow> bool" where
  \<comment> \<open>otherwise parsing fails: only options of the table, with values of their type\<close>
  "fits tbl as \<longleftrightarrow> list_all (\<lambda>(k, v). case map_of (map opt_entry tbl) k of None \<Rightarrow> False | Some d \<Rightarrow> same_type d v) as"

definition fill :: "cfg_opt list \<Rightarrow> assignments \<Rightarrow> section_values" where
  "fill tbl as k = (case map_of (rev as) k of Some v \<Rightarrow> Some v | None \<Rightarrow> map_of (map opt_entry tbl) k)"

definition cfg_getint :: "section_values \<Rightarrow> string \<Rightarrow> int res" where
  \<comment> \<open>libconfuse asserts that the option exists and has the type\<close>
  "cfg_getint sec k = (case sec k of Some (VInt i) \<Rightarrow> Inr i | _ \<Rightarrow> Inl Assertion_failed)"

definition cfg_getbool :: "section_values \<Rightarrow> string \<Rightarrow> bool res" where
  "cfg_getbool sec k = (case sec k of Some (VBool b) \<Rightarrow> Inr b | _ \<Rightarrow> Inl Assertion_failed)"

definition cfg_getstr :: "section_values \<Rightarrow> string \<Rightarrow> string option res" where
  "cfg_getstr sec k = (case sec k of Some (VStr s) \<Rightarrow> Inr s | _ \<Rightarrow> Inl Assertion_failed)"

record bus_file =
  bf_process :: assignments
  bf_server :: assignments
  bf_log :: assignments
  bf_buses :: "(string \<times> assignments) list"

record d_file =
  df_process :: assignments
  df_server :: assignments
  df_log :: assignments
  df_bus :: assignments

definition bus_file_fits :: "bus_file \<Rightarrow> bool" where
  \<comment> \<open>\<open>CFGF_NO_TITLE_DUPES\<close>: no two endpoints with one title\<close>
  "bus_file_fits f \<longleftrightarrow> fits bus_process_sec (bf_process f) \<and> fits bus_server_sec (bf_server f) \<and> fits bus_log_sec (bf_log f) \<and>
     list_all (\<lambda>(t, as). fits bus_bus_sec as) (bf_buses f) \<and> distinct (map fst (bf_buses f))"

definition d_file_fits :: "d_file \<Rightarrow> bool" where
  "d_file_fits f \<longleftrightarrow> fits d_process_sec (df_process f) \<and> fits d_server_sec (df_server f) \<and> fits d_log_sec (df_log f) \<and>
     fits d_bus_sec (df_bus f)"

fun read_buses :: "(string \<times> assignments) list \<Rightarrow> (string \<times> string option \<times> string option) list res" where
  \<comment> \<open>the titles of \<open>cfg_bus_list\<close> with what \<open>cfg_bus_driver\<close> and \<open>cfg_bus_connection_string\<close> look up\<close>
  "read_buses [] = Inr []"
| "read_buses ((t, as) # bs) = rbind (cfg_getstr (fill bus_bus_sec as) ''driver'') (\<lambda>d.
     rbind (cfg_getstr (fill bus_bus_sec as) ''connection_string'') (\<lambda>cs.
     rbind (read_buses bs) (\<lambda>rest. Inr ((t, d, cs) # rest))))"

definition read_bus_settings :: "bus_file \<Rightarrow> bus_config res" where
  \<comment> \<open>what the getters of \<open>BusCtx\<close> read\<close>
  "read_bus_settings f = (let p = fill bus_process_sec (bf_process f); l = fill bus_log_sec (bf_log f) in
     rbind (cfg_getbool p ''daemonize'') (\<lambda>dm. rbind (cfg_getstr p ''pidfile'') (\<lambda>pf.
     rbind (cfg_getint p ''setuid'') (\<lambda>su. rbind (cfg_getint p ''setgid'') (\<lambda>sg.
     rbind (cfg_getint (fill bus_server_sec (bf_server f)) ''port'') (\<lambda>po.
     rbind (cfg_getstr l ''logfile'') (\<lambda>lf. rbind (cfg_getstr l ''send_frame_logfile'') (\<lambda>sl.
     rbind (cfg_getstr l ''recv_frame_logfile'') (\<lambda>rl. rbind (read_buses (bf_buses f)) (\<lambda>bs.
       Inr \<lparr>dc_daemonize = dm, dc_pidfile = pf, dc_setuid = su, dc_setgid = sg, dc_port = po, dc_logfile = lf,
         dc_send_logfile = sl, dc_recv_logfile = rl, bc_buses = bs\<rparr>))))))))))"

definition read_d_settings :: "d_file \<Rightarrow> d_config res" where
  \<comment> \<open>what the getters of \<open>DCtx\<close> read; the two log files for frames are declared and not used\<close>
  "read_d_settings f = (let p = fill d_process_sec (df_process f); l = fill d_log_sec (df_log f); b = fill d_bus_sec (df_bus f) in
     rbind (cfg_getbool p ''daemonize'') (\<lambda>dm. rbind (cfg_getstr p ''pidfile'') (\<lambda>pf.
     rbind (cfg_getint p ''setuid'') (\<lambda>su. rbind (cfg_getint p ''setgid'') (\<lambda>sg.
     rbind (cfg_getint (fill d_server_sec (df_server f)) ''port'') (\<lambda>po. rbind (cfg_getstr l ''logfile'') (\<lambda>lf.
     rbind (cfg_getstr b ''h9bus_hostname'') (\<lambda>hn. rbind (cfg_getint b ''h9bus_port'') (\<lambda>hp.
     rbind (cfg_getint b ''h9bus_send_frame_timeout'') (\<lambda>st. rbind (cfg_getint b ''h9bus_recv_response_timeout'') (\<lambda>rt.
       Inr \<lparr>dc_daemonize = dm, dc_pidfile = pf, dc_setuid = su, dc_setgid = sg, dc_port = po, dc_logfile = lf,
         dc_send_logfile = None, dc_recv_logfile = None, dd_h9bus_hostname = hn, dd_h9bus_port = hp,
         dd_send_frame_timeout = st, dd_recv_response_timeout = rt\<rparr>)))))))))))"

subsection \<open>Command lines\<close>

record daemon_options =
  do_help :: nat
  do_version :: nat
  do_debug :: nat
  do_verbose :: nat
  do_daemonize :: nat
  do_logfile :: "string option"
  do_pidfile :: "string option"

datatype 'c start = Shows_help | Shows_version | Start_failed | Start_aborted | Started 'c log
  \<comment> \<open>\<open>exit(EXIT_SUCCESS)\<close> after a text; \<open>exit(EXIT_FAILURE)\<close>; an exception leaves \<open>main\<close>\<close>

definition daemon_load ::
  "bool \<Rightarrow> daemon_options option \<Rightarrow> 'c daemon_config_scheme parsed \<Rightarrow> string \<Rightarrow> string \<Rightarrow> log \<Rightarrow> ('c daemon_config_scheme) start" where
  \<comment> \<open>\<open>DaemonCtx::load\<close>: whether the program was built with \<open>H9_DEBUG\<close>, the options (\<open>None\<close>: they cannot be
      parsed, an exception that nothing catches), the file, the time and the text of the last message\<close>
  "daemon_load dbg opts r now starting s = (case opts of None \<Rightarrow> Start_aborted
     | Some ops \<Rightarrow> if 0 < do_help ops then Shows_help else if 0 < do_version ops then Shows_version
         else let s1 = (if dbg \<and> 0 < do_debug ops then enable_debug True s else s);
                  s2 = raise_verbose_level (of_nat (do_verbose ops)) s1
           in case load_configuration r (0 < do_daemonize ops) (or_else [] (do_logfile ops)) (or_else [] (do_pidfile ops)) of
                None \<Rightarrow> Start_failed
              | Some (c, file) \<Rightarrow>
                  Started c (log_at now NOTICE ''daemonctx.cc'' 69 starting (case file of None \<Rightarrow> s2 | Some g \<Rightarrow> redirect_to_file g s2)))"

record client_options =
  co_help :: nat
  co_version :: nat
  co_debug :: nat
  co_verbose :: nat

definition client_parse_options :: "bool \<Rightarrow> client_options option \<Rightarrow> log \<Rightarrow> client_options start" where
  \<comment> \<open>\<open>ClientCtx::parse_options\<close>: an error of the options is caught\<close>
  "client_parse_options dbg opts s = (case opts of None \<Rightarrow> Start_failed
     | Some ops \<Rightarrow> let s1 = (if dbg \<and> 0 < co_debug ops then enable_debug True s else s) in
         if 0 < co_help ops then Shows_help
         else let s2 = raise_verbose_level (of_nat (co_verbose ops)) s1
           in if 0 < co_version ops then Shows_version else Started ops s2)"

record ctx =
  cx_debug :: bool
  cx_app_name :: string
  cx_app_desc :: string
  cx_start_time :: int
  cx_devices :: string

definition new_ctx :: "string \<Rightarrow> string \<Rightarrow> string \<Rightarrow> int \<Rightarrow> log \<Rightarrow> ctx \<times> log" where
  \<comment> \<open>the constructor, with the path of the configuration and the time\<close>
  "new_ctx path name desc now s = (\<lparr>cx_debug = False, cx_app_name = name, cx_app_desc = desc, cx_start_time = now,
     cx_devices = path @ ''devices.conf''\<rparr>, s\<lparr>lg_debug := False\<rparr>)"

definition add_options :: "string list \<Rightarrow> string \<Rightarrow> string list" where
  "add_options ops o1 = ops @ [o1]"

definition add_positional :: "string list \<times> string option \<Rightarrow> string \<Rightarrow> string list \<times> string option" where
  \<comment> \<open>the option is declared and takes the arguments without a name\<close>
  "add_positional st o1 = (add_options (fst st) o1, Some o1)"

subsection \<open>The log per level\<close>

datatype log_call = Formatted level int string | Plain level string
  \<comment> \<open>the sixteen members \<open>stderr\<close>, \<open>crit\<close>, ..., \<open>debug2\<close>: with a format (the result of \<open>vsnprintf\<close> and the
      text), or with a text\<close>

fun log_member :: "string \<Rightarrow> nat \<Rightarrow> string \<Rightarrow> nat \<Rightarrow> log_call \<Rightarrow> log \<Rightarrow> log option" where
  "log_member now mem file n (Formatted l need msg) s = vlog now mem l file n need msg s"
| "log_member now mem file n (Plain l msg) s = Some (log_at now l file n msg s)"

definition get_level :: "log \<Rightarrow> u32" where
  "get_level s = of_nat (level_num (lg_verbose s))"

definition set_level :: "level \<Rightarrow> log \<Rightarrow> log" where
  "set_level l s = s\<lparr>lg_verbose := l\<rparr>"

definition set_debug :: "bool \<Rightarrow> log \<Rightarrow> log" where
  "set_debug b s = s\<lparr>lg_debug := b\<rparr>"

definition set_to_stderr :: "bool \<Rightarrow> log \<Rightarrow> log" where
  "set_to_stderr b s = s\<lparr>lg_to_stderr := b\<rparr>"

definition log_notice :: "string \<Rightarrow> string \<Rightarrow> log \<Rightarrow> log" where
  \<comment> \<open>\<open>log(msg)\<close>\<close>
  "log_notice now msg s = log_text now NOTICE msg s"

definition SIGHUP :: int where "SIGHUP = 1"

definition handle_sighup :: "string \<Rightarrow> int \<Rightarrow> log \<Rightarrow> log" where
  "handle_sighup now signum s = (if signum = SIGHUP then on_logrotate now s else s)"


subsection \<open>Properties\<close>

definition assigned :: "assignments \<Rightarrow> string \<Rightarrow> cfg_value \<Rightarrow> cfg_value \<Rightarrow> bool" where
  \<comment> \<open>the value of an option: its last assignment in the file, or the default\<close>
  "assigned as k d v \<longleftrightarrow> (case map_of (rev as) k of None \<Rightarrow> v = d | Some w \<Rightarrow> v = w)"

lemma fits_value:
  assumes "fits tbl as" and "map_of (map opt_entry tbl) k = Some d"
  shows "\<exists>v. fill tbl as k = Some v \<and> same_type d v \<and> assigned as k d v"
proof (cases "map_of (rev as) k")
  case None
  moreover have "same_type d d" by (cases d) simp_all
  ultimately show ?thesis using assms(2) by (simp add: fill_def assigned_def)
next
  case (Some v)
  then have "(k, v) \<in> set as" using map_of_SomeD by fastforce
  then have "same_type d v" using assms by (auto simp: fits_def list_all_iff)
  then show ?thesis using Some by (simp add: fill_def assigned_def)
qed

lemma fits_read:
  assumes "fits tbl as"
  shows "map_of (map opt_entry tbl) k = Some (VInt i) \<Longrightarrow> \<exists>j. cfg_getint (fill tbl as) k = Inr j \<and> assigned as k (VInt i) (VInt j)"
    and "map_of (map opt_entry tbl) k = Some (VBool b) \<Longrightarrow> \<exists>c. cfg_getbool (fill tbl as) k = Inr c \<and> assigned as k (VBool b) (VBool c)"
    and "map_of (map opt_entry tbl) k = Some (VStr x) \<Longrightarrow> \<exists>y. cfg_getstr (fill tbl as) k = Inr y \<and> assigned as k (VStr x) (VStr y)"
  using fits_value [OF assms, of k]
  by (fastforce simp: cfg_getint_def cfg_getbool_def cfg_getstr_def split: cfg_value.splits)+

definition process_assigned :: "assignments \<Rightarrow> assignments \<Rightarrow> assignments \<Rightarrow> int \<Rightarrow> 'c daemon_config_scheme \<Rightarrow> bool" where
  \<comment> \<open>the settings both daemons have, from the sections \<open>process\<close>, \<open>server\<close> and \<open>log\<close>\<close>
  "process_assigned p s l port c \<longleftrightarrow>
     assigned p ''daemonize'' (VBool False) (VBool (dc_daemonize c)) \<and> assigned p ''pidfile'' (VStr None) (VStr (dc_pidfile c)) \<and>
     assigned p ''setuid'' (VInt 0) (VInt (dc_setuid c)) \<and> assigned p ''setgid'' (VInt 0) (VInt (dc_setgid c)) \<and>
     assigned s ''port'' (VInt port) (VInt (dc_port c)) \<and> assigned l ''logfile'' (VStr None) (VStr (dc_logfile c))"

lemma read_buses_ok:
  assumes "list_all (\<lambda>(t, as). fits bus_bus_sec as) bs"
  shows "\<exists>rs. read_buses bs = Inr rs \<and> list_all2 (\<lambda>(t, as) (t', d, cs). t' = t \<and>
    assigned as ''driver'' (VStr None) (VStr d) \<and> assigned as ''connection_string'' (VStr None) (VStr cs)) bs rs"
  using assms
proof (induction bs)
  case (Cons a bs)
  obtain t as where a: "a = (t, as)" by fastforce
  then have f: "fits bus_bus_sec as" using Cons.prems by simp
  obtain d cs where "cfg_getstr (fill bus_bus_sec as) ''driver'' = Inr d" "assigned as ''driver'' (VStr None) (VStr d)"
      "cfg_getstr (fill bus_bus_sec as) ''connection_string'' = Inr cs" "assigned as ''connection_string'' (VStr None) (VStr cs)"
    using fits_read(3) [OF f, of "''driver''" None] fits_read(3) [OF f, of "''connection_string''" None]
    by (auto simp: bus_bus_sec_def)
  moreover obtain rs where "read_buses bs = Inr rs" "list_all2 (\<lambda>(t, as) (t', d, cs). t' = t \<and>
    assigned as ''driver'' (VStr None) (VStr d) \<and> assigned as ''connection_string'' (VStr None) (VStr cs)) bs rs"
    using Cons by auto
  ultimately show ?case using a by simp
qed simp

lemma read_process:
  assumes "fits tp p" and "fits ts s" and "fits tg l"
    and "map opt_entry tp = map opt_entry bus_process_sec" and "map opt_entry ts = [(''port'', VInt port)]"
    and "map opt_entry tg = map opt_entry bus_log_sec"
  shows "\<exists>dm pf su sg po lf sl rl. cfg_getbool (fill tp p) ''daemonize'' = Inr dm \<and> cfg_getstr (fill tp p) ''pidfile'' = Inr pf \<and>
    cfg_getint (fill tp p) ''setuid'' = Inr su \<and> cfg_getint (fill tp p) ''setgid'' = Inr sg \<and>
    cfg_getint (fill ts s) ''port'' = Inr po \<and> cfg_getstr (fill tg l) ''logfile'' = Inr lf \<and>
    cfg_getstr (fill tg l) ''send_frame_logfile'' = Inr sl \<and> cfg_getstr (fill tg l) ''recv_frame_logfile'' = Inr rl \<and>
    assigned p ''daemonize'' (VBool False) (VBool dm) \<and> assigned p ''pidfile'' (VStr None) (VStr pf) \<and>
    assigned p ''setuid'' (VInt 0) (VInt su) \<and> assigned p ''setgid'' (VInt 0) (VInt sg) \<and>
    assigned s ''port'' (VInt port) (VInt po) \<and> assigned l ''logfile'' (VStr None) (VStr lf) \<and>
    assigned l ''send_frame_logfile'' (VStr None) (VStr sl) \<and> assigned l ''recv_frame_logfile'' (VStr None) (VStr rl)"
proof -
  have m: "map_of (map opt_entry tp) ''daemonize'' = Some (VBool False)" "map_of (map opt_entry tp) ''pidfile'' = Some (VStr None)"
    "map_of (map opt_entry tp) ''setuid'' = Some (VInt 0)" "map_of (map opt_entry tp) ''setgid'' = Some (VInt 0)"
    "map_of (map opt_entry ts) ''port'' = Some (VInt port)" "map_of (map opt_entry tg) ''logfile'' = Some (VStr None)"
    "map_of (map opt_entry tg) ''send_frame_logfile'' = Some (VStr None)"
    "map_of (map opt_entry tg) ''recv_frame_logfile'' = Some (VStr None)"
    using assms(4-6) by (simp_all add: bus_process_sec_def bus_log_sec_def)
  show ?thesis
    using fits_read(2) [OF assms(1) m(1)] fits_read(3) [OF assms(1) m(2)] fits_read(1) [OF assms(1) m(3)]
      fits_read(1) [OF assms(1) m(4)] fits_read(1) [OF assms(2) m(5)] fits_read(3) [OF assms(3) m(6)]
      fits_read(3) [OF assms(3) m(7)] fits_read(3) [OF assms(3) m(8)]
    by blast
qed


definition sample_bus_file :: bus_file where
  "sample_bus_file = \<lparr>bf_process = [(''setuid'', VInt 65534), (''setuid'', VInt 33)], bf_server = [], bf_log = [],
     bf_buses = [(''can0'', [(''driver'', VStr (Some ''socketcan''))])]\<rparr>"

definition sample_d_file :: d_file where
  "sample_d_file = \<lparr>df_process = [], df_server = [(''port'', VInt 80)], df_log = [], df_bus = []\<rparr>"


end
