(* ===== verification/H9_Parse.thy ===== *)
theory H9_Parse
  imports H9_Cli H9_Schema
begin

text \<open>
  The language of h9cli: the tokens of \<open>h9cli/lexer.l\<close>, the grammar of \<open>parser.yy\<close>, the object
  \<open>h9cli/cliparser.cc\<close> with what it keeps of a line, the values of \<open>expression.h\<close>, and the loops of \<open>h9cli.cc\<close>
  over the lines of a file or a terminal. flex takes the longest match and the first rule among equals;
  the last rule matches every run without white space, so a token is always such a run. bison resolves
  the ambiguities of \<open>num_exp\<close> with the declared precedences: a reduction is made before a token of the
  same or a lower one is shifted.
\<close>

subsection \<open>Tokens\<close>

datatype token =
    LF_SEMICOLON | T_NODE | T_RESTART | T_REG | T_SETBIT | T_CLEARBIT | T_TOGGLEBIT
  | T_SET1 | T_SET2 | T_SET3 | T_SET4 | T_GET
  | MINUS | PLUS | STAR | SLASH | LPAREN | RPAREN | ASSIGN | COLON
  | STRING string | NUMBER int
  | INVALID string | THROWS cxx_error
    \<comment> \<open>the lexer throws a \<open>syntax_error\<close>, which the parser handles, or another exception, which it does not\<close>

definition words :: "(string \<times> token) list" where
  "words = [('';'', LF_SEMICOLON), (''-'', MINUS), (''+'', PLUS), (''*'', STAR), (''/'', SLASH), (''('', LPAREN), ('')'', RPAREN),
     (''='', ASSIGN), ('':'', COLON), (''node'', T_NODE), (''restart'', T_RESTART), (''reg'', T_REG), (''setbit'', T_SETBIT),
     (''clearbit'', T_CLEARBIT), (''togglebit'', T_TOGGLEBIT), (''set1'', T_SET1), (''set2'', T_SET2), (''set3'', T_SET3),
     (''set4'', T_SET4), (''get'', T_GET)]"

definition digits_below :: "nat \<Rightarrow> string \<Rightarrow> bool" where
  "digits_below b s \<longleftrightarrow> list_all (\<lambda>c. case digit_val c of None \<Rightarrow> False | Some d \<Rightarrow> d < b) s"

definition to_int :: "nat \<Rightarrow> int" where
  \<comment> \<open>\<open>int tmp = std::stoul(...)\<close>\<close>
  "to_int n = sint (word_of_nat n :: u32)"

definition number_token :: "string \<Rightarrow> token" where
  "number_token w =
     (if w \<noteq> [] \<and> digits_below 10 w then
        (if int (parse_digits 10 0 w) < 2 ^ 31 then NUMBER (int (parse_digits 10 0 w)) else THROWS Out_of_range)
      else if take 1 w = ''b'' \<and> 2 \<le> length w \<and> length w \<le> 33 \<and> digits_below 2 (drop 1 w)
        then NUMBER (to_int (parse_digits 2 0 (drop 1 w)))
      else if (take 2 w = ''0x'' \<or> take 2 w = ''0X'') \<and> 3 \<le> length w \<and> length w \<le> 10 \<and> digits_below 16 (drop 2 w)
        then NUMBER (to_int (parse_digits 16 0 (drop 2 w)))
      else INVALID w)"

definition word_token :: "string \<Rightarrow> token" where
  "word_token w = (case map_of words w of Some t \<Rightarrow> t | None \<Rightarrow> number_token w)"

definition blank :: "char \<Rightarrow> bool" where
  "blank c \<longleftrightarrow> c = CHR '' '' \<or> c = CHR 0x09 \<or> c = CHR 0x0A"

definition quoted :: "string \<Rightarrow> string option" where
  \<comment> \<open>the text between two quotation marks at the front, on one line and not empty\<close>
  "quoted s = (let body = takeWhile (\<lambda>c. c \<noteq> CHR 0x22 \<and> c \<noteq> CHR 0x0A) (drop 1 s) in
     if take 1 s = [CHR 0x22] \<and> body \<noteq> [] \<and> take 1 (drop (Suc (length body)) s) = [CHR 0x22] then Some body else None)"

definition next_token :: "string \<Rightarrow> token \<times> string" where
  \<comment> \<open>at a character that is not blank and does not start a comment\<close>
  "next_token s = (let w = takeWhile (\<lambda>c. \<not> blank c) s in case quoted s of
       Some body \<Rightarrow> if length w \<le> length body + 2 then (STRING body, drop (length body + 2) s)
                    else (INVALID w, drop (length w) s)
     | None \<Rightarrow> (word_token w, drop (length w) s))"

lemma next_token_shorter: "s \<noteq> [] \<Longrightarrow> \<not> blank (hd s) \<Longrightarrow> next_token s = (t, r) \<Longrightarrow> length r < length s"
  by (cases s) (auto simp: next_token_def Let_def split: option.splits if_splits)

function tokens :: "string \<Rightarrow> token list" where
  "tokens s = (case s of [] \<Rightarrow> []
     | c # cs \<Rightarrow> if blank c then tokens cs
         else if c = CHR ''#'' then tokens (dropWhile (\<lambda>c. c \<noteq> CHR 0x0A) cs)
         else (case next_token (c # cs) of (t, r) \<Rightarrow> t # tokens r))"
  by pat_completeness auto

termination
proof (relation "measure length", goal_cases)
  case (3 s c cs)
  then show ?case using length_dropWhile_le [of "\<lambda>c. c \<noteq> CHR 0x0A" cs] by (simp add: le_imp_less_Suc)
next
  case (4 s c cs p r)
  then show ?case using next_token_shorter [of "c # cs" p r] by simp
qed simp_all

declare tokens.simps [simp del]

subsection \<open>Expressions\<close>

datatype bin_op = Add | Sub | Mul | Div

datatype item = Num int | Bin bin_op | Neg | Paren
  \<comment> \<open>what the stack of the parser holds of a \<open>num_exp\<close>\<close>

datatype failure = Syntax | Fault cxx_error

fun prec :: "bin_op \<Rightarrow> nat" where
  "prec Add = 1" | "prec Sub = 1" | "prec Mul = 2" | "prec Div = 2"

definition int_range :: "int \<Rightarrow> failure + int" where
  \<comment> \<open>an \<open>int\<close> that overflows is undefined\<close>
  "int_range i = (if - (2 ^ 31) \<le> i \<and> i < 2 ^ 31 then Inr i else Inl (Fault Undefined_behaviour))"

definition quotient :: "int \<Rightarrow> int \<Rightarrow> int" where
  \<comment> \<open>towards zero\<close>
  "quotient a b = sgn a * sgn b * (\<bar>a\<bar> div \<bar>b\<bar>)"

fun apply_op :: "bin_op \<Rightarrow> int \<Rightarrow> int \<Rightarrow> failure + int" where
  "apply_op Add a b = int_range (a + b)"
| "apply_op Sub a b = int_range (a - b)"
| "apply_op Mul a b = int_range (a * b)"
| "apply_op Div a b = (if b = 0 then Inl (Fault Undefined_behaviour) else int_range (quotient a b))"

definition fbind :: "failure + 'a \<Rightarrow> ('a \<Rightarrow> failure + 'b) \<Rightarrow> failure + 'b" where
  "fbind r g = (case r of Inl e \<Rightarrow> Inl e | Inr x \<Rightarrow> g x)"

lemma fbind_simps [simp]: "fbind (Inl e) g = Inl e" "fbind (Inr x) g = g x"
  by (simp_all add: fbind_def)

fun reduce :: "nat \<Rightarrow> int \<Rightarrow> item list \<Rightarrow> failure + int \<times> item list" where
  \<comment> \<open>the reductions before a token of precedence \<open>p\<close>, with a number on top of the stack; the rule of the
      sign has the precedence of the minus\<close>
  "reduce p b (Bin x # Num a # st) = (if p \<le> prec x then fbind (apply_op x a b) (\<lambda>v. reduce p v st) else Inr (b, Bin x # Num a # st))"
| "reduce p b (Neg # st) = (if p \<le> 1 then fbind (int_range (- b)) (\<lambda>v. reduce p v st) else Inr (b, Neg # st))"
| "reduce p b st = Inr (b, st)"

fun operator :: "token \<Rightarrow> bin_op option" where
  "operator PLUS = Some Add" | "operator MINUS = Some Sub" | "operator STAR = Some Mul" | "operator SLASH = Some Div"
| "operator t = None"

fun num_exp :: "int option \<Rightarrow> item list \<Rightarrow> token list \<Rightarrow> failure + int \<times> token list" where
  \<comment> \<open>a number on top of the stack or none, the stack below, the tokens; ends before the first token that does
      not belong to the expression\<close>
  "num_exp None st (NUMBER n # ts) = num_exp (Some n) st ts"
| "num_exp None st (LPAREN # ts) = num_exp None (Paren # st) ts"
| "num_exp None st (MINUS # ts) = num_exp None (Neg # st) ts"
| "num_exp None st (THROWS e # ts) = Inl (Fault e)"
| "num_exp None st ts = Inl Syntax"
| "num_exp (Some b) st [] = fbind (reduce 0 b st) (\<lambda>(v, st1). if st1 = [] then Inr (v, []) else Inl Syntax)"
| "num_exp (Some b) st (t # ts) = (case t of INVALID w \<Rightarrow> Inl Syntax | THROWS e \<Rightarrow> Inl (Fault e)
     | _ \<Rightarrow> (case operator t of
         Some x \<Rightarrow> fbind (reduce (prec x) b st) (\<lambda>(v, st1). num_exp None (Bin x # Num v # st1) ts)
       | None \<Rightarrow> fbind (reduce 0 b st) (\<lambda>(v, st1).
           if st1 = [] then Inr (v, t # ts)
           else if t = RPAREN then (case st1 of Paren # st2 \<Rightarrow> num_exp (Some v) st2 ts | _ \<Rightarrow> Inl Syntax)
           else Inl Syntax)))"

subsection \<open>Units\<close>

datatype unit_value = Node_exp int | Reg_exp int int | Command command

fun reg_command :: "int \<Rightarrow> int \<Rightarrow> token list \<Rightarrow> failure + command" where
  \<comment> \<open>what follows node and register\<close>
  "reg_command n r [T_GET] = Inr (Get_reg n r)"
| "reg_command n r (T_SETBIT # ts) = fbind (num_exp None [] ts) (\<lambda>(v, us). if us = [] then Inr (Set_bit n r v) else Inl Syntax)"
| "reg_command n r (T_CLEARBIT # ts) = fbind (num_exp None [] ts) (\<lambda>(v, us). if us = [] then Inr (Clear_bit n r v) else Inl Syntax)"
| "reg_command n r (T_TOGGLEBIT # ts) = fbind (num_exp None [] ts) (\<lambda>(v, us). if us = [] then Inr (Toggle_bit n r v) else Inl Syntax)"
| "reg_command n r (T_SET1 # ts) = fbind (num_exp None [] ts) (\<lambda>(v, us). if us = [] then Inr (Set1_reg n r v) else Inl Syntax)"
| "reg_command n r (T_SET2 # ts) = fbind (num_exp None [] ts) (\<lambda>(v, us). if us = [] then Inr (Set2_reg n r v) else Inl Syntax)"
| "reg_command n r (T_SET3 # ts) = fbind (num_exp None [] ts) (\<lambda>(v, us). if us = [] then Inr (Set3_reg n r v) else Inl Syntax)"
| "reg_command n r (T_SET4 # ts) = fbind (num_exp None [] ts) (\<lambda>(v, us). if us = [] then Inr (Set4_reg n r v) else Inl Syntax)"
| "reg_command n r (T_GET # THROWS e # ts) = Inl (Fault e)"
| "reg_command n r ts = Inl Syntax"

fun parse_unit :: "token list \<Rightarrow> failure + unit_value option" where
  \<comment> \<open>\<open>cli_parser.result\<close> when the parser returns 0\<close>
  "parse_unit [] = Inr None"
| "parse_unit (T_NODE # ts) = fbind (num_exp None [] ts) (\<lambda>(n, us). case us of
       [] \<Rightarrow> Inr (Some (Node_exp n))
     | T_RESTART # vs \<Rightarrow> (case vs of [] \<Rightarrow> Inr (Some (Command (Node_restart n))) | THROWS e # _ \<Rightarrow> Inl (Fault e) | _ \<Rightarrow> Inl Syntax)
     | T_REG # vs \<Rightarrow> fbind (num_exp None [] vs) (\<lambda>(r, ws).
         if ws = [] then Inr (Some (Reg_exp n r)) else fbind (reg_command n r ws) (\<lambda>c. Inr (Some (Command c))))
     | _ \<Rightarrow> Inl Syntax)"
| "parse_unit (THROWS e # ts) = Inl (Fault e)"
| "parse_unit ts = Inl Syntax"

definition parse_line :: "string \<Rightarrow> failure + unit_value option" where
  \<comment> \<open>what \<open>CLIParser::parse\<close> returns, with the \<open>result\<close> when it is 0\<close>
  "parse_line s = parse_unit (tokens s)"

subsection \<open>The objects of a line\<close>

fun reg_objs :: "int \<Rightarrow> int \<Rightarrow> token list \<Rightarrow> unit_value \<times> bool" where
  \<comment> \<open>the last object made, which owns the others, and whether the start symbol was reached with it: a token
      that cannot follow is read before the reductions and rejected after them\<close>
  "reg_objs n r [] = (Reg_exp n r, True)"
| "reg_objs n r (t # ts) = (if t = T_GET then (Command (Get_reg n r), True)
     else case map_of [(T_SETBIT, Set_bit), (T_CLEARBIT, Clear_bit), (T_TOGGLEBIT, Toggle_bit), (T_SET1, Set1_reg),
         (T_SET2, Set2_reg), (T_SET3, Set3_reg), (T_SET4, Set4_reg)] t of
       Some c \<Rightarrow> (case num_exp None [] ts of Inl f \<Rightarrow> (Reg_exp n r, False) | Inr (v, us) \<Rightarrow> (Command (c n r v), True))
     | None \<Rightarrow> (Reg_exp n r, True))"

fun unit_objs :: "token list \<Rightarrow> unit_value option \<times> bool" where
  "unit_objs (T_NODE # ts) = (case num_exp None [] ts of Inl f \<Rightarrow> (None, False)
     | Inr (n, us) \<Rightarrow> (case us of T_RESTART # vs \<Rightarrow> (Some (Command (Node_restart n)), True)
         | T_REG # vs \<Rightarrow> (case num_exp None [] vs of Inl f \<Rightarrow> (Some (Node_exp n), False)
             | Inr (r, ws) \<Rightarrow> map_prod Some (\<lambda>b. b) (reg_objs n r ws))
         | _ \<Rightarrow> (Some (Node_exp n), True)))"
| "unit_objs ts = (None, False)"

definition opt_list :: "'a option \<Rightarrow> 'a list" where
  "opt_list x = (case x of None \<Rightarrow> [] | Some y \<Rightarrow> [y])"

record cli_parser =
  cp_result :: "unit_value option"
  cp_last_match :: "unit_value option"
  cp_deleted :: "unit_value list"

definition new_cli_parser :: cli_parser where
  "new_cli_parser = \<lparr>cp_result = None, cp_last_match = None, cp_deleted = []\<rparr>"

definition clean_up :: "cli_parser \<Rightarrow> cli_parser" where
  \<comment> \<open>also the destructor\<close>
  "clean_up p = (let d1 = (if cp_result p = None then cp_deleted p @ opt_list (cp_last_match p) else cp_deleted p);
       d2 = d1 @ opt_list (cp_result p)
     in \<lparr>cp_result = None, cp_last_match = None, cp_deleted = d2\<rparr>)"

definition cli_parse :: "string \<Rightarrow> cli_parser \<Rightarrow> failure option \<times> cli_parser" where
  \<comment> \<open>\<open>CLIParser::parse\<close>, with the error if it does not return 0\<close>
  "cli_parse s p = (let q = clean_up p; (m, complete) = unit_objs (tokens s)
     in (case parse_line s of Inl e \<Rightarrow> Some e | Inr u \<Rightarrow> None,
         q\<lparr>cp_last_match := m, cp_result := (if complete then m else None)\<rparr>))"

lemma reg_objs_command: "reg_command n r ts = Inr c \<Longrightarrow> reg_objs n r ts = (Command c, True)"
  by (cases "(n, r, ts)" rule: reg_command.cases)
     (auto simp: fbind_def split: sum.splits if_splits prod.splits)

lemma cli_parse_result:
  \<comment> \<open>after a success \<open>result\<close> is what was read\<close>
  assumes "parse_line s = Inr u"
  shows "fst (cli_parse s p) = None \<and> cp_result (snd (cli_parse s p)) = u"
proof -
  have "unit_objs (tokens s) = (u, u \<noteq> None)"
    using assms unfolding parse_line_def
    by (cases "tokens s" rule: parse_unit.cases)
       (auto simp: fbind_def dest!: reg_objs_command split: sum.splits if_splits prod.splits list.splits token.splits)
  then show ?thesis using assms by (auto simp: cli_parse_def Let_def)
qed

lemma cli_objects_deleted:
  \<comment> \<open>the object of each line is deleted once, by the next line or at the end\<close>
  "cp_deleted (clean_up (fold (\<lambda>s p. snd (cli_parse s p)) ls p)) =
     cp_deleted (clean_up p) @ concat (map (\<lambda>s. opt_list (fst (unit_objs (tokens s)))) ls)"
proof (induction ls arbitrary: p)
  case (Cons l ls)
  have "cp_deleted (clean_up (snd (cli_parse l p))) = cp_deleted (clean_up p) @ opt_list (fst (unit_objs (tokens l)))"
    by (auto simp: cli_parse_def clean_up_def opt_list_def Let_def split: prod.split option.split)
  then show ?case using Cons.IH [of "snd (cli_parse l p)"] by simp
qed simp

subsection \<open>Running lines\<close>

datatype ending = Exit_success | Exit_failure | Terminated cxx_error | Waiting

definition exec_unit :: "'n libxml \<Rightarrow> u16 \<Rightarrow> 5 word \<Rightarrow> h9frame list \<Rightarrow> unit_value option \<Rightarrow>
    ('n gmsg list \<times> printed option \<times> bool) res" where
  \<comment> \<open>only commands do something\<close>
  "exec_unit X src sq fs u = (case u of Some (Command c) \<Rightarrow> run_command X src sq fs c | _ \<Rightarrow> Inr ([], None, True))"

definition prepend :: "'m list \<Rightarrow> printed option \<Rightarrow> 'm list \<times> printed list \<times> ending \<times> nat \<Rightarrow>
    'm list \<times> printed list \<times> ending \<times> nat" where
  "prepend ms p r = (case r of (ns, ps, e, k) \<Rightarrow> (ms @ ns, (case p of None \<Rightarrow> ps | Some v \<Rightarrow> v # ps), e, k))"

fun script :: "'n libxml \<Rightarrow> u16 \<Rightarrow> (nat \<Rightarrow> 5 word \<times> h9frame list) \<Rightarrow> string list \<Rightarrow>
    'n gmsg list \<times> printed list \<times> ending \<times> nat" where
  \<comment> \<open>the loop over the lines of a file: messages sent, values printed, how the program ends and the lines not
      freed; \<open>env\<close> gives, for the number of lines that are left, the uninitialised sequence number and the frames received\<close>
  "script X src env [] = ([], [], Exit_success, 0)"
| "script X src env (l # ls) = (case parse_line l of
     Inl Syntax \<Rightarrow> ([], [], Exit_success, 0)
   | Inl (Fault e) \<Rightarrow> ([], [], Terminated e, 1)
   | Inr u \<Rightarrow> (case env (length ls) of (sq, fs) \<Rightarrow> (case exec_unit X src sq fs u of
       Inl e \<Rightarrow> ([], [], Terminated e, 1)
     | Inr (ms, p, returned) \<Rightarrow> if returned then prepend ms p (script X src env ls) else (ms, [], Waiting, 1))))"

fun shell :: "'n libxml \<Rightarrow> u16 \<Rightarrow> (nat \<Rightarrow> 5 word \<times> h9frame list) \<Rightarrow> string list \<Rightarrow>
    'n gmsg list \<times> printed list \<times> ending \<times> nat" where
  \<comment> \<open>the loop over the lines of a terminal\<close>
  "shell X src env [] = ([], [], Exit_success, 0)"
| "shell X src env (l # ls) = (case parse_line l of
     Inl Syntax \<Rightarrow> (case shell X src env ls of (ms, ps, e, k) \<Rightarrow> (ms, ps, e, k + 1))
   | Inl (Fault e) \<Rightarrow> ([], [], Terminated e, 1)
   | Inr u \<Rightarrow> (case env (length ls) of (sq, fs) \<Rightarrow> (case exec_unit X src sq fs u of
       Inl e \<Rightarrow> ([], [], Terminated e, 1)
     | Inr (ms, p, returned) \<Rightarrow> if returned then prepend ms p (shell X src env ls) else (ms, [], Waiting, 1))))"

definition cli_main :: "'n libxml \<Rightarrow> u16 \<Rightarrow> (nat \<Rightarrow> 5 word \<times> h9frame list) \<Rightarrow> string option \<Rightarrow> (string \<Rightarrow> string list option) \<Rightarrow>
    string list \<Rightarrow> 'n gmsg list \<times> printed list \<times> ending \<times> nat" where
  \<comment> \<open>after the connection: the option \<open>h9file\<close>, the files that can be opened, and the lines of the standard input\<close>
  "cli_main X src env h9file files input = (case h9file of
     Some f \<Rightarrow> if f = ''-'' then script X src env input
               else (case files f of None \<Rightarrow> ([], [], Exit_failure, 0) | Some ls \<Rightarrow> script X src env ls)
   | None \<Rightarrow> shell X src env input)"

definition cli_completion :: "string \<Rightarrow> string \<Rightarrow> nat \<Rightarrow> string list res" where
  \<comment> \<open>the line, the word and where it starts\<close>
  "cli_completion buffer word start = (case parse_line (take start buffer) of
     Inl (Fault e) \<Rightarrow> Inl e
   | Inl Syntax \<Rightarrow> Inr []
   | Inr None \<Rightarrow> Inr (completions cli_words word 0)
   | Inr (Some (Node_exp n)) \<Rightarrow> Inr (completions node_words word 0)
   | Inr (Some (Reg_exp n r)) \<Rightarrow> Inr (completions reg_words word 0)
   | Inr (Some (Command c)) \<Rightarrow> Inr [])"

lemma script_stops:
  \<comment> \<open>a file is read up to the first line with an error, and that is a success\<close>
  "parse_line l = Inl Syntax \<Longrightarrow>
    script X src (\<lambda>k. env k) (ls @ l # rest) = script X src (\<lambda>k. env (k + length rest)) (ls @ [l])"
  by (induction ls) (simp_all split: sum.split failure.split prod.split)

lemma shell_ignores:
  \<comment> \<open>a terminal goes on\<close>
  "parse_line l = Inl Syntax \<Longrightarrow> fst (shell X src env (l # ls)) = fst (shell X src env ls)"
  by (simp split: prod.split)

lemma tokens_simps [simp]:
  "tokens [] = []"
  "blank c \<Longrightarrow> tokens (c # cs) = tokens cs"
  by (simp_all add: tokens.simps)


subsection \<open>Expressions as trees\<close>

datatype nexp = Const nat | Op bin_op nexp nexp | Minus nexp

fun eval :: "nexp \<Rightarrow> failure + int" where
  \<comment> \<open>from left to right, with the arithmetic of \<open>int\<close>\<close>
  "eval (Const n) = Inr (int n)"
| "eval (Op x a b) = fbind (eval a) (\<lambda>v. fbind (eval b) (\<lambda>w. apply_op x v w))"
| "eval (Minus a) = fbind (eval a) (\<lambda>v. int_range (- v))"

fun op_token :: "bin_op \<Rightarrow> token" where
  "op_token Add = PLUS" | "op_token Sub = MINUS" | "op_token Mul = STAR" | "op_token Div = SLASH"

fun spelled :: "nat \<Rightarrow> nexp \<Rightarrow> token list" where
  \<comment> \<open>an expression where operators from precedence \<open>p\<close> on may stand without parentheses\<close>
  "spelled p (Const n) = [NUMBER (int n)]"
| "spelled p (Op x a b) = (let ts = spelled (prec x) a @ op_token x # spelled (Suc (prec x)) b
     in if p \<le> prec x then ts else LPAREN # ts @ [RPAREN])"
| "spelled p (Minus a) = (let ts = MINUS # spelled 2 a in if p \<le> 1 then ts else LPAREN # ts @ [RPAREN])"

fun stack_prec :: "item list \<Rightarrow> nat" where
  "stack_prec (Bin x # st) = prec x" | "stack_prec (Neg # st) = 1" | "stack_prec (Paren # st) = 0" | "stack_prec (Num n # st) = 0"
| "stack_prec [] = 0"

definition look :: "token list \<Rightarrow> nat" where
  \<comment> \<open>the precedence of the token that comes\<close>
  "look ts = (case ts of [] \<Rightarrow> 0 | t # _ \<Rightarrow> (case operator t of None \<Rightarrow> 0 | Some x \<Rightarrow> prec x))"

definition no_failure :: "token list \<Rightarrow> bool" where
  "no_failure ts \<longleftrightarrow> (case ts of INVALID w # _ \<Rightarrow> False | THROWS e # _ \<Rightarrow> False | _ \<Rightarrow> True)"

lemma fbind_assoc: "fbind (fbind r g) h = fbind r (\<lambda>x. fbind (g x) h)"
  by (cases r) simp_all

lemma operator_op_token [simp]: "operator (op_token x) = Some x" "op_token x \<noteq> INVALID w" "op_token x \<noteq> THROWS e"
  by (cases x; simp)+

lemma reduce_stops: "stack_prec st < p \<Longrightarrow> reduce p v st = Inr (v, st)"
  by (cases "(p, v, st)" rule: reduce.cases) auto

lemma num_exp_look:
  \<comment> \<open>after a number, only the reductions before the coming token matter\<close>
  assumes "no_failure ts" and "reduce (look ts) b st = fbind r (\<lambda>v. reduce (look ts) v st')"
  shows "num_exp (Some b) st ts = fbind r (\<lambda>v. num_exp (Some v) st' ts)"
proof (cases ts)
  case Nil
  then show ?thesis using assms(2) by (simp add: look_def fbind_assoc)
next
  case (Cons t us)
  then show ?thesis using assms
    by (cases r; cases t) (simp_all add: look_def no_failure_def)
qed

lemma num_exp_operator:
  assumes "stack_prec st < prec x"
  shows "num_exp (Some v) st (op_token x # ts) = num_exp None (Bin x # Num v # st) ts"
proof -
  have "num_exp (Some v) st (op_token x # ts) =
      fbind (reduce (prec x) v st) (\<lambda>(v, st1). num_exp None (Bin x # Num v # st1) ts)"
    by (cases x) simp_all
  then show ?thesis using reduce_stops [OF assms] by simp
qed

lemma num_exp_written:
  "stack_prec st < p \<Longrightarrow> look ts \<le> p \<Longrightarrow> no_failure ts \<Longrightarrow>
   num_exp None st (spelled p e @ ts) = fbind (eval e) (\<lambda>v. num_exp (Some v) st ts)"
proof (induction e arbitrary: p st ts)
  case (Const n)
  then show ?case by simp
next
  case (Op x a b)
  have bare: "num_exp None st (spelled (prec x) a @ op_token x # spelled (Suc (prec x)) b @ ts) =
      fbind (eval (Op x a b)) (\<lambda>v. num_exp (Some v) st ts)"
    if "stack_prec st < prec x" "look ts \<le> prec x" "no_failure ts" for st ts
  proof -
    have a: "num_exp None st (spelled (prec x) a @ op_token x # spelled (Suc (prec x)) b @ ts) =
        fbind (eval a) (\<lambda>v. num_exp (Some v) st (op_token x # spelled (Suc (prec x)) b @ ts))"
      using that(1) by (intro Op.IH(1)) (simp_all add: look_def no_failure_def split: token.split)
    have b: "num_exp None (Bin x # Num v # st) (spelled (Suc (prec x)) b @ ts) =
        fbind (eval b) (\<lambda>w. num_exp (Some w) (Bin x # Num v # st) ts)" for v
      using that(2,3) by (intro Op.IH(2)) simp_all
    have c: "num_exp (Some w) (Bin x # Num v # st) ts = fbind (apply_op x v w) (\<lambda>u. num_exp (Some u) st ts)" for v w
      using that(2,3) by (intro num_exp_look) simp_all
    show ?thesis by (simp only: a num_exp_operator [OF that(1)] b c fbind_assoc eval.simps)
  qed
  show ?case
  proof (cases "p \<le> prec x")
    case True
    then show ?thesis using bare [of st ts] Op.prems by (simp add: Let_def)
  next
    case False
    have "num_exp None (Paren # st) (spelled (prec x) a @ op_token x # spelled (Suc (prec x)) b @ RPAREN # ts) =
        fbind (eval (Op x a b)) (\<lambda>v. num_exp (Some v) (Paren # st) (RPAREN # ts))"
      by (rule bare) (cases x; simp add: look_def no_failure_def)+
    then show ?thesis using False by (simp add: Let_def)
  qed
next
  case (Minus a)
  have bare: "num_exp None (Neg # st) (spelled 2 a @ ts) = fbind (eval (Minus a)) (\<lambda>v. num_exp (Some v) st ts)"
    if "look ts \<le> 1" "no_failure ts" for st ts
  proof -
    have "num_exp None (Neg # st) (spelled 2 a @ ts) = fbind (eval a) (\<lambda>v. num_exp (Some v) (Neg # st) ts)"
      using that by (intro Minus.IH) simp_all
    moreover have "num_exp (Some v) (Neg # st) ts = fbind (int_range (- v)) (\<lambda>u. num_exp (Some u) st ts)" for v
      using that by (intro num_exp_look) simp_all
    ultimately show ?thesis by (simp add: fbind_assoc)
  qed
  show ?case
  proof (cases "p \<le> 1")
    case True
    then show ?thesis using bare [of ts st] Minus.prems by (simp add: Let_def)
  next
    case False
    then show ?thesis using bare [of "RPAREN # ts" "Paren # st"] by (simp add: Let_def look_def no_failure_def)
  qed
qed


subsection \<open>Lines\<close>

definition reg_verbs :: "(token \<times> (int \<Rightarrow> int \<Rightarrow> int \<Rightarrow> command)) list" where
  \<comment> \<open>the commands with a number after the verb\<close>
  "reg_verbs = [(T_SETBIT, Set_bit), (T_CLEARBIT, Clear_bit), (T_TOGGLEBIT, Toggle_bit), (T_SET1, Set1_reg), (T_SET2, Set2_reg),
     (T_SET3, Set3_reg), (T_SET4, Set4_reg)]"

definition token_text :: "token \<Rightarrow> string" where
  "token_text t = (case t of NUMBER n \<Rightarrow> dec_string (nat n) | _ \<Rightarrow> (case find (\<lambda>(w, u). u = t) words of
     Some (w, u) \<Rightarrow> w | None \<Rightarrow> []))"

fun line_text :: "token list \<Rightarrow> string" where
  \<comment> \<open>the tokens with a blank after each\<close>
  "line_text [] = []"
| "line_text (t # ts) = token_text t @ CHR '' '' # line_text ts"

definition plain_token :: "token \<Rightarrow> bool" where
  "plain_token t \<longleftrightarrow> (case t of NUMBER n \<Rightarrow> 0 \<le> n \<and> n < 2 ^ 31 | _ \<Rightarrow> t \<in> snd ` set words)"

definition solid :: "string \<Rightarrow> bool" where
  \<comment> \<open>a run without blanks that is neither a comment nor a string\<close>
  "solid w \<longleftrightarrow> w \<noteq> [] \<and> list_all (\<lambda>c. \<not> blank c) w \<and> hd w \<noteq> CHR ''#'' \<and> hd w \<noteq> CHR 0x22"

lemma takeWhile_solid: "list_all (\<lambda>c. \<not> blank c) w \<Longrightarrow> takeWhile (\<lambda>c. \<not> blank c) (w @ CHR '' '' # s) = w"
  by (induction w) (auto simp: blank_def)

lemma tokens_solid:
  assumes "solid w"
  shows "tokens (w @ CHR '' '' # s) = word_token w # tokens s"
proof -
  obtain c cs where w: "w = c # cs" using assms by (auto simp: solid_def neq_Nil_conv)
  have c: "\<not> blank c" "c \<noteq> CHR ''#''" "c \<noteq> CHR 0x22" using assms by (simp_all add: solid_def w)
  have t: "takeWhile (\<lambda>c. \<not> blank c) (w @ CHR '' '' # s) = w"
    using assms by (intro takeWhile_solid) (simp add: solid_def)
  have q: "quoted (w @ CHR '' '' # s) = None" using c(3) by (simp add: quoted_def w)
  have "next_token (w @ CHR '' '' # s) = (word_token w, CHR '' '' # s)"
    unfolding next_token_def t q by (simp add: Let_def)
  then have "tokens (w @ CHR '' '' # s) = word_token w # tokens (CHR '' '' # s)"
    using c(1,2) unfolding w by (subst tokens.simps) simp
  then show ?thesis by (simp add: blank_def)
qed

lemma words_distinct: "distinct (map fst words)" "distinct (map snd words)"
  by (simp_all add: words_def)

lemma words_plain: "list_all (\<lambda>(w, t). solid w \<and> (\<forall>n. t \<noteq> NUMBER n)) words"
  by (simp add: words_def solid_def blank_def)

lemma find_snd: "distinct (map snd ps) \<Longrightarrow> (w, t) \<in> set ps \<Longrightarrow> find (\<lambda>(v, u). u = t) ps = Some (w, t)"
  by (induction ps) (auto simp: image_iff)

lemma words_solid:
  assumes "(w, t) \<in> set words"
  shows "solid w" "word_token w = t" "token_text t = w"
proof -
  have p: "solid w" "\<And>n. t \<noteq> NUMBER n" using words_plain assms by (auto simp: list_all_iff)
  have m: "map_of words w = Some t" using words_distinct(1) assms by (rule map_of_is_SomeI)
  have f: "find (\<lambda>(v, u). u = t) words = Some (w, t)" using words_distinct(2) assms by (rule find_snd)
  show "solid w" by (rule p(1))
  show "word_token w = t" by (simp add: word_token_def m)
  show "token_text t = w" unfolding token_text_def f using p(2) by (auto split: token.split)
qed

lemma digit_val_other: "digit_val (CHR '' '') = None" "digit_val (CHR 0x09) = None" "digit_val (CHR 0x0A) = None"
  "digit_val (CHR ''#'') = None" "digit_val (CHR 0x22) = None"
  by (simp_all add: digit_val_def)

lemma digits_of_below: "c \<in> set (dec_string n) \<Longrightarrow> \<exists>d < 10. digit_val c = Some d"
proof -
  assume "c \<in> set (dec_string n)"
  then obtain d where "d < 10" "c = digit_char False d" using dec_string_chars by blast
  then show ?thesis using digit_val_char [of d False] by simp
qed

lemma dec_string_solid: "solid (dec_string n)" "digits_below 10 (dec_string n)"
proof -
  have "\<not> blank c \<and> c \<noteq> CHR ''#'' \<and> c \<noteq> CHR 0x22" if "c \<in> set (dec_string n)" for c
    using digits_of_below [OF that] digit_val_other unfolding blank_def by (metis option.distinct(1))
  moreover have "hd (dec_string n) \<in> set (dec_string n)" by simp
  ultimately show "solid (dec_string n)" by (simp add: solid_def list_all_iff)
  show "digits_below 10 (dec_string n)" using digits_of_below by (fastforce simp: digits_below_def list_all_iff)
qed

lemma word_token_number:
  assumes "int n < 2 ^ 31"
  shows "word_token (dec_string n) = NUMBER (int n)"
proof -
  have "list_all (\<lambda>(w, t). \<not> digits_below 10 w) words"
    by (simp add: words_def digits_below_def digit_val_def)
  then have "map_of words (dec_string n) = None"
    using dec_string_solid(2) [of n] by (auto simp: map_of_eq_None_iff list_all_iff)
  moreover have "parse_digits 10 0 (dec_string n) = n"
    using number_of_digits_of [of 10 n] digits_of_less [of 10 _ n]
    by (simp add: dec_string_def parse_digits_chars number_of_digits_def)
  ultimately show ?thesis
    using assms dec_string_solid(2) [of n] by (simp add: word_token_def number_token_def)
qed

lemma tokens_solid_end: "solid w \<Longrightarrow> tokens (w @ CHR '' '' # []) = [word_token w]"
  by (simp add: tokens_solid)

lemma op_text: "\<exists>c. token_text (op_token x) = [c] \<and> c \<in> {CHR ''+'', CHR ''-'', CHR ''*'', CHR ''/''}"
  using words_solid(3) [of "''+''" PLUS] words_solid(3) [of "''-''" MINUS] words_solid(3) [of "''*''" STAR]
    words_solid(3) [of "''/''" SLASH]
  by (cases x) (simp_all add: words_def)

lemma glued_token:
  \<comment> \<open>an operator between two numbers without blanks\<close>
  "word_token (dec_string m @ token_text (op_token x) @ dec_string n) =
     INVALID (dec_string m @ token_text (op_token x) @ dec_string n)" (is "word_token ?w = _")
  "solid (dec_string m @ token_text (op_token x) @ dec_string n)"
proof -
  obtain c where c: "token_text (op_token x) = [c]" "c \<in> {CHR ''+'', CHR ''-'', CHR ''*'', CHR ''/''}"
    using op_text by blast
  have o: "digit_val c = None" "\<not> blank c" "c \<noteq> CHR ''x''" "c \<noteq> CHR ''X''"
    using c(2) by (auto simp: digit_val_def blank_def)
  obtain d ds where d: "dec_string m = d # ds" by (cases "dec_string m") simp_all
  have dv: "\<exists>k < 10. digit_val d = Some k" using digits_of_below [of d m] by (simp add: d)
  have second: "e \<noteq> CHR ''x'' \<and> e \<noteq> CHR ''X''" if "e \<in> set ds \<or> e = c" for e
    using that digits_of_below [of e m] o(3,4) by (auto simp: d digit_val_def)
  have b: "d \<noteq> CHR ''b''" using dv by (auto simp: digit_val_def)
  have "list_all (\<lambda>(w, t). (case w of [] \<Rightarrow> True | a # as \<Rightarrow> as = [] \<or> (case digit_val a of None \<Rightarrow> True | Some k \<Rightarrow> 10 \<le> k))) words"
    by (simp add: words_def digit_val_def)
  then have "map_of words ?w = None"
    using dv by (fastforce simp: map_of_eq_None_iff list_all_iff c(1) d)
  moreover have "\<not> digits_below 10 ?w" using o(1) by (simp add: digits_below_def c(1))
  moreover have "take 1 ?w \<noteq> ''b''" using b by (simp add: d)
  moreover have "take 2 ?w \<noteq> ''0x'' \<and> take 2 ?w \<noteq> ''0X''"
    using second by (cases ds) (auto simp: d c(1) numeral_2_eq_2)
  ultimately show "word_token ?w = INVALID ?w" by (simp add: word_token_def number_token_def)
  show "solid ?w" using dec_string_solid(1) [of m] dec_string_solid(1) [of n] o(2)
    by (simp add: solid_def c(1))
qed

lemma tokens_line_text: "list_all plain_token ts \<Longrightarrow> tokens (line_text ts) = ts"
proof (induction ts)
  case (Cons t ts)
  have "tokens (token_text t @ CHR '' '' # line_text ts) = t # tokens (line_text ts)"
  proof (cases "\<exists>n. t = NUMBER n")
    case True
    then obtain n where n: "t = NUMBER n" "0 \<le> n" "n < 2 ^ 31" using Cons.prems by (auto simp: plain_token_def)
    then have "token_text t = dec_string (nat n)" "word_token (dec_string (nat n)) = t"
      using word_token_number [of "nat n"] by (simp_all add: token_text_def)
    then show ?thesis using tokens_solid [OF dec_string_solid(1) [of "nat n"]] by simp
  next
    case False
    then obtain w where "(w, t) \<in> set words" using Cons.prems by (cases t) (auto simp: plain_token_def)
    then show ?thesis using words_solid [of w t] tokens_solid [of w "line_text ts"] by simp
  qed
  then show ?case using Cons by simp
qed simp

fun small_consts :: "nexp \<Rightarrow> bool" where
  "small_consts (Const n) \<longleftrightarrow> int n < 2 ^ 31"
| "small_consts (Op x a b) \<longleftrightarrow> small_consts a \<and> small_consts b"
| "small_consts (Minus a) \<longleftrightarrow> small_consts a"

lemma plain_words: "t \<in> {T_NODE, T_RESTART, T_REG, T_GET, LPAREN, RPAREN, MINUS} \<Longrightarrow> plain_token t"
  "plain_token (op_token x)" "(t, c) \<in> set reg_verbs \<Longrightarrow> plain_token t"
  by (auto simp: plain_token_def words_def reg_verbs_def) (cases x; simp add: plain_token_def words_def)

lemma plain_spelled: "small_consts e \<Longrightarrow> list_all plain_token (spelled p e)"
  by (induction e arbitrary: p) (auto simp: Let_def plain_words plain_token_def [of "NUMBER _"])

lemma spelled_end:
  \<comment> \<open>an expression before a token that does not continue it\<close>
  assumes "ts = [] \<or> (\<exists>t us. ts = t # us \<and> t \<in> {T_RESTART, T_REG, T_GET} \<union> fst ` set reg_verbs)"
  shows "num_exp None [] (spelled 1 e @ ts) = fbind (eval e) (\<lambda>v. Inr (v, ts))"
proof -
  have "look ts \<le> 1" "no_failure ts" using assms by (auto simp: look_def no_failure_def reg_verbs_def)
  then have "num_exp None [] (spelled 1 e @ ts) = fbind (eval e) (\<lambda>v. num_exp (Some v) [] ts)"
    by (intro num_exp_written) simp_all
  moreover have "num_exp (Some v) [] ts = Inr (v, ts)" for v using assms by (auto simp: reg_verbs_def)
  ultimately show ?thesis by simp
qed

text \<open>
  C27. The language of h9cli means what it says: for all expressions of numbers, operators, signs and
  parentheses (written with the parentheses that the usual precedences need, and a blank after each token),
  the line is read as the command with the values of the expressions, computed from left to right in the
  arithmetic of \<open>int\<close>; a division by zero or an overflow on the way is undefined. Numbers
  and an operator without blanks between them are a syntax error.
\<close>

theorem cli_lines:
  assumes "small_consts en" and "small_consts er" and "small_consts ev"
  shows "(eval en = Inr n \<and> eval er = Inr r \<and> eval ev = Inr v \<longrightarrow>
      (\<forall>(t, c) \<in> set reg_verbs. parse_line (line_text (T_NODE # spelled 1 en @ T_REG # spelled 1 er @ t # spelled 1 ev)) =
        Inr (Some (Command (c n r v)))) \<and>
      parse_line (line_text (T_NODE # spelled 1 en @ T_REG # spelled 1 er @ [T_GET])) = Inr (Some (Command (Get_reg n r))) \<and>
      parse_line (line_text (T_NODE # spelled 1 en @ T_REG # spelled 1 er)) = Inr (Some (Reg_exp n r)) \<and>
      parse_line (line_text (T_NODE # spelled 1 en @ [T_RESTART])) = Inr (Some (Command (Node_restart n))) \<and>
      parse_line (line_text (T_NODE # spelled 1 en)) = Inr (Some (Node_exp n))) \<and>
    (eval en = Inl e \<longrightarrow> parse_line (line_text (T_NODE # spelled 1 en)) = Inl e) \<and>
    parse_line (token_text T_NODE @ '' '' @ dec_string a @ token_text (op_token x) @ dec_string b @ '' '') = Inl Syntax"
proof -
  have l: "parse_line (line_text ts) = parse_unit ts" if "list_all plain_token ts" for ts
    using tokens_line_text [OF that] by (simp add: parse_line_def)
  have verb: "parse_line (line_text (T_NODE # spelled 1 en @ T_REG # spelled 1 er @ t # spelled 1 ev)) = Inr (Some (Command (c n r v)))"
    if val: "eval en = Inr n" "eval er = Inr r" "eval ev = Inr v" and tc: "(t, c) \<in> set reg_verbs" for t c
  proof -
    have "reg_command n r (t # spelled 1 ev) = Inr (c n r v)"
      using tc spelled_end [of "[]" ev] val(3) by (auto simp: reg_verbs_def)
    moreover have t: "t \<in> fst ` set reg_verbs" using tc by force
    ultimately have "parse_unit (T_NODE # spelled 1 en @ T_REG # spelled 1 er @ t # spelled 1 ev) = Inr (Some (Command (c n r v)))"
      using val(1,2) spelled_end [of "T_REG # spelled 1 er @ t # spelled 1 ev" en] spelled_end [of "t # spelled 1 ev" er] by simp
    then show ?thesis using tc plain_words assms plain_spelled by (subst l) simp_all
  qed
  have rest: "parse_line (line_text (T_NODE # spelled 1 en @ T_REG # spelled 1 er @ [T_GET])) = Inr (Some (Command (Get_reg n r)))"
    "parse_line (line_text (T_NODE # spelled 1 en @ T_REG # spelled 1 er)) = Inr (Some (Reg_exp n r))"
    "parse_line (line_text (T_NODE # spelled 1 en @ [T_RESTART])) = Inr (Some (Command (Node_restart n)))"
    "parse_line (line_text (T_NODE # spelled 1 en)) = Inr (Some (Node_exp n))"
    if val: "eval en = Inr n" "eval er = Inr r"
  proof -
    have u: "parse_unit (T_NODE # spelled 1 en @ T_REG # spelled 1 er @ [T_GET]) = Inr (Some (Command (Get_reg n r)))"
      "parse_unit (T_NODE # spelled 1 en @ T_REG # spelled 1 er) = Inr (Some (Reg_exp n r))"
      "parse_unit (T_NODE # spelled 1 en @ [T_RESTART]) = Inr (Some (Command (Node_restart n)))"
      "parse_unit (T_NODE # spelled 1 en) = Inr (Some (Node_exp n))"
      using val spelled_end [of "T_REG # spelled 1 er @ [T_GET]" en] spelled_end [of "[T_GET]" er]
        spelled_end [of "T_REG # spelled 1 er" en] spelled_end [of "[]" er] spelled_end [of "[T_RESTART]" en] spelled_end [of "[]" en]
      by simp_all
    have p: "list_all plain_token (spelled 1 en)" "list_all plain_token (spelled 1 er)" "plain_token T_NODE" "plain_token T_REG"
      "plain_token T_GET" "plain_token T_RESTART" using assms plain_words plain_spelled by simp_all
    show "parse_line (line_text (T_NODE # spelled 1 en @ T_REG # spelled 1 er @ [T_GET])) = Inr (Some (Command (Get_reg n r)))"
      using p by (subst l) (simp_all only: u list_all_append list.pred_inject simp_thms)
    show "parse_line (line_text (T_NODE # spelled 1 en @ T_REG # spelled 1 er)) = Inr (Some (Reg_exp n r))"
      using p by (subst l) (simp_all only: u list_all_append list.pred_inject simp_thms)
    show "parse_line (line_text (T_NODE # spelled 1 en @ [T_RESTART])) = Inr (Some (Command (Node_restart n)))"
      using p by (subst l) (simp_all only: u list_all_append list.pred_inject simp_thms)
    show "parse_line (line_text (T_NODE # spelled 1 en)) = Inr (Some (Node_exp n))"
      using p by (subst l) (simp_all only: u list_all_append list.pred_inject simp_thms)
  qed
  have "parse_line (line_text (T_NODE # spelled 1 en)) = Inl e" if "eval en = Inl e"
  proof -
    have "parse_unit (T_NODE # spelled 1 en) = Inl e" using that spelled_end [of "[]" en] by simp
    then show ?thesis using assms plain_words plain_spelled by (subst l) simp_all
  qed
  moreover have "parse_line (token_text T_NODE @ '' '' @ dec_string a @ token_text (op_token x) @ dec_string b @ '' '') = Inl Syntax"
  proof -
    let ?w = "dec_string a @ token_text (op_token x) @ dec_string b"
    have node: "(''node'', T_NODE) \<in> set words" by (simp add: words_def)
    have "tokens (token_text T_NODE @ '' '' @ ?w @ '' '') = T_NODE # tokens (?w @ '' '')"
      using words_solid [OF node] tokens_solid [of "''node''" "?w @ '' ''"] by simp
    also have "tokens (?w @ '' '') = [INVALID ?w]"
      using glued_token [of a x b] tokens_solid_end [of ?w] by simp
    finally show ?thesis by (simp add: parse_line_def)
  qed
  ultimately show ?thesis using verb rest by blast
qed

theorem cli_lines_witness:
  "(let two = Op Add (Const 1) (Const 1) in
     parse_line (line_text (T_NODE # spelled 1 (Op Mul two (Const 5)) @ T_REG # spelled 1 (Const 7) @
         T_SET1 # spelled 1 (Op Sub (Minus (Const 3)) (Const 4)))) = Inr (Some (Command (Set1_reg 10 7 (- 7)))) \<and>
     spelled 1 (Op Mul two (Const 5)) = [LPAREN, NUMBER 1, PLUS, NUMBER 1, RPAREN, STAR, NUMBER 5])"
proof -
  let ?two = "Op Add (Const 1) (Const 1)"
  have s: "small_consts (Op Mul ?two (Const 5))" "small_consts (Const 7)" "small_consts (Op Sub (Minus (Const 3)) (Const 4))"
    by simp_all
  have e: "eval (Op Mul ?two (Const 5)) = Inr 10" "eval (Const 7) = Inr 7" "eval (Op Sub (Minus (Const 3)) (Const 4)) = Inr (- 7)"
    by (simp_all add: int_range_def)
  have "(T_SET1, Set1_reg) \<in> set reg_verbs" by (simp add: reg_verbs_def)
  then show ?thesis using cli_lines [OF s, of 10 7 "- 7"] e by (fastforce simp: Let_def)
qed

end
