(* ===== verification/H9_Answers.thy ===== *)
theory H9_Answers
  imports H9_Schema H9_Executor
begin

text \<open>
  The other direction of the schema \<open>protocol/h9msg.xsd\<close>: which answers and events of h9d, and which
  statistics of h9bus, are messages the schema allows. Nothing in the two daemons checks what they send, but a
  client that validates, as h9bus does, rejects the others.
\<close>

subsection \<open>Messages with a number and a request\<close>

lemma h9_attrs_set_id:
  assumes "xml_laws X"
  shows "h9_attrs X (doc_root (set_id X i m)) \<longleftrightarrow> i \<noteq> 0 \<and> xname X (doc_root m) = ''h9'' \<and>
    required_attr X (doc_root m) ''version'' (\<lambda>s. s = ''0.0'') \<and>
    optional_attr X (doc_root m) ''request-id'' (between 1 max_id) \<and>
    only_attrs X (doc_root m) [''version'', ''id'', ''request-id'']"
proof -
  have "1 \<le> int (unat i) \<longleftrightarrow> i \<noteq> 0" using unat_gt_0 [of i] by linarith
  moreover have "int (unat i) \<le> max_id" using uint_bounded [of i] by (simp add: max_id_def)
  ultimately show ?thesis using assms
    by (auto simp: h9_attrs_def set_id_def required_attr_def optional_attr_def only_attrs_new split: option.splits)
qed

lemma answer_root:
  assumes "xml_laws X" and "t \<noteq> GENERIC"
  shows "h9_attrs X (doc_root (set_id X i (set_request_id X k (get_msg X t)))) \<longleftrightarrow> i \<noteq> 0 \<and> k \<noteq> 0"
proof -
  have "1 \<le> int (unat k) \<longleftrightarrow> k \<noteq> 0" using unat_gt_0 [of k] by linarith
  moreover have "int (unat k) \<le> max_id" using uint_bounded [of k] by (simp add: max_id_def)
  ultimately show ?thesis using assms
    by (auto simp: h9_attrs_set_id set_request_id_def get_msg_def new_msg_def required_attr_def optional_attr_def
        only_attrs_new)
qed

lemma with_node_request_root [simp]: "doc_root (set_id X i (set_request_id X k (with_node g m))) =
    doc_root (set_id X i (set_request_id X k m))"
  "msg_node (set_request_id X k m) = msg_node m" "msg_node (set_id X i m) = msg_node m"
  "msg_node (with_node g m) = map_option g (msg_node m)"
  by (simp_all add: set_id_def set_request_id_def with_node_def)

lemma valid_answer:
  \<comment> \<open>an answer is allowed when its element is\<close>
  assumes "xml_laws X" and "t \<noteq> GENERIC" and "i \<noteq> 0" and "k \<noteq> 0"
  shows "schema_valid X (set_id X i (set_request_id X k (with_node g (get_msg X t)))) \<longleftrightarrow>
    h9_choice X (g (the (msg_node (get_msg X t))))"
proof -
  obtain n where "msg_node (get_msg X t) = Some n" using assms(2) by (auto simp: get_msg_def new_msg_def)
  then show ?thesis using answer_root [OF assms(1,2), of i k] assms(3,4) by (simp add: schema_valid_def)
qed

subsection \<open>The elements of answers\<close>

definition response_children :: "'n libxml \<Rightarrow> 'n list \<Rightarrow> bool" where
  \<comment> \<open>what the schema allows below a \<open>response\<close>\<close>
  "response_children X cs \<longleftrightarrow> length cs \<le> 1 \<and>
     list_all (\<lambda>c. valuegroup X c \<or> (xname X c = ''error'' \<and> error_t X c)) cs"

lemma fold_array_values:
  assumes "xml_laws X"
  shows "xelems X (fold (array_add_value X) vs a) = xelems X a @ map (xtext_child X ''value'') vs"
    and "xname X (fold (array_add_value X) vs a) = xname X a"
    and "xget_prop X (fold (array_add_value X) vs a) k = xget_prop X a k"
  using assms by (induction vs arbitrary: a) (simp_all add: array_add_value_def)

lemma fold_array_dicts:
  assumes "xml_laws X"
  shows "xelems X (fold (\<lambda>d. array_add_dict X (g d)) ds a) = xelems X a @ map (\<lambda>d. g d (xnew X ''dict'')) ds"
    and "xname X (fold (\<lambda>d. array_add_dict X (g d)) ds a) = xname X a"
    and "xget_prop X (fold (\<lambda>d. array_add_dict X (g d)) ds a) k = xget_prop X a k"
  using assms by (induction ds arbitrary: a) (simp_all add: array_add_dict_def)

lemma value_children:
  assumes "xml_laws X"
  shows "valuegroup X (xnew_prop X (xtext_child X ''value'' v) ''name'' k)"
    and "valuegroup X (fold (array_add_value X) vs (xnew_prop X (xnew X ''array'') ''name'' k))"
  using assms by (auto simp: valuegroup_def value_t_def array_t_def fold_array_values list_all_iff only_attrs_def)

lemma array_of_dicts:
  \<comment> \<open>an array holds values only\<close>
  assumes "xml_laws X" and "\<And>d. xname X (g d (xnew X ''dict'')) = ''dict''"
  shows "valuegroup X (fold (\<lambda>d. array_add_dict X (g d)) ds (xnew_prop X (xnew X ''array'') ''name'' k)) \<longleftrightarrow> ds = []"
  using assms
  by (cases ds) (auto simp: valuegroup_def value_t_def array_t_def fold_array_dicts only_attrs_def array_add_dict_def)

lemma error_child:
  assumes "xml_laws X" and "1 \<le> code"
  shows "error_t X (xnew_prop X (xset_prop X (xnew X ''error'') ''code'' (dec_string code)) ''message'' msg)"
    and "xname X (xnew_prop X (xset_prop X (xnew X ''error'') ''code'' (dec_string code)) ''message'' msg) = ''error''"
  using assms by (simp_all add: error_t_def required_attr_def any_string_def only_attrs_new)

lemma error_valid:
  assumes "xml_laws X" and "i \<noteq> 0" and "k \<noteq> 0"
  shows "schema_valid X (set_id X i (set_request_id X k (error_msg X c msg)))"
proof -
  have "1 \<le> errnum c" by (cases c) simp_all
  moreover have "the (msg_node (get_msg X ERROR_MSG)) = xnew X ''error''" by (simp add: get_msg_def new_msg_def)
  ultimately show ?thesis unfolding error_msg_def using assms(1)
    by (subst valid_answer [OF assms(1) _ assms(2,3)])
       (simp_all add: h9_choice_def error_t_def required_attr_def any_string_def only_attrs_new)
qed


lemma with_node_twice: "with_node g (with_node h m) = with_node (\<lambda>n. g (h n)) m"
  by (simp add: with_node_def option.map_comp comp_def)

definition keeps_attrs :: "'n libxml \<Rightarrow> ('n \<Rightarrow> 'n) \<Rightarrow> bool" where
  \<comment> \<open>a function that only adds children\<close>
  "keeps_attrs X g \<longleftrightarrow> (\<forall>n. xname X (g n) = xname X n \<and> (\<forall>k. xget_prop X (g n) k = xget_prop X n k))"

lemma keeps_attrs_add:
  assumes "xml_laws X"
  shows "keeps_attrs X (\<lambda>n. n)" "keeps_attrs X g \<Longrightarrow> keeps_attrs X (\<lambda>n. dict_add_value X k v (g n))"
    "keeps_attrs X g \<Longrightarrow> keeps_attrs X (\<lambda>n. dict_add_array X k fill (g n))"
    "keeps_attrs X g \<Longrightarrow> keeps_attrs X (\<lambda>n. xadd_child X (g n) c)"
  using assms by (auto simp: keeps_attrs_def dict_add_value_def dict_add_array_def)

lemma response_valid:
  assumes "xml_laws X" and "i \<noteq> 0" and "k \<noteq> 0" and "keeps_attrs X g"
  shows "schema_valid X (set_id X i (set_request_id X k (with_node g (method_response X name)))) \<longleftrightarrow>
    response_children X (xelems X (g (xnew_prop X (xnew X ''response'') ''method'' name)))"
proof -
  let ?n = "xnew_prop X (xnew X ''response'') ''method'' name"
  have n: "the (msg_node (get_msg X METHODRESPONSE)) = xnew X ''response''" by (simp add: get_msg_def new_msg_def)
  have "h9_choice X (g ?n) \<longleftrightarrow> response_children X (xelems X (g ?n))"
    using assms(1,4)
    by (auto simp: h9_choice_def methodresponse_t_def response_children_def required_attr_def optional_attr_def any_string_def
        only_attrs_def keeps_attrs_def)
  then show ?thesis
    unfolding method_response_def set_method_name_def with_node_twice
    by (subst valid_answer [OF assms(1) _ assms(2,3)]) (simp_all add: n)
qed

lemma device_response_valid:
  assumes "xml_laws X" and "i \<noteq> 0" and "k \<noteq> 0" and "keeps_attrs X g" and "unat dev < 512"
  shows "schema_valid X (set_id X i (set_request_id X k (with_node g (device_method_response X dev name)))) \<longleftrightarrow>
    response_children X (xelems X (g (xset_prop X (xnew_prop X (xnew_prop X (xnew X ''response'') ''device-id'' ''0'')
      ''method'' name) ''device-id'' (dec_string (unat dev)))))"
proof -
  let ?n = "xset_prop X (xnew_prop X (xnew_prop X (xnew X ''response'') ''device-id'' ''0'') ''method'' name)
    ''device-id'' (dec_string (unat dev))"
  have n: "the (msg_node (get_msg X DEVICEMETHODRESPONSE)) = xnew_prop X (xnew X ''response'') ''device-id'' ''0''"
    by (simp add: get_msg_def new_msg_def)
  have "int (unat dev) \<le> 511" using assms(5) by linarith
  then have d: "uint dev \<le> 511" by simp
  have "h9_choice X (g ?n) \<longleftrightarrow> response_children X (xelems X (g ?n))"
    using assms(1,4) d
    by (auto simp: h9_choice_def methodresponse_t_def response_children_def required_attr_def optional_attr_def any_string_def
        only_attrs_def keeps_attrs_def)
  then show ?thesis
    unfolding device_method_response_def set_method_name_def with_node_twice
    by (subst valid_answer [OF assms(1) _ assms(2,3)]) (simp_all add: n)
qed


subsection \<open>The answers of h9d\<close>

lemma plain_response_valid:
  assumes "xml_laws X" and "i \<noteq> 0" and "k \<noteq> 0"
  shows "schema_valid X (set_id X i (set_request_id X k (method_response X name)))"
    and "1 \<le> c \<Longrightarrow> schema_valid X (set_id X i (set_request_id X k (method_response_error X name c msg)))"
    and "unat dev < 512 \<Longrightarrow> schema_valid X (set_id X i (set_request_id X k (device_method_response X dev name)))"
    and "unat dev < 512 \<Longrightarrow> 1 \<le> c \<Longrightarrow>
      schema_valid X (set_id X i (set_request_id X k (device_method_response_error X dev name c msg)))"
proof -
  have one: "with_node (\<lambda>n. n) m = m" for m :: "'a gmsg" by (cases m) (simp add: with_node_def option.map_ident)
  note r = response_valid [OF assms] and d = device_response_valid [OF assms]
  note id = keeps_attrs_add(1) [OF assms(1)]
  show "schema_valid X (set_id X i (set_request_id X k (method_response X name)))"
    using r [OF id, of name] assms(1) by (simp add: one response_children_def)
  show "schema_valid X (set_id X i (set_request_id X k (method_response_error X name c msg)))" if "1 \<le> c"
    using r [OF keeps_attrs_add(4) [OF assms(1) id]] error_child [OF assms(1) that] assms(1)
    by (simp add: method_response_error_def add_error_def response_children_def)
  show "schema_valid X (set_id X i (set_request_id X k (device_method_response X dev name)))" if "unat dev < 512"
    using d [OF id that, of name] assms(1) by (simp add: one response_children_def)
  show "schema_valid X (set_id X i (set_request_id X k (device_method_response_error X dev name c msg)))"
    if "unat dev < 512" and "1 \<le> c"
    using d [OF keeps_attrs_add(4) [OF assms(1) id] that(1)] error_child [OF assms(1) that(2)] assms(1)
    by (simp add: device_method_response_error_def add_error_def response_children_def)
qed

lemma two_values_invalid:
  \<comment> \<open>one value is allowed, more are not\<close>
  assumes "xml_laws X" and "i \<noteq> 0" and "k \<noteq> 0" and "keeps_attrs X g"
  shows "\<not> schema_valid X (set_id X i (set_request_id X k
      (add_value X k1 v1 (add_value X k2 v2 (with_node g (method_response X name))))))"
    and "unat dev < 512 \<Longrightarrow> \<not> schema_valid X (set_id X i (set_request_id X k
      (add_value X k1 v1 (add_value X k2 v2 (with_node g (device_method_response X dev name))))))"
proof -
  let ?g = "\<lambda>n. dict_add_value X k1 v1 (dict_add_value X k2 v2 (g n))"
  have a: "keeps_attrs X ?g" using assms(1,4) by (intro keeps_attrs_add)
  have "\<not> response_children X (xelems X (?g n))" for n
    using assms(1) by (simp add: response_children_def dict_add_value_def)
  then show "\<not> schema_valid X (set_id X i (set_request_id X k
      (add_value X k1 v1 (add_value X k2 v2 (with_node g (method_response X name))))))"
    and "unat dev < 512 \<Longrightarrow> \<not> schema_valid X (set_id X i (set_request_id X k
      (add_value X k1 v1 (add_value X k2 v2 (with_node g (device_method_response X dev name))))))"
    using response_valid [OF assms(1-3) a] device_response_valid [OF assms(1-3) a]
    by (simp_all add: add_value_def with_node_twice)
qed

lemma array_response:
  assumes "xml_laws X" and "i \<noteq> 0" and "k \<noteq> 0" and "xname X (fill (xnew_prop X (xnew X ''array'') ''name'' w)) = ''array''"
  shows "schema_valid X (set_id X i (set_request_id X k (with_node (dict_add_array X w fill) (method_response X name)))) \<longleftrightarrow>
      valuegroup X (fill (xnew_prop X (xnew X ''array'') ''name'' w))"
    and "unat dev < 512 \<Longrightarrow>
      schema_valid X (set_id X i (set_request_id X k (with_node (dict_add_array X w fill) (device_method_response X dev name)))) \<longleftrightarrow>
      valuegroup X (fill (xnew_prop X (xnew X ''array'') ''name'' w))"
proof -
  have k: "keeps_attrs X (dict_add_array X w fill)"
    using keeps_attrs_add(3) [OF assms(1) keeps_attrs_add(1) [OF assms(1)]] .
  show "schema_valid X (set_id X i (set_request_id X k (with_node (dict_add_array X w fill) (method_response X name)))) \<longleftrightarrow>
      valuegroup X (fill (xnew_prop X (xnew X ''array'') ''name'' w))"
    using assms(1,4) by (subst response_valid [OF assms(1-3) k]) (simp add: response_children_def dict_add_array_def)
  show "schema_valid X (set_id X i (set_request_id X k (with_node (dict_add_array X w fill) (device_method_response X dev name)))) \<longleftrightarrow>
      valuegroup X (fill (xnew_prop X (xnew X ''array'') ''name'' w))" if "unat dev < 512"
    using assms(1,4) by (subst device_response_valid [OF assms(1-3) k that]) (simp add: response_children_def dict_add_array_def)
qed

lemma values_response:
  assumes "xml_laws X" and "i \<noteq> 0" and "k \<noteq> 0"
  shows "schema_valid X (set_id X i (set_request_id X k
      (with_node (dict_add_array X w (fold (array_add_value X) vs)) (method_response X name))))"
    and "unat dev < 512 \<Longrightarrow> schema_valid X (set_id X i (set_request_id X k
      (with_node (dict_add_array X w (fold (array_add_value X) vs)) (device_method_response X dev name))))"
  using array_response [OF assms, of "fold (array_add_value X) vs" w] value_children(2) [OF assms(1)]
    fold_array_values(2) [OF assms(1)] assms(1) by simp_all

lemma dicts_response:
  assumes "xml_laws X" and "i \<noteq> 0" and "k \<noteq> 0" and "\<And>d. xname X (g d (xnew X ''dict'')) = ''dict''"
  shows "schema_valid X (set_id X i (set_request_id X k
      (with_node (dict_add_array X w (fold (\<lambda>d. array_add_dict X (g d)) ds)) (method_response X name)))) \<longleftrightarrow> ds = []"
    and "unat dev < 512 \<Longrightarrow> schema_valid X (set_id X i (set_request_id X k
      (with_node (dict_add_array X w (fold (\<lambda>d. array_add_dict X (g d)) ds)) (device_method_response X dev name)))) \<longleftrightarrow> ds = []"
  using array_response [OF assms(1-3), of "fold (\<lambda>d. array_add_dict X (g d)) ds" w]
    array_of_dicts [where g = g and ds = ds and k = w, OF assms(1,4)] fold_array_dicts(2) [OF assms(1), of g ds] assms(1) by simp_all

lemma adapter_method_schema:
  assumes "xml_laws (ee_xml env)" and "i \<noteq> 0" and "k \<noteq> 0" and "adapter_method env name m = Inr (Answer r qs, m1)"
  shows "schema_valid (ee_xml env) (set_id (ee_xml env) i (set_request_id (ee_xml env) k r)) \<longleftrightarrow>
    name \<noteq> ''h9d_stat'' \<and> (name = ''devices_list'' \<longrightarrow> get_devices_list m = [])"
proof -
  let ?X = "ee_xml env"
  note X = assms(1-3) and k = keeps_attrs_add [OF assms(1)]
  note a = assms(4) [unfolded adapter_method_def Let_def]
  consider "name = ''methods_list''" | "name = ''h9d_stat''" | "name = ''devices_list''" | "name = ''discover''"
    | "name \<notin> {''methods_list'', ''h9d_stat'', ''devices_list'', ''discover''}" by blast
  then show ?thesis
  proof cases
    case 1
    then have "r = with_node (dict_add_array ?X ''methods'' (fold (array_add_value ?X)
         [''methods_list'', ''h9d_stat'', ''devices_list'', ''discover''])) (method_response ?X name)"
      using a by (simp add: comp_def)
    then show ?thesis using values_response(1) [OF X, of "''methods''"
        "[''methods_list'', ''h9d_stat'', ''devices_list'', ''discover'']" name] 1 by simp
  next
    case 2
    let ?g = "\<lambda>n. dict_add_value ?X ''uptime'' (int_string (ee_uptime env)) (dict_add_value ?X ''version'' (ee_version env) n)"
    have "keeps_attrs ?X ?g" by (intro k)
    from two_values_invalid(1) [OF X this] show ?thesis
      using a 2 by (auto simp: add_value_def with_node_twice)
  next
    case 3
    let ?d = "\<lambda>d n. dict_add_value ?X ''name'' (dc_name d) (dict_add_value ?X ''version'' (version_string d)
           (dict_add_value ?X ''type'' (dec_string (unat (dc_type d)))
             (dict_add_value ?X ''id'' (dec_string (unat (dc_id d))) n)))"
    have "xname ?X (?d d (xnew ?X ''dict'')) = ''dict''" for d using assms(1) by (simp add: dict_add_value_def)
    then show ?thesis using a 3 dicts_response(1) [OF X, of ?d] by auto
  next
    case 4
    then show ?thesis using a plain_response_valid [OF X]
      by (auto simp: executor_discover_def rbind_Inr_iff)
  next
    case 5
    then show ?thesis using a error_valid [OF X] by auto
  qed
qed

lemma executor_answer_schema:
  assumes "xml_laws (ee_xml env)" and "i \<noteq> 0" and "k \<noteq> 0" and "unat dev < 512"
    and "executor_execute_device_method env dev name msg m = Inr (Answer r qs, m1)"
  shows "schema_valid (ee_xml env) (set_id (ee_xml env) i (set_request_id (ee_xml env) k r)) \<longleftrightarrow>
    (name \<in> {''set_register'', ''get_register'', ''info''} \<longrightarrow> error_node (ee_xml env) r \<noteq> None)" (is ?schema)
    and "get_type (ee_xml env) r \<noteq> Inr ERROR_MSG" (is ?type)
proof -
  let ?X = "ee_xml env"
  note X = assms(1-3) and k = keeps_attrs_add [OF assms(1)]
  let ?timeout = "device_method_response_error ?X dev name 102 ''Timeout''"
  have t: "schema_valid ?X (set_id ?X i (set_request_id ?X k ?timeout))" "error_node ?X ?timeout \<noteq> None"
    using plain_response_valid(4) [OF X assms(4)] error_child(2) [OF assms(1), of 102] assms(1)
    by (simp_all add: error_node_def device_method_response_error_def add_error_def device_method_response_def
        set_method_name_def get_msg_def new_msg_def)
  have one: "with_node (\<lambda>n. n) m = m" for m :: "'a gmsg" by (cases m) (simp add: with_node_def option.map_ident)
  have reg: "\<not> schema_valid ?X (set_id ?X i (set_request_id ?X k (register_response ?X dev name n v)))"
    "error_node ?X (register_response ?X dev name n v) = None" for n v
    using two_values_invalid(2) [OF X k(1) assms(4)] assms(1)
    by (simp_all add: register_response_def one error_node_def add_value_def dict_add_value_def device_method_response_def
        set_method_name_def get_msg_def new_msg_def)
  have info: "\<not> schema_valid ?X (set_id ?X i (set_request_id ?X k (info_response env dev d)))"
    "error_node ?X (info_response env dev d) = None" for d
  proof -
    let ?g = "\<lambda>n. dict_add_value ?X ''created_time'' (ee_time env (di_created d)) (dict_add_value ?X ''name'' (dc_name d)
      (dict_add_value ?X ''version'' (version_string d) (dict_add_value ?X ''type'' (dec_string (unat (dc_type d)))
        (dict_add_value ?X ''id'' (dec_string (unat (dc_id d))) n))))"
    have "keeps_attrs ?X ?g" by (intro k)
    from two_values_invalid(2) [OF X this assms(4)]
    show "\<not> schema_valid ?X (set_id ?X i (set_request_id ?X k (info_response env dev d)))"
      by (simp add: info_response_def add_value_def with_node_twice Let_def)
    show "error_node ?X (info_response env dev d) = None"
      using assms(1) by (simp add: info_response_def add_value_def with_node_twice Let_def error_node_def dict_add_value_def
        device_method_response_def set_method_name_def get_msg_def new_msg_def)
  qed
  have plain: "schema_valid ?X (set_id ?X i (set_request_id ?X k (device_method_response ?X dev name)))"
    by (rule plain_response_valid(3) [OF X assms(4)])
  have ty: "get_type ?X ?timeout \<noteq> Inr ERROR_MSG" "get_type ?X (register_response ?X dev name n v) \<noteq> Inr ERROR_MSG"
    "get_type ?X (info_response env dev d) \<noteq> Inr ERROR_MSG" "get_type ?X (device_method_response ?X dev name) \<noteq> Inr ERROR_MSG"
    for n v d
    using assms(1) by (simp_all add: get_type_def device_method_response_error_def add_error_def register_response_def
        info_response_def add_value_def dict_add_value_def device_method_response_def set_method_name_def get_msg_def new_msg_def Let_def)
  consider "name = ''set_register''" | "name = ''get_register''" | "name = ''info''" | "name = ''reset''"
    | "name \<notin> {''set_register'', ''get_register'', ''info'', ''reset''}" by blast
  then have "?schema \<and> ?type"
  proof cases
    case 1
    then have "r = ?timeout \<or> (\<exists>n v. r = register_response ?X dev name n v)" using assms(5)
      by (auto simp: executor_execute_device_method_def Let_def rbind_Inr_iff case_prod_beta split: option.splits if_splits)
    with 1 show ?thesis using t reg ty by auto
  next
    case 2
    then have "r = ?timeout \<or> (\<exists>n v. r = register_response ?X dev name n v)" using assms(5)
      by (auto simp: executor_execute_device_method_def Let_def rbind_Inr_iff case_prod_beta split: option.splits if_splits)
    with 2 show ?thesis using t reg ty by auto
  next
    case 3
    then show ?thesis using assms(5) t info ty
      by (auto simp: executor_execute_device_method_def Let_def split: option.splits)
  next
    case 4
    then have "r = ?timeout \<or> r = device_method_response ?X dev name" using assms(5)
      by (auto simp: executor_execute_device_method_def Let_def rbind_Inr_iff case_prod_beta split: if_splits)
    with 4 show ?thesis using t plain ty by auto
  next
    case 5
    then have "r = device_method_response ?X dev name" using assms(5)
      by (auto simp: executor_execute_device_method_def Let_def rbind_Inr_iff case_prod_beta)
    with 5 show ?thesis using plain ty by simp
  qed
  then show ?schema ?type by auto
qed


lemma error_msg_type [simp]: "xml_laws X \<Longrightarrow> get_type X (error_msg X c t) = Inr ERROR_MSG"
  "xml_laws X \<Longrightarrow> error_node X (error_msg X c t) = None"
  by (simp_all add: get_type_def error_msg_def get_msg_def new_msg_def error_node_def)

definition allowed_answer :: "'n libxml \<Rightarrow> string \<Rightarrow> register_desc list \<Rightarrow> 'n gmsg \<Rightarrow> bool" where
  \<comment> \<open>for the method and the registers of the device: an error, or an answer with at most one value or an array of values\<close>
  "allowed_answer X name rs r \<longleftrightarrow> get_type X r = Inr ERROR_MSG \<or>
     ((name = ''registers_list'' \<longrightarrow> rs = []) \<and>
      (name \<in> {''set_register'', ''get_register'', ''info''} \<longrightarrow> error_node X r \<noteq> None))"

lemma adapter_device_method_schema:
  assumes "xml_laws (ee_xml env)" and "i \<noteq> 0" and "k \<noteq> 0" and "unat dev < 512"
    and "adapter_device_method env cl dev name msg mem m = Inr (Answer r qs, mem1, m1)"
  shows "schema_valid (ee_xml env) (set_id (ee_xml env) i (set_request_id (ee_xml env) k r)) \<longleftrightarrow>
    allowed_answer (ee_xml env) name (dm_registers_list dev m) r"
proof -
  let ?X = "ee_xml env"
  note X = assms(1-3)
  note a = assms(5) [unfolded adapter_device_method_def Let_def]
  note v = plain_response_valid [OF X]
  let ?other = "name \<noteq> ''methods_list'' \<and> name \<noteq> ''events_list'' \<and> name \<noteq> ''registers_list'' \<and> name \<noteq> ''subscribe'' \<and>
    name \<noteq> ''unsubscribe''"
  consider "name = ''methods_list''" | "name = ''events_list''" | "name = ''registers_list''" | "name = ''subscribe''"
    | "name = ''unsubscribe''" | "?other \<and> has_device_specific_method dev name m"
    | "?other \<and> \<not> has_device_specific_method dev name m" by argo
  then show ?thesis
  proof cases
    case 1
    let ?vs = "[''methods_list'', ''events_list'', ''registers_list'', ''subscribe'', ''unsubscribe'', ''reset'']
          @ device_methods_list dev m"
    have "r = with_node (dict_add_array ?X ''methods'' (fold (array_add_value ?X) ?vs)) (device_method_response ?X dev name)"
      using a unfolding 1
      by (simp only: if_True simp_thms sum.inject prod.inject answer.inject) (elim conjE, hypsubst, rule refl)
    then have "schema_valid ?X (set_id ?X i (set_request_id ?X k r))"
      using values_response(2) [OF X assms(4), of "''methods''" ?vs name] by simp
    then show ?thesis using 1 by (simp add: allowed_answer_def)
  next
    case 2
    then show ?thesis using a values_response(2) [OF X assms(4), of "''events''" "dm_events_list dev m" name]
      by (auto simp: allowed_answer_def)
  next
    case 3
    let ?bits = "\<lambda>d n. if rg_bits_names d = [] then n
      else dict_add_array ?X ''bits_names'' (\<lambda>b. fold (array_add_value ?X) (rg_bits_names d) b) n"
    let ?d = "\<lambda>r n. ?bits r (dict_add_value ?X ''description'' (rg_description r)
           (dict_add_value ?X ''writable'' (dec_string (of_bool (rg_writable r)))
             (dict_add_value ?X ''readable'' (dec_string (of_bool (rg_readable r)))
               (dict_add_value ?X ''size'' (int_string (rg_size r))
                 (dict_add_value ?X ''type'' (rg_type r)
                   (dict_add_value ?X ''name'' (rg_name r)
                     (dict_add_value ?X ''register'' (dec_string (unat (rg_number r))) n)))))))"
    have "xname ?X (?d r (xnew ?X ''dict'')) = ''dict''" for r
      using assms(1) by (simp add: dict_add_value_def dict_add_array_def)
    from dicts_response(2) [OF X, of ?d, OF this assms(4)]
    have "schema_valid ?X (set_id ?X i (set_request_id ?X k (with_node (registers_response ?X rs) (device_method_response ?X dev name))))
        \<longleftrightarrow> rs = []" for rs
      by (simp add: registers_response_def Let_def)
    moreover have "get_type ?X (with_node (registers_response ?X rs) (device_method_response ?X dev name)) \<noteq> Inr ERROR_MSG" for rs
      using assms(1) by (simp add: get_type_def registers_response_def dict_add_array_def device_method_response_def
        set_method_name_def get_msg_def new_msg_def)
    ultimately show ?thesis using a 3 by (auto simp: allowed_answer_def)
  next
    case 4
    then show ?thesis using a v
      by (auto simp: allowed_answer_def executor_attach_def rbind_Inr_iff Let_def case_prod_beta)
  next
    case 5
    then show ?thesis using a v
      by (auto simp: allowed_answer_def executor_detach_def rbind_Inr_iff Let_def case_prod_beta)
  next
    case 6
    then have e: "executor_execute_device_method env dev name msg m = Inr (Answer r qs, m1)"
      using a by (auto simp: rbind_Inr_iff)
    show ?thesis using executor_answer_schema [OF X assms(4) e] 6 by (auto simp: allowed_answer_def)
  next
    case 7
    then have "r = error_msg ?X UNSUPPORTED_DEVICE_METHOD
        (''Unsupported device (id: '' @ dec_string (unat dev) @ '') method: '' @ name)"
      using a by (simp only: if_False simp_thms sum.inject prod.inject answer.inject)
    then show ?thesis using error_valid [OF X] assms(1) by (simp add: allowed_answer_def)
  qed
qed


subsection \<open>Events and statistics\<close>

lemma event_schema:
  assumes "xml_laws X" and "i \<noteq> 0" and "unat nid < 512"
  shows "schema_valid X (set_id X i (register_change_event X nid f bs))"
proof -
  have "int (unat nid) \<le> 511" using assms(3) by linarith
  then have n: "uint nid \<le> 511" by simp
  have "h9_attrs X (doc_root (set_id X i (get_msg X DEVICEEVENT)))" by (rule sent_root [OF assms(1,2)]) simp
  then have "h9_attrs X (doc_root (set_id X i (register_change_event X nid f bs)))"
    by (simp add: register_change_event_def add_value_def device_event_def)
  then show ?thesis using assms(1) n value_children(1) [OF assms(1)]
    by (simp add: schema_valid_def h9_choice_def deviceevent_t_def register_change_event_def add_value_def device_event_def
        get_msg_def new_msg_def dict_add_value_def required_attr_def any_string_def only_attrs_new)
qed

lemma stat_schema:
  assumes "xml_laws (he_xml env)" and "get_stat env h = Inr r" and "i \<noteq> 0" and "k \<noteq> 0"
  shows "\<not> schema_valid (he_xml env) (set_id (he_xml env) i (set_request_id (he_xml env) k r))"
proof -
  let ?X = "he_xml env"
  obtain w fill v1 v2 where r: "r = with_node (\<lambda>n. dict_add_array ?X w fill (dict_add_value ?X ''connected_clients_count'' v1
      (dict_add_value ?X ''uptime'' v2 (dict_add_value ?X ''version'' (he_version env) n)))) (method_response ?X ''h9bus_stat'')"
    using assms(2) by (simp add: get_stat_def Let_def add_value_def with_node_twice) (rule that, erule sym)
  have "keeps_attrs ?X (\<lambda>n. dict_add_array ?X w fill (dict_add_value ?X ''connected_clients_count'' v1
      (dict_add_value ?X ''uptime'' v2 (dict_add_value ?X ''version'' (he_version env) n))))"
    by (intro keeps_attrs_add assms(1))
  from response_valid [OF assms(1,3,4) this] show ?thesis
    using assms(1) by (simp add: r response_children_def dict_add_array_def dict_add_value_def)
qed


subsection \<open>Which answers the schema allows\<close>

text \<open>
  C35. What the daemons send and the schema: numbered answers and events of h9d and the statistics of
  h9bus. The schema allows a response with one value, one array of values or one error. Hence it allows the
  events, the errors and the lists of names; it does not allow the statistics of either daemon, the list of
  devices when there is one, the list of registers when there is one, and every answer that gives
  the value of a register or the description of a device.
\<close>

theorem answers_and_schema:
  assumes "xml_laws (ee_xml env)" and "i \<noteq> 0" and "k \<noteq> 0"
    and "get_id (ee_xml env) msg = Inr k" and "get_method_name (ee_xml env) msg = Inr name"
  shows "(adapter_execute_method env msg m = Inr (Answer r qs, m1) \<longrightarrow>
      (schema_valid (ee_xml env) (set_id (ee_xml env) i r) \<longleftrightarrow>
        name \<noteq> ''h9d_stat'' \<and> (name = ''devices_list'' \<longrightarrow> get_devices_list m = []))) \<and>
    (adapter_execute_device_method env cl msg mem m = Inr (Answer r qs, mem1, m1) \<and>
      get_device_id (ee_xml env) msg = Inr dev \<longrightarrow>
      (schema_valid (ee_xml env) (set_id (ee_xml env) i r) \<longleftrightarrow> allowed_answer (ee_xml env) name (dm_registers_list dev m) r)) \<and>
    (unat nid < 512 \<longrightarrow> schema_valid (ee_xml env) (set_id (ee_xml env) i (register_change_event (ee_xml env) nid f bs))) \<and>
    (he_xml hb = ee_xml env \<and> get_stat hb h = Inr s \<longrightarrow>
      \<not> schema_valid (ee_xml env) (set_id (ee_xml env) i (set_request_id (ee_xml env) k s)))"
proof -
  let ?X = "ee_xml env"
  note X = assms(1-3)
  have plain: "schema_valid ?X (set_id ?X i r) \<longleftrightarrow> name \<noteq> ''h9d_stat'' \<and> (name = ''devices_list'' \<longrightarrow> get_devices_list m = [])"
    if c: "adapter_execute_method env msg m = Inr (Answer r qs, m1)"
  proof -
    obtain a m2 where a: "adapter_method env name m = Inr (a, m2)" "with_request_id ?X msg a = Inr (Answer r qs)"
      using c assms(5) by (auto simp: adapter_execute_method_def rbind_Inr_iff)
    then obtain r1 where "a = Answer r1 qs" "r = set_request_id ?X k r1"
      using assms(4) by (cases a) (auto simp: with_request_id_def)
    then show ?thesis using adapter_method_schema [OF X] a(1) by simp
  qed
  have device: "schema_valid ?X (set_id ?X i r) \<longleftrightarrow> allowed_answer ?X name (dm_registers_list dev m) r"
    if c: "adapter_execute_device_method env cl msg mem m = Inr (Answer r qs, mem1, m1)" "get_device_id ?X msg = Inr dev"
  proof -
    let ?body = "if \<not> executor_is_device_exist dev m
            then Inr (Answer (error_msg ?X INVALID_DEVICE (''Invalid device (id: '' @ dec_string (unat dev) @ '')'')) [], mem, m)
            else catch_parameters ?X mem m (adapter_device_method env cl dev name msg mem m)"
    obtain a mem2 m2 where a: "?body = Inr (a, mem2, m2)" "with_request_id ?X msg a = Inr (Answer r qs)"
      using c assms(5) by (auto simp: adapter_execute_device_method_def Let_def rbind_Inr_iff)
    then obtain r1 where r1: "a = Answer r1 qs" "r = set_request_id ?X k r1"
      using assms(4) by (cases a) (auto simp: with_request_id_def)
    have same: "allowed_answer ?X name rs (set_request_id ?X k r1) = allowed_answer ?X name rs r1" for rs
      by (simp add: allowed_answer_def get_type_def error_node_def)
    have err: "schema_valid ?X (set_id ?X i (set_request_id ?X k (error_msg ?X c t)))"
      "allowed_answer ?X name rs (error_msg ?X c t)" for c t rs
      using error_valid [OF X] assms(1) by (simp_all add: allowed_answer_def)
    consider "\<exists>c t. r1 = error_msg ?X c t"
      | "unat dev < 512" "adapter_device_method env cl dev name msg mem m = Inr (Answer r1 qs, mem2, m2)"
      using a(1) r1(1)
      by (auto simp: catch_parameters_def executor_is_device_exist_def BROADCAST_ID_def split: if_splits sum.splits cxx_error.splits)
    then show ?thesis
    proof cases
      case 1
      then show ?thesis using err same r1(2) by auto
    next
      case 2
      then show ?thesis using adapter_device_method_schema [OF X 2] same r1(2) by simp
    qed
  qed
  show ?thesis using plain device event_schema [OF assms(1,2)] stat_schema [of hb h s i k] assms(1-3) by auto
qed


theorem answers_and_schema_witness:
  "(\<exists>r. adapter_execute_method (sample_ex_env []) (sample_call ''h9d_stat'') (sample_devmgr 7) = Inr (Answer r [], sample_devmgr 7) \<and>
      \<not> schema_valid xtree_ops (set_id xtree_ops 5 r)) \<and>
    (\<exists>r m1. adapter_execute_device_method (sample_ex_env []) 8 (sample_call ''subscribe'') [] (sample_devmgr 7) =
      Inr (Answer r [], [(16, ''register_change'')], m1) \<and> schema_valid xtree_ops (set_id xtree_ops 5 r))"
proof -
  let ?env = "sample_ex_env []" and ?m = "sample_devmgr 7"
  have x: "ee_xml ?env = xtree_ops" by (simp add: sample_ex_env_def)
  have e: "executor_is_device_exist 16 ?m"
    by (simp add: executor_is_device_exist_def is_device_exist_def sample_devmgr_def add_device_def new_devmgr_def BROADCAST_ID_def)
  note h = xtree_laws [folded x] sample_call_parts [folded x]
  obtain r where r: "adapter_execute_method ?env (sample_call ''h9d_stat'') ?m = Inr (Answer r [], ?m)"
    by (simp add: adapter_execute_method_def adapter_method_def with_request_id_def x sample_call_parts)
  have "\<not> schema_valid xtree_ops (set_id xtree_ops 5 r)"
    using answers_and_schema [OF h(1) _ _ h(4,3), of 5 "''h9d_stat''" ?m r "[]" ?m] r by (simp add: x)
  moreover obtain s m1 where s: "adapter_execute_device_method ?env 8 (sample_call ''subscribe'') [] ?m =
      Inr (Answer s [], [(16, ''register_change'')], m1)"
    by (simp add: adapter_execute_device_method_def adapter_device_method_def with_request_id_def catch_parameters_def x
        sample_call_parts e executor_attach_def case_prod_beta Let_def)
  moreover have "get_type xtree_ops s \<noteq> Inr ERROR_MSG \<longrightarrow> schema_valid xtree_ops (set_id xtree_ops 5 s)"
    using answers_and_schema [OF h(1) _ _ h(4,3), of 5 "''subscribe''" ?m s "[]" m1 8 "[]" "[(16, ''register_change'')]" 16]
      s sample_call_parts(1) by (simp add: x allowed_answer_def)
  moreover have "get_type xtree_ops s = Inr ERROR_MSG \<longrightarrow> schema_valid xtree_ops (set_id xtree_ops 5 s)"
    using answers_and_schema [OF h(1) _ _ h(4,3), of 5 "''subscribe''" ?m s "[]" m1 8 "[]" "[(16, ''register_change'')]" 16]
      s sample_call_parts(1) by (simp add: x allowed_answer_def)
  ultimately show ?thesis using r by blast
qed

end
