(* ===== verification/H9_Loop.thy ===== *)
theory H9_Loop
  imports H9_SocketMgr H9_Server
begin

text \<open>
  The main loop of h9bus over its TCP connections: \<open>h9bus/socketmgr.cc\<close>, \<open>tcpserver.cc\<close>,
  \<open>servermgr.cc\<close>, \<open>tcpclient.cc\<close> and the sockets they share. H9_Server takes the connections one at a
  time by their descriptors; here the objects have identities (addresses), and three records of a descriptor are
  kept apart as in the code: the number in \<open>SocketMgr::Socket\<close>, which survives the close, the one in
  \<open>H9Socket\<close>, which the close sets to -1, and the key of \<open>tcp_clients\<close>. The endpoints of the bus, which
  H9_Driver models, are among the other descriptors. The result of \<open>select\<close>, the order of the addresses
  and what happens on each socket are inputs.
\<close>

subsection \<open>Operations\<close>

record hub =
  hu_sm :: "nat socketmgr"
  hu_fd :: "nat \<Rightarrow> int"
  hu_conn :: "nat \<Rightarrow> bool"
  hu_sock :: "nat \<Rightarrow> int"
  hu_clients :: "(int \<times> nat) list"
  hu_open :: "int set"
  \<comment> \<open>\<open>Socket::_socket\<close>, \<open>Socket::_connected\<close>, \<open>H9Socket::_socket\<close>, \<open>tcp_clients\<close>; last the
      descriptors the process holds\<close>

definition listener :: nat where
  \<comment> \<open>\<open>tcp_server\<close>\<close>
  "listener = 0"

definition hub_accept :: "bool \<Rightarrow> int \<Rightarrow> nat \<Rightarrow> hub \<Rightarrow> cxx_error option \<times> hub" where
  \<comment> \<open>\<open>ServerMgr::on_new_connection\<close>: the object is made at address \<open>k\<close>. The constructor of \<open>H9MsgSocket\<close> asks for the
      address of the peer; when that fails, it throws although it is \<open>noexcept\<close>\<close>
  "hub_accept peer f k s = (if \<not> peer then (Some Terminate, s\<lparr>hu_open := insert f (hu_open s)\<rparr>) else
     (let s1 = s\<lparr>hu_fd := (hu_fd s)(k := f), hu_conn := (hu_conn s)(k := True), hu_sock := (hu_sock s)(k := f),
                 hu_clients := AList.update f k (hu_clients s), hu_open := insert f (hu_open s)\<rparr>
      in case register_socket (hu_fd s1) k (hu_sm s1) of
           Inl e \<Rightarrow> (Some e, s1)
         | Inr sm \<Rightarrow> (None, s1\<lparr>hu_sm := sm\<rparr>)))"

definition hub_close :: "nat \<Rightarrow> hub \<Rightarrow> hub" where
  \<comment> \<open>\<open>TcpClient::on_close\<close>\<close>
  "hub_close k s = s\<lparr>hu_open := (if hu_sock s k > -1 then hu_open s - {hu_sock s k} else hu_open s),
     hu_sock := (hu_sock s)(k := -1), hu_conn := (hu_conn s)(k := False)\<rparr>"

datatype client_turn =
    Handled "nat list" \<comment> \<open>read without error; the clients found gone while answering\<close>
  | Hung_up
  | Raised cxx_error

record round_env =
  re_listen :: "int + int \<times> nat"
  re_peer :: bool
  re_client :: "nat \<Rightarrow> client_turn"
  \<comment> \<open>the result of \<open>accept\<close> with the address of the new object, or \<open>errno\<close>; whether its peer is still connected\<close>

definition hub_select :: "round_env \<Rightarrow> nat \<Rightarrow> hub \<Rightarrow> cxx_error option \<times> hub" where
  \<comment> \<open>\<open>TcpServer::on_select\<close> and \<open>TcpClient::on_select\<close>: \<open>recv\<close> on the descriptor -1 fails with
      \<open>EBADF\<close>\<close>
  "hub_select env k s =
     (if k = listener then
        (case re_listen env of Inl e \<Rightarrow> (Some (System_error e), s) | Inr (f, j) \<Rightarrow> hub_accept (re_peer env) f j s)
      else if hu_sock s k < 0 then (Some (System_error EBADF), s)
      else (case re_client env k of
          Handled cs \<Rightarrow> (None, fold hub_close (filter (\<lambda>j. j \<in> snd ` set (hu_clients s)) cs) s)
        | Hung_up \<Rightarrow> (Some Close_socket, s)
        | Raised e \<Rightarrow> (Some e, s)))"

fun hub_flush :: "(int \<times> nat) list \<Rightarrow> hub \<Rightarrow> hub" where
  \<comment> \<open>\<open>ServerMgr::flush_clients\<close>\<close>
  "hub_flush [] s = s"
| "hub_flush ((f, k) # cs) s =
     (if \<not> hu_conn s k then
        hub_flush cs (s\<lparr>hu_sm := unregister_socket (hu_fd s) k (hu_sm s),
                        hu_clients := AList.delete f (hu_clients s)\<rparr>)
      else hub_flush cs s)"

definition hub_round :: "round_env \<Rightarrow> select_result \<Rightarrow> nat list \<Rightarrow> hub \<Rightarrow> cxx_error option \<times> hub" where
  \<comment> \<open>a turn of the main loop\<close>
  "hub_round env = select_round hu_fd (hub_select env) hub_close (\<lambda>s. s) (\<lambda>s. hub_flush (hu_clients s) s)"

subsection \<open>Invariant\<close>

definition hub_mid :: "int set \<Rightarrow> hub \<Rightarrow> bool" where
  \<comment> \<open>\<open>oth\<close>: the descriptors of the process that are not connections of clients or the listener\<close>
  "hub_mid oth s \<longleftrightarrow> (let C = hu_clients s; l = hu_fd s listener in
     distinct (map fst C) \<and> distinct (map snd C) \<and> listener \<notin> snd ` set C \<and>
     set (sm_set (hu_sm s)) = insert listener (snd ` set C) \<and>
     0 < l \<and> l \<notin> oth \<and>
     (\<forall>(f, k) \<in> set C. hu_fd s k = f \<and> 0 < f \<and> f \<notin> oth \<and> f \<noteq> l \<and> hu_sock s k = (if hu_conn s k then f else -1)) \<and>
     hu_open s = insert l (oth \<union> {f. \<exists>k. (f, k) \<in> set C \<and> hu_conn s k}) \<and>
     watched (hu_fd s, hu_sm s))"

definition hub_ok :: "int set \<Rightarrow> hub \<Rightarrow> bool" where
  "hub_ok oth s \<longleftrightarrow> hub_mid oth s \<and> (\<forall>(f, k) \<in> set (hu_clients s). hu_conn s k)"

lemma keys_unique:
  assumes "distinct (map fst C)" and "distinct (map snd C)" and "(f, k) \<in> set C" and "(g, j) \<in> set C"
  shows "f = g \<longleftrightarrow> k = j"
proof
  show "f = g \<Longrightarrow> k = j" using assms by (meson eq_key_imp_eq_value)
  show "k = j \<Longrightarrow> f = g" using inj_onD [OF conjunct2 [OF assms(2) [unfolded distinct_map]] _ assms(3,4)] by simp
qed

lemma hub_midD:
  assumes "hub_mid oth s"
  shows "distinct (map fst (hu_clients s))" "distinct (map snd (hu_clients s))" "listener \<notin> snd ` set (hu_clients s)"
    "set (sm_set (hu_sm s)) = insert listener (snd ` set (hu_clients s))" "0 < hu_fd s listener" "hu_fd s listener \<notin> oth"
    "watched (hu_fd s, hu_sm s)"
    "hu_open s = insert (hu_fd s listener) (oth \<union> {f. \<exists>k. (f, k) \<in> set (hu_clients s) \<and> hu_conn s k})"
    "\<And>f k. (f, k) \<in> set (hu_clients s) \<Longrightarrow> hu_fd s k = f \<and> 0 < f \<and> f \<notin> oth \<and> f \<noteq> hu_fd s listener \<and>
      hu_sock s k = (if hu_conn s k then f else -1)"
  using assms unfolding hub_mid_def Let_def by blast+

lemma hub_midI:
  assumes "distinct (map fst (hu_clients s))" and "distinct (map snd (hu_clients s))"
    and "listener \<notin> snd ` set (hu_clients s)"
    and "set (sm_set (hu_sm s)) = insert listener (snd ` set (hu_clients s))"
    and "0 < hu_fd s listener" and "hu_fd s listener \<notin> oth" and "watched (hu_fd s, hu_sm s)"
    and "hu_open s = insert (hu_fd s listener) (oth \<union> {f. \<exists>k. (f, k) \<in> set (hu_clients s) \<and> hu_conn s k})"
    and "\<And>f k. (f, k) \<in> set (hu_clients s) \<Longrightarrow> hu_fd s k = f \<and> 0 < f \<and> f \<notin> oth \<and> f \<noteq> hu_fd s listener \<and>
      hu_sock s k = (if hu_conn s k then f else -1)"
  shows "hub_mid oth s"
  unfolding hub_mid_def Let_def using assms by blast

lemma hub_close_mid:
  assumes "hub_mid oth s" and "k \<in> snd ` set (hu_clients s)"
  shows "hub_mid oth (hub_close k s)"
proof -
  note d = hub_midD [OF assms(1)]
  obtain f where f: "(f, k) \<in> set (hu_clients s)" using assms(2) by force
  note uniq = keys_unique [OF d(1,2) f]
  have "f \<notin> oth" "f \<noteq> hu_fd s listener" "hu_sock s k = (if hu_conn s k then f else -1)" "0 < f" using d(9) [OF f] by auto
  then have "hu_open (hub_close k s) = insert (hu_fd s listener) (oth \<union> {g. \<exists>j. (g, j) \<in> set (hu_clients s) \<and> j \<noteq> k \<and> hu_conn s j})"
    using uniq by (auto simp: hub_close_def d(8))
  moreover have "k \<noteq> listener" using assms(2) d(3) by blast
  ultimately show ?thesis
    by (intro hub_midI) (use d in \<open>auto simp: hub_close_def\<close>)
qed

lemma update_fresh: "f \<notin> fst ` set C \<Longrightarrow> AList.update f k C = C @ [(f, k)]"
  by (induction C) auto

lemma set_update: "distinct (map fst C) \<Longrightarrow> set (AList.update f k C) = insert (f, k) {p \<in> set C. fst p \<noteq> f}"
  by (induction C) (auto simp: rev_image_eqI)

lemma hub_accept_mid:
  assumes "hub_mid oth s" and "0 < f" and "f \<notin> oth" and "f \<noteq> hu_fd s listener" and "f \<notin> fst ` set (hu_clients s)"
    and "k \<notin> set (sm_set (hu_sm s))"
  shows "\<exists>s'. hub_accept True f k s = (None, s') \<and> hub_mid oth s' \<and> hu_clients s' = hu_clients s @ [(f, k)] \<and>
    hu_fd s' = (hu_fd s)(k := f) \<and> hu_conn s' = (hu_conn s)(k := True)"
proof -
  note d = hub_midD [OF assms(1)]
  let ?fd = "(hu_fd s)(k := f)"
  obtain sm where sm: "register_socket ?fd k (hu_sm s) = Inr sm" "sm_set sm = sm_set (hu_sm s) @ [k]"
    using assms(2,6) by (simp add: register_socket_def)
  have w: "watched (?fd, sm)" by (rule watched_register [OF d(7) assms(6) sm(1)])
  have k: "k \<noteq> listener" "\<And>g. (g, k) \<notin> set (hu_clients s)" using assms(6) d(4) by force+
  define s' where "s' = s\<lparr>hu_fd := ?fd, hu_conn := (hu_conn s)(k := True), hu_sock := (hu_sock s)(k := f),
    hu_clients := hu_clients s @ [(f, k)], hu_open := insert f (hu_open s), hu_sm := sm\<rparr>"
  have "hub_accept True f k s = (None, s')"
    using sm(1) by (simp add: hub_accept_def s'_def update_fresh [OF assms(5)] Let_def)
  moreover have "hub_mid oth s'"
  proof (rule hub_midI)
    have "hu_open s' = insert f (hu_open s)" by (simp add: s'_def)
    also have "\<dots> = insert (hu_fd s listener) (oth \<union> {g. \<exists>j. (g, j) \<in> set (hu_clients s @ [(f, k)]) \<and> ((hu_conn s)(k := True)) j})"
      using k(2) unfolding d(8) by (auto, metis)
    finally show "hu_open s' = insert (hu_fd s' listener) (oth \<union> {f. \<exists>k. (f, k) \<in> set (hu_clients s') \<and> hu_conn s' k})"
      using k(1) by (simp add: s'_def)
    show "hu_fd s' j = g \<and> 0 < g \<and> g \<notin> oth \<and> g \<noteq> hu_fd s' listener \<and> hu_sock s' j = (if hu_conn s' j then g else -1)"
      if "(g, j) \<in> set (hu_clients s')" for g j
    proof (cases "j = k")
      case True
      then show ?thesis using that k assms(2-4) by (auto simp: s'_def)
    next
      case False
      then have "(g, j) \<in> set (hu_clients s)" using that by (auto simp: s'_def)
      from d(9) [OF this] show ?thesis using False k(1) by (auto simp: s'_def)
    qed
  qed (use d w k sm(2) assms(2-6) in \<open>auto simp: s'_def\<close>)
  ultimately show ?thesis by (auto simp: s'_def)
qed

lemma hub_forget_mid:
  assumes "hub_mid oth s" and "(f, k) \<in> set (hu_clients s)" and "\<not> hu_conn s k"
  shows "hub_mid oth (s\<lparr>hu_sm := unregister_socket (hu_fd s) k (hu_sm s), hu_clients := AList.delete f (hu_clients s)\<rparr>)"
proof -
  note d = hub_midD [OF assms(1)]
  note uniq = keys_unique [OF d(1,2) assms(2)]
  have fk: "hu_fd s k = f" "0 < f" "f \<noteq> hu_fd s listener" using d(9) [OF assms(2)] by auto
  have c: "AList.delete f (hu_clients s) = filter (\<lambda>p. fst p \<noteq> f) (hu_clients s)"
    by (simp add: AList.delete_eq case_prod_beta' neq_commute)
  have other: "hu_fd s j \<noteq> hu_fd s k" if "j \<in> set (sm_set (hu_sm s))" "j \<noteq> k" for j
  proof -
    from that(1) d(4) consider "j = listener" | g where "(g, j) \<in> set (hu_clients s)" by force
    then show ?thesis
      by cases (use fk uniq d(9) that(2) in auto)
  qed
  have w: "watched (hu_fd s, unregister_socket (hu_fd s) k (hu_sm s))"
    by (rule watched_unregister [OF d(7)]) (use other in blast)
  have set: "set (sm_set (unregister_socket (hu_fd s) k (hu_sm s))) = set (sm_set (hu_sm s)) - {k}"
    using fk by (simp add: unregister_socket_def Let_def)
  have kl: "k \<noteq> listener" using assms(2) d(3) by force
  have snds: "snd ` {p \<in> set (hu_clients s). fst p \<noteq> f} = snd ` set (hu_clients s) - {k}"
    using uniq assms(2) by force
  show ?thesis
  proof (rule hub_midI, goal_cases)
    case 4
    then show ?case using set d(4) snds kl by (auto simp: c)
  next
    case 8
    have "{g. \<exists>j. (g, j) \<in> set (hu_clients s) \<and> hu_conn s j} = {g. \<exists>j. (g, j) \<in> set (hu_clients s) \<and> g \<noteq> f \<and> hu_conn s j}"
      using uniq assms(3) by auto
    then show ?case using d(8) by (simp add: c)
  next
    case (9 g j)
    then have "(g, j) \<in> set (hu_clients s)" by (simp add: c)
    from d(9) [OF this] show ?case by simp
  qed (use d w snds in \<open>auto simp: c distinct_map_filter\<close>)
qed

lemma hub_flush_frame:
  "hu_fd (hub_flush cs s) = hu_fd s" "hu_conn (hub_flush cs s) = hu_conn s" "hu_open (hub_flush cs s) = hu_open s"
  by (induction cs s rule: hub_flush.induct) simp_all

lemma hub_flush_mid:
  assumes "hub_mid oth s" and "set cs \<subseteq> set (hu_clients s)" and "distinct (map fst cs)"
  shows "hub_mid oth (hub_flush cs s) \<and>
    set (hu_clients (hub_flush cs s)) = {(f, k) \<in> set (hu_clients s). (f, k) \<in> set cs \<longrightarrow> hu_conn s k}"
  using assms
proof (induction cs s rule: hub_flush.induct)
  case (1 s)
  then show ?case by auto
next
  case (2 f k cs s)
  note d = hub_midD [OF 2(3)]
  show ?case
  proof (cases "hu_conn s k")
    case True
    then show ?thesis using 2 by auto
  next
    case False
    let ?s = "s\<lparr>hu_sm := unregister_socket (hu_fd s) k (hu_sm s), hu_clients := AList.delete f (hu_clients s)\<rparr>"
    have c: "set (AList.delete f (hu_clients s)) = {p \<in> set (hu_clients s). fst p \<noteq> f}"
      by (auto simp: AList.delete_eq)
    have "set cs \<subseteq> set (hu_clients ?s)" using 2(4,5) c by force
    with 2(1) [OF False hub_forget_mid [OF 2(3) _ False]] 2(4,5) have
      "hub_mid oth (hub_flush cs ?s)" "set (hu_clients (hub_flush cs ?s)) = {(f, k) \<in> set (hu_clients ?s). (f, k) \<in> set cs \<longrightarrow> hu_conn ?s k}"
      by auto
    moreover have "(g, j) \<in> set (hu_clients s) \<Longrightarrow> g = f \<longleftrightarrow> j = k" for g j
      using keys_unique [OF d(1,2), of f k g j] 2(4) by auto
    ultimately show ?thesis using False c 2(4) by auto
  qed
qed

lemma hub_flush_ok:
  assumes "hub_mid oth s"
  shows "hub_ok oth (hub_flush (hu_clients s) s) \<and>
    set (hu_clients (hub_flush (hu_clients s) s)) = {(f, k) \<in> set (hu_clients s). hu_conn s k}"
  using hub_flush_mid [OF assms order_refl] hub_midD(1) [OF assms]
  by (auto simp: hub_ok_def hub_flush_frame)

lemma hub_closes_mid:
  assumes "hub_mid oth s" and "set cs \<subseteq> snd ` set (hu_clients s)"
  shows "hub_mid oth (fold hub_close cs s) \<and> hu_clients (fold hub_close cs s) = hu_clients s \<and>
    hu_fd (fold hub_close cs s) = hu_fd s \<and> hu_sm (fold hub_close cs s) = hu_sm s \<and>
    (\<forall>k. hu_conn (fold hub_close cs s) k \<longleftrightarrow> hu_conn s k \<and> k \<notin> set cs)"
  using assms
proof (induction cs arbitrary: s)
  case (Cons c cs)
  have "hub_mid oth (hub_close c s)" using Cons.prems by (intro hub_close_mid) auto
  from Cons.IH [OF this] Cons.prems(2) show ?case by (auto simp: hub_close_def)
qed simp

subsection \<open>Turns of a round\<close>

definition kills :: "round_env \<Rightarrow> nat \<Rightarrow> nat \<Rightarrow> bool" where
  \<comment> \<open>answering client \<open>i\<close>, the daemon finds client \<open>k\<close> gone and closes it\<close>
  "kills env i k \<longleftrightarrow> i \<noteq> listener \<and> k \<noteq> listener \<and> (case re_client env i of Handled cs \<Rightarrow> k \<in> set cs | _ \<Rightarrow> False)"

definition hub_turn :: "round_env \<Rightarrow> nat \<Rightarrow> hub \<Rightarrow> cxx_error option \<times> hub" where
  "hub_turn env k s = (case hub_select env k s of
     (Some Close_socket, s1) \<Rightarrow> (None, hub_close k s1) | r \<Rightarrow> r)"

definition hub_visit :: "round_env \<Rightarrow> int set \<Rightarrow> nat list \<Rightarrow> hub \<Rightarrow> cxx_error option \<times> hub" where
  "hub_visit env ready = dispatch_ready hu_fd (hub_select env) hub_close ready"

lemma hub_visit_simps [simp]:
  "hub_visit env ready [] s = (None, s)"
  "hub_visit env ready (k # ks) s = (if hu_fd s k \<in> ready then
     (case hub_turn env k s of (None, s1) \<Rightarrow> hub_visit env ready ks s1 | (Some e, s1) \<Rightarrow> (Some e, s1))
   else hub_visit env ready ks s)"
  by (auto simp: hub_visit_def hub_turn_def split: option.splits cxx_error.splits prod.splits)

definition calm :: "round_env \<Rightarrow> int set \<Rightarrow> hub \<Rightarrow> bool" where
  \<comment> \<open>\<open>accept\<close> succeeds with a descriptor nobody had and an object of its own; no other error\<close>
  "calm env oth s \<longleftrightarrow> (case re_listen env of Inl e \<Rightarrow> False | Inr (f, j) \<Rightarrow>
     0 < f \<and> f \<notin> oth \<and> f \<noteq> hu_fd s listener \<and> f \<notin> fst ` set (hu_clients s) \<and> j \<notin> set (sm_set (hu_sm s)) \<and>
     (\<forall>i. \<not> kills env i j)) \<and> re_peer env \<and> (\<forall>k e. re_client env k \<noteq> Raised e)"

lemma listener_turn:
  assumes "hub_mid oth s" and "calm env oth s" and "re_listen env = Inr (f, j)"
  shows "\<exists>s'. hub_turn env listener s = (None, s') \<and> hub_mid oth s' \<and> hu_clients s' = hu_clients s @ [(f, j)] \<and>
    hu_fd s' = (hu_fd s)(j := f) \<and> hu_conn s' = (hu_conn s)(j := True)"
  using hub_accept_mid [OF assms(1), of f j] assms(2,3)
  by (force simp: calm_def hub_turn_def hub_select_def)

lemma client_turn:
  assumes "hub_mid oth s" and "\<forall>k e. re_client env k \<noteq> Raised e" and "k \<in> snd ` set (hu_clients s)" and "hu_conn s k"
  shows "\<exists>s'. hub_turn env k s = (None, s') \<and> hub_mid oth s' \<and> hu_clients s' = hu_clients s \<and> hu_fd s' = hu_fd s \<and>
    hu_sm s' = hu_sm s \<and> (\<forall>j. j \<in> snd ` set (hu_clients s) \<longrightarrow>
      (hu_conn s' j \<longleftrightarrow> hu_conn s j \<and> \<not> kills env k j \<and> \<not> (j = k \<and> re_client env k = Hung_up)))"
proof -
  note d = hub_midD [OF assms(1)]
  obtain g where "(g, k) \<in> set (hu_clients s)" using assms(3) by force
  then have k: "k \<noteq> listener" "0 < hu_sock s k" "snd (g, k) \<in> snd ` set (hu_clients s)"
    using d(3,9) assms(4) by force+
  show ?thesis
  proof (cases "re_client env k")
    case (Handled cs)
    let ?cs = "filter (\<lambda>j. j \<in> snd ` set (hu_clients s)) cs"
    have "hub_turn env k s = (None, fold hub_close ?cs s)" using k Handled by (simp add: hub_turn_def hub_select_def)
    moreover have "j \<noteq> listener" if "j \<in> snd ` set (hu_clients s)" for j using that d(3) by blast
    ultimately show ?thesis using hub_closes_mid [OF assms(1), of ?cs] k(1) Handled
      by (auto simp: kills_def)
  next
    case Hung_up
    then have "hub_turn env k s = (None, hub_close k s)" using k by (simp add: hub_turn_def hub_select_def)
    then show ?thesis using hub_close_mid [OF assms(1,3)] Hung_up by (auto simp: kills_def hub_close_def)
  next
    case (Raised e)
    then show ?thesis using assms(2) by blast
  qed
qed

lemma dead_turn:
  assumes "hu_sock s k < 0" and "k \<noteq> listener"
  shows "hub_turn env k s = (Some (System_error EBADF), s)"
  using assms by (simp add: hub_turn_def hub_select_def)

definition turns_of :: "int set \<Rightarrow> hub \<Rightarrow> nat list \<Rightarrow> nat list" where
  \<comment> \<open>the sockets of the list that are ready\<close>
  "turns_of ready s ks = filter (\<lambda>k. hu_fd s k \<in> ready) ks"

definition undisturbed :: "round_env \<Rightarrow> nat list \<Rightarrow> bool" where
  \<comment> \<open>no client is found gone before its own turn\<close>
  "undisturbed env ks \<longleftrightarrow> sorted_wrt (\<lambda>i k. \<not> kills env i k) ks"

definition visited :: "round_env \<Rightarrow> int set \<Rightarrow> nat list \<Rightarrow> int set \<Rightarrow> hub \<Rightarrow> hub \<Rightarrow> bool" where
  \<comment> \<open>the outcome of the loop over the ready sockets\<close>
  "visited env ready ks oth s s' \<longleftrightarrow> (let R = turns_of ready s ks in
     hub_mid oth s' \<and>
     (\<exists>f j. re_listen env = Inr (f, j) \<and> (listener \<in> set R \<longrightarrow> hu_conn s' j) \<and>
       hu_clients s' = hu_clients s @ (if listener \<in> set R then [(f, j)] else [])) \<and>
     (\<forall>k \<in> snd ` set (hu_clients s). hu_conn s' k \<longleftrightarrow>
       hu_conn s k \<and> (\<forall>i \<in> set R. \<not> kills env i k) \<and> \<not> (k \<in> set R \<and> re_client env k = Hung_up)))"

lemma hub_visit_round:
  assumes "hub_mid oth s" and "\<forall>k e. re_client env k \<noteq> Raised e" and "distinct ks" and "set ks \<subseteq> set (sm_set (hu_sm s))"
    and "re_listen env = Inr (f, j)" and "\<forall>i. \<not> kills env i j" and "j \<notin> set ks" and "listener \<in> set ks \<longrightarrow> calm env oth s"
  shows "if (\<forall>k \<in> set (turns_of ready s ks). k \<noteq> listener \<longrightarrow> hu_conn s k) \<and> undisturbed env (turns_of ready s ks)
    then \<exists>s'. hub_visit env ready ks s = (None, s') \<and> visited env ready ks oth s s'
    else \<exists>s'. hub_visit env ready ks s = (Some (System_error EBADF), s')"
  using assms
proof (induction ks arbitrary: s)
  case Nil
  then show ?case by (simp add: turns_of_def undisturbed_def visited_def)
next
  case (Cons k ks)
  note d = hub_midD [OF Cons.prems(1)]
  show ?case
  proof (cases "hu_fd s k \<in> ready")
    case False
    then have R: "turns_of ready s (k # ks) = turns_of ready s ks" by (simp add: turns_of_def)
    then have "visited env ready (k # ks) oth s = visited env ready ks oth s" by (simp add: visited_def fun_eq_iff)
    then show ?thesis using Cons.IH [of s] Cons.prems False by (simp add: R)
  next
    case ready: True
    then have R: "turns_of ready s (k # ks) = k # turns_of ready s ks" by (simp add: turns_of_def)
    show ?thesis
    proof (cases "k = listener")
      case True
      then have c: "calm env oth s" using Cons.prems(8) by simp
      obtain s1 where s1: "hub_turn env k s = (None, s1)" "hub_mid oth s1" "hu_clients s1 = hu_clients s @ [(f, j)]"
        "hu_fd s1 = (hu_fd s)(j := f)" "hu_conn s1 = (hu_conn s)(j := True)"
        using listener_turn [OF Cons.prems(1) c Cons.prems(5)] True by blast
      have R1: "turns_of ready s1 ks = turns_of ready s ks"
        using Cons.prems(7) by (auto simp: turns_of_def s1(4) intro!: filter_cong)
      have l: "listener \<notin> set ks" using Cons.prems(3) True by simp
      have "set ks \<subseteq> insert listener (snd ` set (hu_clients s))" using Cons.prems(4) unfolding d(4) by simp
      then have "set ks \<subseteq> set (sm_set (hu_sm s1))" unfolding hub_midD(4) [OF s1(2)] s1(3) by auto
      from Cons.IH [OF s1(2) Cons.prems(2) _ this Cons.prems(5,6)] Cons.prems(3,7) l
      have IH: "if (\<forall>k \<in> set (turns_of ready s ks). k \<noteq> listener \<longrightarrow> hu_conn s1 k) \<and> undisturbed env (turns_of ready s ks)
        then \<exists>s'. hub_visit env ready ks s1 = (None, s') \<and> visited env ready ks oth s1 s'
        else \<exists>s'. hub_visit env ready ks s1 = (Some (System_error EBADF), s')"
        by (simp add: R1 s1(5))
      have live: "(\<forall>k \<in> set (turns_of ready s ks). k \<noteq> listener \<longrightarrow> hu_conn s1 k) \<longleftrightarrow>
          (\<forall>k \<in> set (turns_of ready s ks). k \<noteq> listener \<longrightarrow> hu_conn s k)"
        using Cons.prems(7) by (auto simp: s1(5) turns_of_def)
      have und: "undisturbed env (k # turns_of ready s ks) \<longleftrightarrow> undisturbed env (turns_of ready s ks)"
        using True by (simp add: undisturbed_def kills_def)
      have v: "visited env ready (k # ks) oth s s'" if "visited env ready ks oth s1 s'" for s'
      proof -
        have "listener \<notin> set (turns_of ready s ks)" using l by (simp add: turns_of_def)
        moreover have "j \<notin> snd ` set (hu_clients s)" using c Cons.prems(5) d(4) by (auto simp: calm_def)
        moreover have "(a, listener) \<notin> set (hu_clients s)" for a using d(3) by force
        moreover have "\<not> kills env k i" for i using True by (simp add: kills_def)
        moreover have "j \<notin> set (turns_of ready s ks)" using Cons.prems(7) by (simp add: turns_of_def)
        ultimately show ?thesis using that True Cons.prems(5,6) R
          by (auto simp: visited_def Let_def R1 s1(3,5) d(3))
      qed
      show ?thesis using IH v s1(1) ready True unfolding R list.set(2) ball_simps und live
        by (auto split: if_splits)
    next
      case False
      then have kc: "k \<in> snd ` set (hu_clients s)" using Cons.prems(4) d(4) by auto
      show ?thesis
      proof (cases "hu_conn s k")
        case dead: False
        obtain g where g: "(g, k) \<in> set (hu_clients s)" using kc by force
        have "hu_sock s k < 0" using d(9) [OF g] dead by simp
        then show ?thesis using dead_turn [of s k env] False ready R dead by auto
      next
        case True
        obtain s1 where s1: "hub_turn env k s = (None, s1)" "hub_mid oth s1" "hu_clients s1 = hu_clients s"
          "hu_fd s1 = hu_fd s" "hu_sm s1 = hu_sm s"
          "\<And>i. i \<in> snd ` set (hu_clients s) \<Longrightarrow>
            hu_conn s1 i \<longleftrightarrow> hu_conn s i \<and> \<not> kills env k i \<and> \<not> (i = k \<and> re_client env k = Hung_up)"
          using client_turn [OF Cons.prems(1,2) kc True] by blast
        have R1: "turns_of ready s1 ks = turns_of ready s ks" by (simp add: turns_of_def s1(4))
        have "calm env oth s1 = calm env oth s" unfolding calm_def s1(3-5) by (rule refl)
        then have "listener \<in> set ks \<longrightarrow> calm env oth s1" using Cons.prems(8) by simp
        then have IH: "if (\<forall>k \<in> set (turns_of ready s ks). k \<noteq> listener \<longrightarrow> hu_conn s1 k) \<and> undisturbed env (turns_of ready s ks)
          then \<exists>s'. hub_visit env ready ks s1 = (None, s') \<and> visited env ready ks oth s1 s'
          else \<exists>s'. hub_visit env ready ks s1 = (Some (System_error EBADF), s')"
          using Cons.IH [OF s1(2) Cons.prems(2) _ _ Cons.prems(5,6)] Cons.prems(3,4,7) by (simp add: R1 s1(5))
        have cl: "i \<in> snd ` set (hu_clients s)" "i \<noteq> k" if "i \<in> set (turns_of ready s ks)" "i \<noteq> listener" for i
          using that Cons.prems(3,4) d(4) by (auto simp: turns_of_def)
        have live: "(\<forall>i \<in> set (turns_of ready s ks). i \<noteq> listener \<longrightarrow> hu_conn s1 i) \<and> undisturbed env (turns_of ready s ks) \<longleftrightarrow>
            (\<forall>i \<in> set (k # turns_of ready s ks). i \<noteq> listener \<longrightarrow> hu_conn s i) \<and> undisturbed env (k # turns_of ready s ks)"
          using cl s1(6) True by (auto simp: undisturbed_def kills_def)
        have v: "visited env ready (k # ks) oth s s'" if "visited env ready ks oth s1 s'" for s'
        proof -
          have "k \<notin> set (turns_of ready s ks)" using Cons.prems(3) by (simp add: turns_of_def)
          then show ?thesis using that False s1(6) unfolding visited_def Let_def R R1 s1(3) by auto
        qed
        show ?thesis using IH v s1(1) ready unfolding R live by (auto split: if_splits)
      qed
    qed
  qed
qed

lemma hub_round_ready:
  "hub_round env (Select_ready ready) ks s = (case hub_visit env ready ks s of
     (None, s1) \<Rightarrow> (None, hub_flush (hu_clients s1) s1) | (Some e, s1) \<Rightarrow> (Some e, s1))"
  by (simp add: hub_round_def select_round_def hub_visit_def)

subsection \<open>Properties\<close>


text \<open>
  The other way in which a closed socket is read: client \<open>k\<close> hangs up before the listener's turn, and
  the kernel gives its number to the new connection. The entry of \<open>k\<close> in \<open>tcp_clients\<close> is overwritten, so \<open>k\<close> is
  never unregistered, and the first turn in which that number is ready again ends the daemon, whatever the new
  client did.
\<close>

lemma dead_socket_ends:
  assumes "hu_sock s k < 0" and "k \<noteq> listener" and "hu_fd s k \<in> ready" and "k \<in> set ks"
    and "\<forall>f j. re_listen env = Inr (f, j) \<longrightarrow> j \<noteq> k"
  shows "\<exists>e s'. hub_visit env ready ks s = (Some e, s')"
  using assms(1,3,4)
proof (induction ks arbitrary: s)
  case (Cons i ks)
  have keep: "hu_sock (fold hub_close cs s1) k < 0 \<and> hu_fd (fold hub_close cs s1) k = hu_fd s1 k"
    if "hu_sock s1 k < 0" for cs s1
    using that by (induction cs arbitrary: s1) (auto simp: hub_close_def)
  have close: "hu_sock (hub_close c s1) k < 0 \<and> hu_fd (hub_close c s1) k = hu_fd s1 k" if "hu_sock s1 k < 0" for c s1
    using that by (simp add: hub_close_def)
  have acc: "hu_sock s1 k = hu_sock s k \<and> hu_fd s1 k = hu_fd s k" if "hub_accept p f j s = (e, s1)" "j \<noteq> k" for p f j e s1
    using that by (auto simp: hub_accept_def Let_def split: sum.splits if_splits)
  have turn: "hu_sock s1 k < 0 \<and> hu_fd s1 k = hu_fd s k" if "hub_turn env i s = (None, s1)" for s1
    using that Cons.prems(1) keep close acc assms(5)
    by (auto simp: hub_turn_def hub_select_def split: if_splits sum.splits prod.splits client_turn.splits option.splits cxx_error.splits)
  show ?case
  proof (cases "i = k")
    case True
    then show ?thesis using dead_turn [OF Cons.prems(1) assms(2), of env] Cons.prems(2) by simp
  next
    case False
    show ?thesis
    proof (cases "hub_turn env i s")
      case (Pair e s1)
      show ?thesis
      proof (cases "e = None \<and> hu_fd s i \<in> ready")
        case True
        then have "hu_sock s1 k < 0" "hu_fd s1 k = hu_fd s k" using turn Pair by auto
        then show ?thesis using Cons.IH [of s1] Cons.prems False True Pair by auto
      next
        case c: False
        then show ?thesis using Cons.IH [of s] Cons.prems False Pair by (cases e) auto
      qed
    qed
  qed
qed simp

theorem reused_descriptor_ends_daemon:
  assumes "hub_ok oth s" and "(f, k) \<in> set (hu_clients s)" and "re_client env k = Hung_up"
    and "re_listen env = Inr (f, j)" and "re_peer env" and "j \<notin> set (sm_set (hu_sm s))" and "f \<in> ready"
    and "\<forall>f' j'. re_listen env' = Inr (f', j') \<longrightarrow> j' \<noteq> k" and "k \<in> set ks'"
  shows "\<exists>s'. hub_round env (Select_ready {f, hu_fd s listener}) [k, listener] s = (None, s') \<and>
    (f, j) \<in> set (hu_clients s') \<and> k \<notin> snd ` set (hu_clients s') \<and> k \<in> set (sm_set (hu_sm s')) \<and>
    (\<exists>e t. hub_round env' (Select_ready ready) ks' s' = (Some e, t))"
proof -
  have mid: "hub_mid oth s" and conn: "\<And>g i. (g, i) \<in> set (hu_clients s) \<Longrightarrow> hu_conn s i"
    using assms(1) by (auto simp: hub_ok_def)
  note d = hub_midD [OF mid]
  note uniq = keys_unique [OF d(1,2) assms(2)]
  have k: "hu_fd s k = f" "0 < f" "f \<noteq> hu_fd s listener" "hu_sock s k = f" "k \<noteq> listener" "k \<noteq> j"
    using d(3) d(9) [of f k] assms(2,6) conn [OF assms(2)] d(4) by force+
  have jl: "j \<noteq> listener" using assms(6) d(4) by auto
  let ?s1 = "hub_close k s"
  have t1: "hub_turn env k s = (None, ?s1)" using k assms(3) by (simp add: hub_turn_def hub_select_def)
  have s1: "hu_fd ?s1 = hu_fd s" "hu_clients ?s1 = hu_clients s" "hu_sm ?s1 = hu_sm s" "hu_sock ?s1 k = -1"
    by (simp_all add: hub_close_def)
  obtain sm where sm: "register_socket ((hu_fd s)(j := f)) j (hu_sm s) = Inr sm" "sm_set sm = sm_set (hu_sm s) @ [j]"
    using k(2) assms(6) by (simp add: register_socket_def)
  obtain s2 where s2: "hub_accept True f j ?s1 = (None, s2)" "hu_clients s2 = AList.update f j (hu_clients s)" "hu_sm s2 = sm"
    "hu_fd s2 = (hu_fd s)(j := f)" "hu_conn s2 = (hu_conn ?s1)(j := True)" "hu_sock s2 k = -1"
    using sm(1) s1 k(6) by (simp add: hub_accept_def Let_def)
  have t2: "hub_turn env listener ?s1 = (None, s2)" using s2(1) assms(4,5) by (simp add: hub_turn_def hub_select_def)
  have c2: "(g, i) \<in> set (hu_clients s2) \<longleftrightarrow> (g, i) = (f, j) \<or> (g, i) \<in> set (hu_clients s) \<and> i \<noteq> k" for g i
    using uniq [of g i] unfolding s2(2) set_update [OF d(1)] by auto
  have alive: "hu_conn s2 i" if "(g, i) \<in> set (hu_clients s2)" for g i
    using that c2 conn by (auto simp: s2(5) hub_close_def)
  have keep: "hub_flush cs s2 = s2" if "set cs \<subseteq> set (hu_clients s2)" for cs
    using that alive by (induction cs) auto
  have "hub_round env (Select_ready {f, hu_fd s listener}) [k, listener] s = (None, s2)"
    using t1 t2 k s1 by (simp add: hub_round_ready keep)
  moreover have "k \<notin> snd ` set (hu_clients s2)" "(f, j) \<in> set (hu_clients s2)" using c2 k(6) by force+
  moreover have "k \<in> set (sm_set (hu_sm s2))" using assms(2) d(4) sm(2) by (force simp: s2(3))
  moreover have "\<exists>e t. hub_round env' (Select_ready ready) ks' s2 = (Some e, t)"
    using dead_socket_ends [of s2 k ready ks' env'] s2(4,6) k assms(7-9) by (auto simp: hub_round_ready)
  ultimately show ?thesis by blast
qed

subsection \<open>Witnesses\<close>

definition sample_hub :: hub where
  "sample_hub = \<lparr>hu_sm = \<lparr>sm_set = [0, 1, 2], sm_max = 6, sm_fds = {4, 5, 6}\<rparr>,
     hu_fd = (\<lambda>k. int k + 4), hu_conn = (\<lambda>_. True), hu_sock = (\<lambda>k. int k + 4), hu_clients = [(5, 1), (6, 2)],
     hu_open = {3, 4, 5, 6}\<rparr>"

lemma sample_hub_ok: "hub_ok {3} sample_hub"
proof -
  have "hub_mid {3} sample_hub"
    by (rule hub_midI) (auto simp: sample_hub_def listener_def watched_def)
  then show ?thesis by (simp add: hub_ok_def sample_hub_def)
qed


end
