(* ===== verification/H9_Mains.thy ===== *)
theory H9_Mains
  imports H9_Tools H9_Fwu H9_Session
begin

text \<open>
  The \<open>main\<close> functions of the clients \<open>h9send\<close>, \<open>h9sniffer\<close>, \<open>h9stat\<close> and \<open>h9fwu\<close>: options, the connection,
  what is sent and received over it in order, and how the program ends. The results of the system calls and
  the messages that arrive are inputs; the parts inside the loops are those of H9_Tools and H9_Fwu, the
  connection is that of H9_Session. (\<open>main\<close> of h9cli is in H9_Parse.)
\<close>

subsection \<open>Programs over a connection\<close>

datatype exit_status =
    Exit int
  | Uncaught cxx_error \<comment> \<open>an exception leaves \<open>main\<close>\<close>
  | Running \<comment> \<open>in the loop when the inputs are used up\<close>

record net_env =
  ne_connect :: "int \<times> int"
  ne_auth :: "int \<times> int"
  ne_send :: "nat \<Rightarrow> int \<times> int"
  \<comment> \<open>result and \<open>errno\<close> of connecting, of the first message and of the send after so many messages\<close>

definition connect_or_exit ::
  "'n libxml \<Rightarrow> net_env \<Rightarrow> string \<Rightarrow> exit_status option \<times> 'n connector" where
  \<comment> \<open>the \<open>try\<close> block of all tools: both exceptions of \<open>connect\<close> end in \<open>exit(EXIT_FAILURE)\<close>\<close>
  "connect_or_exit X env app = (case connector_connect X (ne_connect env) (ne_auth env) app new_connector of
     (Inl (System_error e), c) \<Rightarrow> (Some (Exit 1), c)
   | (Inl (Runtime_error t), c) \<Rightarrow> (Some (Exit 1), c)
   | (Inl e, c) \<Rightarrow> (Some (Uncaught e), c)
   | (Inr u, c) \<Rightarrow> (None, c))"

definition tool_send :: "'n libxml \<Rightarrow> net_env \<Rightarrow> 'n gmsg \<Rightarrow> 'n connector \<Rightarrow> cxx_error option \<times> 'n connector" where
  \<comment> \<open>\<open>h9_connector.send(...)\<close>\<close>
  "tool_send X env m c = (case connector_send X (ne_send env (length (cn_out c))) m c of
     (Inl e, c1) \<Rightarrow> (Some e, c1) | (Inr i, c1) \<Rightarrow> (None, c1))"

definition after_sending ::
  "cxx_error option \<times> 'n connector \<Rightarrow> ('n connector \<Rightarrow> exit_status \<times> 'n connector) \<Rightarrow> exit_status \<times> 'n connector" where
  "after_sending r go = (case r of (Some e, c) \<Rightarrow> (Uncaught e, c) | (None, c) \<Rightarrow> go c)"

definition event_subscription :: "'n libxml \<Rightarrow> 'n gmsg" where
  \<comment> \<open>\<open>ExecuteMethodMsg("subscribe").add_value("event", "frame")\<close>\<close>
  "event_subscription X = add_value X ''event'' ''frame'' (execute_method_msg X ''subscribe'')"

subsection \<open>h9send\<close>

fun send_repeatedly :: "'n libxml \<Rightarrow> net_env \<Rightarrow> 'n gmsg \<Rightarrow> nat \<Rightarrow> 'n connector \<Rightarrow> exit_status \<times> 'n connector" where
  \<comment> \<open>the first turns of the endless loop\<close>
  "send_repeatedly X env m 0 c = (Running, c)"
| "send_repeatedly X env m (Suc k) c = after_sending (tool_send X env m c) (send_repeatedly X env m k)"

definition send_main ::
  "'n libxml \<Rightarrow> net_env \<Rightarrow> send_options \<Rightarrow> u16 \<Rightarrow> h9frame \<Rightarrow> nat \<Rightarrow> exit_status \<times> 'n connector" where
  "send_main X env opts dflt f0 k = (case send_frame_of opts dflt f0 of
     Inl e \<Rightarrow> (Uncaught e, new_connector)
   | Inr f \<Rightarrow> (case connect_or_exit X env ''h9send'' of (Some e, c) \<Rightarrow> (e, c) | (None, c) \<Rightarrow>
       (case send_frame_msg X f of
         Inl e \<Rightarrow> (Uncaught e, c)
       | Inr m \<Rightarrow> (case so_repeat opts of
           Some t \<Rightarrow> send_repeatedly X env m k c
         | None \<Rightarrow> after_sending (tool_send X env m c) (\<lambda>c1. (Exit 0, c1))))))"

subsection \<open>h9sniffer\<close>

fun sniff_loop :: "'n libxml \<Rightarrow> nat \<Rightarrow> 'n msg_recv res list \<Rightarrow> string \<times> exit_status" where
  \<comment> \<open>the text printed, and the end\<close>
  "sniff_loop X mode [] = ([], Running)"
| "sniff_loop X mode (r # rs) = (case connector_recv r of
     Inl e \<Rightarrow> ([], Uncaught e)
   | Inr m \<Rightarrow> (case sniff_msg X mode m of
       Inl e \<Rightarrow> ([], Uncaught e)
     | Inr s \<Rightarrow> (case sniff_loop X mode rs of (t, e) \<Rightarrow> (s @ t, e))))"

definition csv_header :: string where
  "csv_header = ''source_id,destination_id,priority,type,seqnum,dlc,data'' @ [CHR 0x0A]"

definition sniffer_main ::
  "'n libxml \<Rightarrow> net_env \<Rightarrow> nat \<Rightarrow> nat \<Rightarrow> 'n msg_recv res list \<Rightarrow> string \<times> exit_status \<times> 'n connector" where
  \<comment> \<open>the counts of the options \<open>simple\<close> and \<open>extended\<close>\<close>
  "sniffer_main X env simple extended rs = (case connect_or_exit X env ''h9sniffer'' of
     (Some e, c) \<Rightarrow> ([], e, c)
   | (None, c) \<Rightarrow> (case tool_send X env (event_subscription X) c of
       (Some e, c1) \<Rightarrow> ([], Uncaught e, c1)
     | (None, c1) \<Rightarrow> (let mode = output_mode simple extended; (t, e) = sniff_loop X mode rs
         in ((if mode = 0 then csv_header else []) @ t, e, c1))))"

subsection \<open>h9stat\<close>

fun stat_loop ::
  "'n libxml \<Rightarrow> net_env \<Rightarrow> 'n msg_recv res list \<Rightarrow> stat_state \<Rightarrow> 'n connector \<Rightarrow> stat_report list \<times> exit_status \<times> 'n connector" where
  \<comment> \<open>one request for each answer; with no answer left it waits in \<open>recv\<close>\<close>
  "stat_loop X env rs s c = (case tool_send X env (execute_method_msg X ''h9bus_stat'') c of
     (Some e, c1) \<Rightarrow> ([], Uncaught e, c1)
   | (None, c1) \<Rightarrow> (case rs of
       [] \<Rightarrow> ([], Running, c1)
     | r # rs1 \<Rightarrow> (case connector_recv r of
         Inl e \<Rightarrow> ([], Uncaught e, c1)
       | Inr m \<Rightarrow> (case stat_turn X m s of
           Inl e \<Rightarrow> ([], Uncaught e, c1)
         | Inr None \<Rightarrow> ([], Exit 1, c1)
         | Inr (Some (p, s1)) \<Rightarrow> (case stat_loop X env rs1 s1 c1 of (ps, e, c2) \<Rightarrow> (p # ps, e, c2))))))"

declare stat_loop.simps [simp del]

definition stat_main :: "'n libxml \<Rightarrow> net_env \<Rightarrow> 'n msg_recv res list \<Rightarrow> stat_report list \<times> exit_status \<times> 'n connector" where
  "stat_main X env rs = (case connect_or_exit X env ''h9stat'' of
     (Some e, c) \<Rightarrow> ([], e, c)
   | (None, c) \<Rightarrow> stat_loop X env rs \<lparr>st_uptime = 0, st_sent = 0, st_received = 0\<rparr> c)"

subsection \<open>h9fwu\<close>

record fwu_options =
  fo_src_id :: "u16 option"
  fo_dst_id :: "u16 option"
  fo_noupgrade :: bool
  fo_ihex :: "string list option option"
  \<comment> \<open>the argument: absent, a file that cannot be opened, or its lines\<close>

fun send_frames :: "'n libxml \<Rightarrow> net_env \<Rightarrow> h9frame list \<Rightarrow> 'n connector \<Rightarrow> cxx_error option \<times> 'n connector" where
  "send_frames X env [] c = (None, c)"
| "send_frames X env (f # fs) c = (case send_frame_msg X f of
     Inl e \<Rightarrow> (Some e, c)
   | Inr m \<Rightarrow> (case tool_send X env m c of (Some e, c1) \<Rightarrow> (Some e, c1) | (None, c1) \<Rightarrow> send_frames X env fs c1))"

fun fwu_loop ::
  "'n libxml \<Rightarrow> net_env \<Rightarrow> (nat \<Rightarrow> u8) \<Rightarrow> nat \<Rightarrow> 'n msg_recv res list \<Rightarrow> upload \<Rightarrow> 'n connector \<Rightarrow> exit_status \<times> 'n connector" where
  \<comment> \<open>messages that are not frames are passed over; the frames of a turn are sent, then \<open>exit\<close> after the quit frame\<close>
  "fwu_loop X env fw n [] s c = (Running, c)"
| "fwu_loop X env fw n (r # rs) s c = (case connector_recv r of
     Inl e \<Rightarrow> (Uncaught e, c)
   | Inr m \<Rightarrow> (case get_type X m of
       Inl e \<Rightarrow> (Uncaught e, c)
     | Inr ty \<Rightarrow> if ty \<noteq> FRAME then fwu_loop X env fw n rs s c else (case get_frame X m of
         Inl e \<Rightarrow> (Uncaught e, c)
       | Inr f \<Rightarrow> (case upload_recv fw n f s of
           Inl e \<Rightarrow> (Uncaught e, c)
         | Inr s1 \<Rightarrow> after_sending (send_frames X env (drop (length (up_sent s)) (up_sent s1)) c) (\<lambda>c1.
             if up_done s1 then (Exit 0, c1) else fwu_loop X env fw n rs s1 c1)))))"

definition fwu_main ::
  "'n libxml \<Rightarrow> net_env \<Rightarrow> fwu_options \<Rightarrow> u16 \<Rightarrow> 5 word \<Rightarrow> 'n msg_recv res list \<Rightarrow> exit_status \<times> 'n connector" where
  \<comment> \<open>with the default source of the configuration and the uninitialised bits of the frame\<close>
  "fwu_main X env opts dflt sq rs = (
     if fo_src_id opts = None \<and> (dflt = 0 \<or> unat dflt = BROADCAST_ID) then (Exit 1, new_connector)
     else (case fo_dst_id opts of None \<Rightarrow> (Exit 1, new_connector) | Some dst \<Rightarrow>
       (case fo_ihex opts of None \<Rightarrow> (Exit 1, new_connector) | Some None \<Rightarrow> (Exit 1, new_connector) | Some (Some ls) \<Rightarrow>
         (case read_ihex ls empty_image of Inl e \<Rightarrow> (Uncaught e, new_connector) | Inr im \<Rightarrow>
           (case connect_or_exit X env ''h9fwu'' of (Some e, c) \<Rightarrow> (e, c) | (None, c) \<Rightarrow>
             after_sending (tool_send X env (event_subscription X) c) (\<lambda>c1.
               let s = upload_start (fo_noupgrade opts) (case fo_src_id opts of Some i \<Rightarrow> i | None \<Rightarrow> dflt) dst sq
               in after_sending (send_frames X env (up_sent s) c1)
                    (fwu_loop X env (im_mem im) (im_len im) rs s)))))))"

subsection \<open>Connections that hold\<close>

definition sending :: "net_env \<Rightarrow> bool" where
  "sending env \<longleftrightarrow> 0 \<le> fst (ne_connect env) \<and> 0 < fst (ne_auth env) \<and> (\<forall>k. 0 < fst (ne_send env k))"

definition sent_over :: "'n libxml \<Rightarrow> 'n gmsg list \<Rightarrow> 'n connector" where
  \<comment> \<open>the connection over which these messages went, with the numbers 1, 2, ...\<close>
  "sent_over X ms = \<lparr>cn_next_id = of_nat (length ms), cn_out = map (\<lambda>i. set_id X (of_nat (Suc i)) (ms ! i)) [0..<length ms]\<rparr>"

lemma next_id_count [simp]: "next_id n = n + 1"
  by (simp add: next_id_def)

lemma sent_over_append: "cn_out (sent_over X (ms @ [m])) = cn_out (sent_over X ms) @ [set_id X (of_nat (Suc (length ms))) m]"
  by (simp add: sent_over_def nth_append)

lemma length_sent_over [simp]: "length (cn_out (sent_over X ms)) = length ms" "cn_next_id (sent_over X ms) = of_nat (length ms)"
  by (simp_all add: sent_over_def)

lemma connector_send_over:
  assumes "0 < fst r"
  shows "connector_send X r m (sent_over X ms) = (Inr (of_nat (Suc (length ms))), sent_over X (ms @ [m]))"
  using assms sent_over_append [of X ms m]
  by (simp add: connector_send_def connector_next_id_def connector_send_id_def sent_over_def add.commute Let_def)

lemma tool_send_over: "sending env \<Longrightarrow> tool_send X env m (sent_over X ms) = (None, sent_over X (ms @ [m]))"
  using connector_send_over [of "ne_send env (length ms)" X m ms]
  by (simp add: tool_send_def sending_def)

lemma new_connector_over: "new_connector = sent_over X []"
  by (simp add: new_connector_def sent_over_def)

lemma connect_over: "sending env \<Longrightarrow> connect_or_exit X env app = (None, sent_over X [identification_msg X app])"
  using connector_send_over [of "ne_auth env" X "identification_msg X app" "[]"]
  by (simp add: connect_or_exit_def connector_connect_def authentication_def new_connector_over [of X] sending_def)

lemma connect_fails:
  assumes "fst (ne_connect env) < 0 \<or> fst (ne_auth env) \<le> 0"
  shows "\<exists>c. connect_or_exit X env app = (Some (Exit 1), c) \<and> cn_out c = []"
  using assms
  by (auto simp: connect_or_exit_def connector_connect_def authentication_def connector_send_def connector_next_id_def
      connector_send_id_def new_connector_def Let_def)

lemma connect_ends [simp]: "fst (connect_or_exit X env app) \<noteq> Some Running" "fst (connect_or_exit X env app) \<noteq> Some (Exit 0)"
  by (auto simp: connect_or_exit_def split: sum.split cxx_error.split prod.split)

subsection \<open>The uploader as a program\<close>

lemma upload_recv_sends:
  assumes "upload_recv fw n f s = Inr s1"
  shows "\<exists>fs. up_sent s1 = up_sent s @ fs"
  using assms by (auto simp: upload_recv_def page_written_def page_fill_def page_start_def up_send_def Let_def split: if_splits)

lemma upload_run_sends:
  "upload_run fw n rs s = Inr s1 \<Longrightarrow> \<exists>fs. up_sent s1 = up_sent s @ fs"
proof (induction rs arbitrary: s)
  case (Cons r rs)
  show ?case
  proof (cases "up_done s")
    case False
    then obtain s2 where s2: "upload_recv fw n r s = Inr s2" "upload_run fw n rs s2 = Inr s1"
      using Cons.prems by (auto simp: rbind_Inr_iff)
    then show ?thesis using upload_recv_sends [OF s2(1)] Cons.IH [OF s2(2)] by auto
  qed (use Cons.prems in simp)
qed simp

lemma send_frames_over:
  assumes "xml_laws X" and "sending env" and "\<forall>f \<in> set fs. valid_frame f"
  shows "\<exists>ns. map (send_frame_msg X) fs = map Inr ns \<and> send_frames X env fs (sent_over X ms) = (None, sent_over X (ms @ ns))"
  using assms(3)
proof (induction fs arbitrary: ms)
  case (Cons f fs)
  then have v: "valid_frame f" by simp
  obtain m where m: "send_frame_msg X f = Inr m"
    using send_frame_msg_read [OF assms(1), of f] valid_frameD [OF v] v by (auto simp: valid_frame_def)
  obtain ns where "map (send_frame_msg X) fs = map Inr ns" "send_frames X env fs (sent_over X (ms @ [m])) = (None, sent_over X ((ms @ [m]) @ ns))"
    using Cons.IH [of "ms @ [m]"] Cons.prems by auto
  then show ?case using m tool_send_over [OF assms(2), of X m ms] by (intro exI [of _ "m # ns"]) simp
qed simp

fun frames_of :: "'n libxml \<Rightarrow> 'n msg_recv res list \<Rightarrow> h9frame list" where
  \<comment> \<open>the frames among the messages received\<close>
  "frames_of X [] = []"
| "frames_of X (Inr (Got_msg m) # rs) = (if get_type X m = Inr FRAME
     then (case get_frame X m of Inr f \<Rightarrow> f # frames_of X rs | Inl e \<Rightarrow> frames_of X rs) else frames_of X rs)"
| "frames_of X (r # rs) = frames_of X rs"

definition readable :: "'n libxml \<Rightarrow> 'n msg_recv res \<Rightarrow> bool" where
  \<comment> \<open>a message of a known type, and a frame when it is of that type\<close>
  "readable X r \<longleftrightarrow> (case r of Inr (Got_msg m) \<Rightarrow> (case get_type X m of Inl e \<Rightarrow> False
     | Inr ty \<Rightarrow> ty = FRAME \<longrightarrow> \<not> isl (get_frame X m)) | _ \<Rightarrow> False)"

lemma readable_cases:
  assumes "readable X r"
  obtains m ty where "r = Inr (Got_msg m)" "get_type X m = Inr ty" "ty \<noteq> FRAME"
  | m f where "r = Inr (Got_msg m)" "get_type X m = Inr FRAME" "get_frame X m = Inr f"
proof -
  obtain m where r: "r = Inr (Got_msg m)"
    using assms by (auto simp: readable_def split: sum.splits msg_recv.splits)
  then obtain ty where m: "get_type X m = Inr ty" "ty = FRAME \<longrightarrow> \<not> isl (get_frame X m)"
    using assms by (cases "get_type X m") (simp_all add: readable_def)
  show thesis
  proof (cases "ty = FRAME")
    case True
    then obtain f where "get_frame X m = Inr f" using m(2) by (cases "get_frame X m") auto
    then show thesis using r m(1) True that(2) by blast
  qed (use r m that(1) in blast)
qed

definition dialogue_sent ::
  "'n libxml \<Rightarrow> net_env \<Rightarrow> (nat \<Rightarrow> u8) \<Rightarrow> nat \<Rightarrow> upload \<Rightarrow> upload res \<Rightarrow> 'n gmsg list \<Rightarrow> exit_status \<times> 'n connector \<Rightarrow> bool" where
  \<comment> \<open>the end of the program and what it has sent, against the dialogue of H9_Fwu\<close>
  "dialogue_sent X env fw n s d ms r \<longleftrightarrow> (case d of
      Inl e \<Rightarrow> fst r = Uncaught e
    | Inr t \<Rightarrow> \<exists>ns. map (send_frame_msg X) (drop (length (up_sent s)) (up_sent t)) = map Inr ns \<and>
        r = (if up_done t then Exit 0 else Running, sent_over X (ms @ ns)))"

lemma fwu_loop_dialogue:
  assumes "xml_laws X" and "sending env" and "list_all (readable X) rs" and "\<not> up_done s"
    and "upload_ok fw src dst s"
  shows "dialogue_sent X env fw n s (upload_run fw n (frames_of X rs) s) ms (fwu_loop X env fw n rs s (sent_over X ms))"
  using assms(3-5)
proof (induction rs arbitrary: s ms)
  case Nil
  then show ?case by (simp add: dialogue_sent_def)
next
  case (Cons r rs)
  have r: "readable X r" and rs: "list_all (readable X) rs" using Cons.prems(1) by simp_all
  show ?case using r
  proof (cases rule: readable_cases)
    case (1 m ty)
    then have "frames_of X (r # rs) = frames_of X rs" "fwu_loop X env fw n (r # rs) s c = fwu_loop X env fw n rs s c" for c
      by (simp_all add: connector_recv_def)
    then show ?thesis using Cons.IH [OF rs Cons.prems(2,3)] by simp
  next
    case (2 m f)
    show ?thesis
    proof (cases "upload_recv fw n f s")
      case (Inl e)
      then show ?thesis using 2 Cons.prems(2) by (simp add: connector_recv_def dialogue_sent_def)
    next
      case (Inr s1)
      obtain fs where fs: "up_sent s1 = up_sent s @ fs" using upload_recv_sends [OF Inr] by blast
      have ok: "upload_ok fw src dst s1" by (rule upload_ok_recv [OF Cons.prems(3) Inr])
      then have "\<forall>g \<in> set fs. valid_frame g" using fs by (auto simp: upload_ok_def)
      then obtain ns where ns: "map (send_frame_msg X) fs = map Inr ns"
        "send_frames X env fs (sent_over X ms) = (None, sent_over X (ms @ ns))"
        using send_frames_over [OF assms(1,2)] by blast
      have step: "fwu_loop X env fw n (r # rs) s (sent_over X ms) =
          (if up_done s1 then (Exit 0, sent_over X (ms @ ns)) else fwu_loop X env fw n rs s1 (sent_over X (ms @ ns)))"
        using 2 Inr fs ns(2) by (simp add: connector_recv_def after_sending_def)
      have run: "upload_run fw n (frames_of X (r # rs)) s = upload_run fw n (frames_of X rs) s1"
        using 2 Inr Cons.prems(2) by simp
      show ?thesis
      proof (cases "up_done s1")
        case True
        then have "upload_run fw n (frames_of X rs) s1 = Inr s1" by (cases "frames_of X rs") simp_all
        then show ?thesis unfolding run step using True fs ns(1) by (auto simp: dialogue_sent_def)
      next
        case False
        note IH = Cons.IH [OF rs False ok, of "ms @ ns"]
        show ?thesis
        proof (cases "upload_run fw n (frames_of X rs) s1")
          case (Inl e)
          then show ?thesis using IH False unfolding run step by (simp add: dialogue_sent_def)
        next
          case t: (Inr t)
          obtain gs where gs: "up_sent t = up_sent s1 @ gs" using upload_run_sends [OF t] by blast
          obtain ns2 where ns2: "map (send_frame_msg X) gs = map Inr ns2"
            "fwu_loop X env fw n rs s1 (sent_over X (ms @ ns)) = (if up_done t then Exit 0 else Running, sent_over X ((ms @ ns) @ ns2))"
            using IH t gs by (auto simp: dialogue_sent_def)
          have "map (send_frame_msg X) (drop (length (up_sent s)) (up_sent t)) = map Inr (ns @ ns2)"
            using fs gs ns(1) ns2(1) by simp
          then show ?thesis unfolding run step dialogue_sent_def t sum.case using False ns2(2)
            by (intro exI [of _ "ns @ ns2"]) simp
        qed
      qed
    qed
  qed
qed

text \<open>
  C32. The program h9fwu is the dialogue of H9_Fwu: with its options given and a connection that holds, whatever
  messages arrive, it sends its name, the subscription and then exactly the frames of the dialogue with the frames
  among these messages, numbered from 1; it ends with success exactly when the dialogue ends with the quit frame, it is ended by
  the fault of the dialogue when there is one, and it waits otherwise.
\<close>

theorem uploader_program:
  assumes "xml_laws X" and "sending env" and "list_all (readable X) rs"
    and "fo_src_id opts = Some src" and "fo_dst_id opts = Some dst" and "fo_ihex opts = Some (Some ls)"
  shows "case flash ls (frames_of X rs) (fo_noupgrade opts) src dst sq of
      Inl e \<Rightarrow> fst (fwu_main X env opts dflt sq rs) = Uncaught e
    | Inr s \<Rightarrow> \<exists>ms. map (send_frame_msg X) (up_sent s) = map Inr ms \<and>
        fwu_main X env opts dflt sq rs = (if up_done s then Exit 0 else Running,
          sent_over X (identification_msg X ''h9fwu'' # event_subscription X # ms))"
proof (cases "read_ihex ls empty_image")
  case (Inl e)
  then show ?thesis using assms(4-6) by (simp add: flash_def fwu_main_def)
next
  case (Inr im)
  let ?s = "upload_start (fo_noupgrade opts) src dst sq"
  let ?fw = "im_mem im" and ?n = "im_len im"
  have ok: "upload_ok ?fw (ucast src) (ucast dst) ?s" by (rule upload_ok_start)
  then have "\<forall>f \<in> set (up_sent ?s). valid_frame f" by (simp add: upload_ok_def)
  then obtain ns where ns: "map (send_frame_msg X) (up_sent ?s) = map Inr ns"
    "send_frames X env (up_sent ?s) (sent_over X [identification_msg X ''h9fwu'', event_subscription X]) =
      (None, sent_over X ([identification_msg X ''h9fwu'', event_subscription X] @ ns))"
    using send_frames_over [OF assms(1,2)] by blast
  let ?ms = "[identification_msg X ''h9fwu'', event_subscription X] @ ns"
  have main: "fwu_main X env opts dflt sq rs = fwu_loop X env ?fw ?n rs ?s (sent_over X ?ms)"
    using assms(4-6) Inr ns(2) tool_send_over [OF assms(2), of X "event_subscription X" "[identification_msg X ''h9fwu'']"]
    by (simp add: fwu_main_def connect_over [OF assms(2)] after_sending_def Let_def)
  have d: "dialogue_sent X env ?fw ?n ?s (upload_run ?fw ?n (frames_of X rs) ?s) ?ms (fwu_loop X env ?fw ?n rs ?s (sent_over X ?ms))"
    by (rule fwu_loop_dialogue [OF assms(1-3) not_done_start ok])
  have f: "flash ls (frames_of X rs) (fo_noupgrade opts) src dst sq = upload_run ?fw ?n (frames_of X rs) ?s"
    using Inr by (simp add: flash_def)
  show ?thesis
  proof (cases "upload_run ?fw ?n (frames_of X rs) ?s")
    case (Inl e)
    then show ?thesis using d by (simp add: f main dialogue_sent_def)
  next
    case t: (Inr t)
    obtain gs where gs: "up_sent t = up_sent ?s @ gs" using upload_run_sends [OF t] by blast
    obtain ns2 where ns2: "map (send_frame_msg X) gs = map Inr ns2"
        "fwu_loop X env ?fw ?n rs ?s (sent_over X ?ms) = (if up_done t then Exit 0 else Running, sent_over X (?ms @ ns2))"
      using d t gs by (auto simp: dialogue_sent_def)
    have "map (send_frame_msg X) (up_sent t) = map Inr (ns @ ns2)" using gs ns(1) ns2(1) by simp
    moreover have "fwu_main X env opts dflt sq rs = (if up_done t then Exit 0 else Running,
          sent_over X (identification_msg X ''h9fwu'' # event_subscription X # ns @ ns2))"
      using ns2(2) by (simp add: main)
    ultimately show ?thesis unfolding f t sum.case by blast
  qed
qed

subsection \<open>How the programs end\<close>

lemma sniff_loop_lost:
  assumes "connector_recv r = Inl e"
  shows "snd (sniff_loop X mode rs) = Running \<Longrightarrow>
    sniff_loop X mode (rs @ r # rest) = (fst (sniff_loop X mode rs), Uncaught e)"
  using assms by (induction rs) (auto split: sum.splits prod.splits)

lemma stat_loop_lost:
  assumes "connector_recv r = Inl e"
  shows "fst (snd (stat_loop X env rs s c)) = Running \<Longrightarrow>
    fst (snd (stat_loop X env (rs @ r # rest) s c)) = Uncaught e"
proof (induction rs arbitrary: s c)
  case Nil
  then show ?case using assms by (subst stat_loop.simps) (subst (asm) stat_loop.simps, auto split: option.splits prod.splits)
next
  case (Cons r1 rs)
  obtain c1 where c1: "tool_send X env (execute_method_msg X ''h9bus_stat'') c = (None, c1)"
    using Cons.prems by (subst (asm) stat_loop.simps) (auto split: option.splits prod.splits)
  obtain m p s1 where m: "connector_recv r1 = Inr m" "stat_turn X m s = Inr (Some (p, s1))"
    "fst (snd (stat_loop X env rs s1 c1)) = Running"
    using Cons.prems c1 by (subst (asm) stat_loop.simps) (auto split: option.splits prod.splits sum.splits)
  then show ?case using Cons.IH [OF m(3)] c1 by (subst stat_loop.simps) (simp add: case_prod_beta)
qed

lemma fwu_loop_lost:
  assumes "connector_recv r = Inl e"
  shows "fst (fwu_loop X env fw n rs s c) = Running \<Longrightarrow>
    fst (fwu_loop X env fw n (rs @ r # rest) s c) = Uncaught e"
  using assms
proof (induction rs arbitrary: s c)
  case (Cons r1 rs)
  then show ?case by (auto simp: after_sending_def split: sum.splits if_splits prod.splits option.splits)
qed simp

lemma sniff_never_exits: "snd (sniff_loop X mode rs) \<noteq> Exit n"
  by (induction rs) (auto split: sum.splits prod.splits)

lemma stat_exit: "fst (snd (stat_loop X env rs s c)) \<noteq> Exit 0"
proof (induction rs arbitrary: s c)
  case Nil
  show ?case by (subst stat_loop.simps) (auto split: option.splits prod.splits)
next
  case (Cons r rs)
  obtain e c1 where "tool_send X env (execute_method_msg X ''h9bus_stat'') c = (e, c1)" by (rule prod.exhaust)
  then show ?case using Cons
    by (subst stat_loop.simps) (simp add: case_prod_beta split: option.split sum.split)
qed

definition connection_refused :: "net_env \<Rightarrow> bool" where
  "connection_refused env \<longleftrightarrow> fst (ne_connect env) < 0 \<or> fst (ne_auth env) \<le> 0"


subsection \<open>Witnesses\<close>

definition holding_net :: net_env where
  "holding_net = \<lparr>ne_connect = (0, 0), ne_auth = (1, 0), ne_send = (\<lambda>_. (1, 0))\<rparr>"

definition refusing_net :: net_env where
  "refusing_net = holding_net\<lparr>ne_connect := (-1, 111)\<rparr>"

lemma holding_net_sends: "sending holding_net"
  by (simp add: sending_def holding_net_def)

theorem uploader_program_witness:
  "\<exists>ms. map (send_frame_msg xtree_ops) (up_sent (upload_start False 1 32 0)) = map Inr ms \<and>
    fwu_main xtree_ops holding_net \<lparr>fo_src_id = Some 1, fo_dst_id = Some 32, fo_noupgrade = False, fo_ihex = Some (Some [])\<rparr>
      0 0 [Inr (Got_msg (identification_msg xtree_ops ''h9d''))] =
    (Running, sent_over xtree_ops (identification_msg xtree_ops ''h9fwu'' # event_subscription xtree_ops # ms))"
proof -
  have ty: "get_type xtree_ops (identification_msg xtree_ops ''h9d'') = Inr IDENTIFICATION"
    by (simp add: identification_msg_def get_type_def get_msg_def new_msg_def with_node_def xtree_laws)
  let ?rs = "[Inr (Got_msg (identification_msg xtree_ops ''h9d''))]"
  have rs: "list_all (readable xtree_ops) ?rs" "frames_of xtree_ops ?rs = []" by (simp_all add: readable_def ty)
  show ?thesis
    using uploader_program [OF xtree_laws holding_net_sends rs(1), of
        "\<lparr>fo_src_id = Some 1, fo_dst_id = Some 32, fo_noupgrade = False, fo_ihex = Some (Some [])\<rparr>" 1 32 "[]" 0 0]
    by (simp add: ty flash_def not_done_start)
qed


end
