(* ===== verification/H9_Locks.thy ===== *)
theory H9_Locks
  imports H9_Prelude
begin

text \<open>
  The mutexes of h9d. The other theories take the sections between \<open>lock\<close> and \<open>unlock\<close> as single steps;
  here the operations of the four kinds of threads are the sequences of calls on mutexes they make, from
  \<open>h9d/bus.cc\<close> (the thread that receives), \<open>h9d/devmgr.cc\<close> (the thread that updates the directory, and
  what clients call), \<open>device.cc\<close>, \<open>node.cc\<close>, \<open>framesubject.cc\<close>, \<open>tcpclientthread.cc\<close> (the threads of
  clients) and \<open>tcpserver.cc\<close> (the main thread). \<open>devices_map_mtx\<close> is a \<open>std::shared_mutex\<close>: whether a reader
  passes a waiting writer is left open. Waits for a future have a time limit. What the sections do to the data is in
  H9_Bus, H9_DevMgr, H9_Client.
\<close>

subsection \<open>Operations\<close>

datatype lock =
    Clients_mtx | Devices_mtx | Observers_mtx | Queue_mtx | Promises_mtx nat | Events_mtx nat | Async_mtx nat | Sends_mtx
  \<comment> \<open>\<open>tcpclientthread_list_mtx\<close>, \<open>devices_map_mtx\<close>, \<open>frame_observers_mtx\<close>, \<open>frame_queue_mtx\<close>,
      \<open>frame_promise_list_mtx\<close> of a node, \<open>event_name_mtx\<close> of a device, \<open>async_msg_queue_mtx\<close> of a client,
      \<open>send_promise_map_mtx\<close>\<close>

datatype act =
    Lock lock | Lock_shared | Unlock lock | Unlock_shared
  | Wait \<comment> \<open>\<open>wait_for\<close> on a future: ends at the latest with its time\<close>
  | Reap nat \<comment> \<open>\<open>is_running\<close> of a client, before it is deleted\<close>
  | Stop nat | Join nat | Erase nat \<comment> \<open>\<open>close_connection\<close> and \<open>join\<close> in \<open>~TCPClientThread\<close>, then \<open>erase\<close>\<close>
  | Trigger | Take_event \<comment> \<open>\<open>cleanup_tcpclientthread\<close>, and the main loop's \<open>event.wait\<close>\<close>
  | Spawn nat | Finish nat \<comment> \<open>a new client; \<open>thread_running = false\<close> and the end of its thread\<close>

datatype outcome = Confirmed | Timed_out | Not_sent

definition section_of :: "lock \<Rightarrow> act list" where
  "section_of l = [Lock l, Unlock l]"

definition send_frame_locks :: "outcome \<Rightarrow> act list" where
  \<comment> \<open>\<open>Bus::send_frame_sync\<close>\<close>
  "send_frame_locks out = section_of Sends_mtx @ (case out of
     Confirmed \<Rightarrow> [Wait] | Timed_out \<Rightarrow> Wait # section_of Sends_mtx | Not_sent \<Rightarrow> section_of Sends_mtx)"

definition node_request_locks :: "nat \<Rightarrow> outcome \<Rightarrow> act list" where
  \<comment> \<open>\<open>Node::get_raw_reg\<close>, \<open>set_raw_reg\<close> and \<open>reset\<close>: the future, the frame, the wait for the answer\<close>
  "node_request_locks n out = section_of (Promises_mtx n) @ send_frame_locks out @ [Wait]"

datatype observer = Directory | Node nat

definition observer_locks :: "observer \<Rightarrow> act list" where
  \<comment> \<open>\<open>DevMgr::on_frame_recv\<close> and \<open>Node::on_frame_recv\<close>\<close>
  "observer_locks ob = section_of (case ob of Directory \<Rightarrow> Queue_mtx | Node n \<Rightarrow> Promises_mtx n)"

definition notify_locks :: "observer list \<Rightarrow> act list" where
  \<comment> \<open>\<open>FrameSubject::notify_frame_observer\<close>, for the observers whose filter matches\<close>
  "notify_locks obs = Lock Observers_mtx # concat (map observer_locks obs) @ [Unlock Observers_mtx]"

definition recv_locks :: "observer list option \<Rightarrow> bool \<Rightarrow> act list" where
  \<comment> \<open>a turn of \<open>Bus::recv_thread\<close>: a frame or an error, which may answer a request\<close>
  "recv_locks frame answer = (case frame of None \<Rightarrow> [] | Some obs \<Rightarrow> notify_locks obs) @
     (if answer then section_of Sends_mtx else [])"

datatype update = Same_device | New_device | Replaced | Event nat "nat list" | No_event | Unknown outcome

definition notify_event_locks :: "nat \<Rightarrow> nat list \<Rightarrow> act list" where
  \<comment> \<open>\<open>Device::notify_event_observer\<close>, with \<open>send_msg\<close> of each client\<close>
  "notify_event_locks n cs = Lock (Events_mtx n) # concat (map (\<lambda>c. section_of (Async_mtx c)) cs) @ [Unlock (Events_mtx n)]"

definition update_locks :: "update \<Rightarrow> act list" where
  \<comment> \<open>a turn of \<open>DevMgr::devices_update_thread\<close>; building a device attaches it to the bus, deleting it detaches it\<close>
  "update_locks u = section_of Queue_mtx @ (case u of
       Same_device \<Rightarrow> section_of Devices_mtx
     | New_device \<Rightarrow> Lock Devices_mtx # section_of Observers_mtx @ [Unlock Devices_mtx]
     | Replaced \<Rightarrow> Lock Devices_mtx # section_of Observers_mtx @ section_of Observers_mtx @ [Unlock Devices_mtx]
     | Event n cs \<Rightarrow> Lock_shared # notify_event_locks n cs @ [Unlock_shared]
     | No_event \<Rightarrow> [Lock_shared, Unlock_shared]
     | Unknown out \<Rightarrow> [Lock_shared, Unlock_shared] @ send_frame_locks out)"

datatype client_op = Look | Device_call nat outcome | Observe nat | Discover outcome | Count_clients | Pop_message nat

definition client_locks :: "client_op \<Rightarrow> act list" where
  \<comment> \<open>what a client's thread calls: the getters of \<open>DevMgr\<close>, the calls that reach the node, attach and
      detach, \<open>discover\<close>, \<open>TCPServer::connected_clients_count\<close>, and a turn of \<open>thread_send_async_msg\<close>\<close>
  "client_locks x = (case x of
       Look \<Rightarrow> [Lock_shared, Unlock_shared]
     | Device_call n out \<Rightarrow> Lock_shared # node_request_locks n out @ [Unlock_shared]
     | Observe n \<Rightarrow> Lock_shared # section_of (Events_mtx n) @ [Unlock_shared]
     | Discover out \<Rightarrow> send_frame_locks out
     | Count_clients \<Rightarrow> section_of Clients_mtx
     | Pop_message c \<Rightarrow> section_of (Async_mtx c))"

definition cleanup_locks :: "nat \<Rightarrow> nat list \<Rightarrow> act list" where
  \<comment> \<open>\<open>ExecutorAdapter::cleanup_connection\<close> for the devices observed, then the end of the thread\<close>
  "cleanup_locks c ns = concat (map (\<lambda>n. client_locks (Observe n)) ns) @ [Trigger, Finish c]"

definition accept_locks :: "nat \<Rightarrow> act list" where
  \<comment> \<open>\<open>TCPServer::run\<close>, a new connection\<close>
  "accept_locks c = [Lock Clients_mtx, Spawn c, Unlock Clients_mtx]"

definition collect_locks :: "nat list \<Rightarrow> act list" where
  \<comment> \<open>\<open>TCPServer::run\<close>, the event of a closed connection, for the clients in the list\<close>
  "collect_locks cs = [Take_event, Lock Clients_mtx] @ map Reap cs @ [Unlock Clients_mtx]"

subsection \<open>Threads\<close>

datatype thread = Main | Receiver | Updater | Client nat

datatype phase = Absent | New | Started | Ended
  \<comment> \<open>of a client's thread; \<open>is_running\<close> is false for all but \<open>Started\<close>\<close>

record lstate =
  rest :: "thread \<Rightarrow> act list"
  own :: "lock \<Rightarrow> thread option"
  readers :: "thread set"
  phase_of :: "nat \<Rightarrow> phase"
  listed :: "nat list"
  event_set :: bool
  \<comment> \<open>what is left of the current operation, owners of mutexes, who holds \<open>devices_map_mtx\<close> shared,
      \<open>tcpclientthread_list\<close>, the event of the server\<close>

definition threads_init :: lstate where
  "threads_init = \<lparr>rest = (\<lambda>_. []), own = (\<lambda>_. None), readers = {}, phase_of = (\<lambda>_. Absent), listed = [], event_set = False\<rparr>"

fun perform :: "thread \<Rightarrow> act \<Rightarrow> lstate \<Rightarrow> (act list \<times> lstate) option" where
  \<comment> \<open>\<open>None\<close>: the call blocks. The list is what comes before the rest of the operation\<close>
  "perform t (Lock l) s = (if own s l = None \<and> (l = Devices_mtx \<longrightarrow> readers s = {})
     then Some ([], s\<lparr>own := (own s)(l := Some t)\<rparr>) else None)"
| "perform t Lock_shared s = (if own s Devices_mtx = None then Some ([], s\<lparr>readers := insert t (readers s)\<rparr>) else None)"
| "perform t (Unlock l) s = Some ([], s\<lparr>own := (own s)(l := None)\<rparr>)"
| "perform t Unlock_shared s = Some ([], s\<lparr>readers := readers s - {t}\<rparr>)"
| "perform t Wait s = Some ([], s)"
| "perform t (Reap c) s = Some (if phase_of s c = Started then [] else [Stop c, Join c, Erase c], s)"
| "perform t (Stop c) s = Some ([], s)"
| "perform t (Join c) s = (if phase_of s c = Ended then Some ([], s) else None)"
| "perform t (Erase c) s = Some ([], s\<lparr>listed := removeAll c (listed s)\<rparr>)"
| "perform t Trigger s = Some ([], s\<lparr>event_set := True\<rparr>)"
| "perform t Take_event s = Some ([], s\<lparr>event_set := False\<rparr>)"
| "perform t (Spawn c) s = Some ([], s\<lparr>phase_of := (phase_of s)(c := New), listed := listed s @ [c]\<rparr>)"
| "perform t (Finish c) s = Some ([], s\<lparr>phase_of := (phase_of s)(c := Ended)\<rparr>)"

inductive begins :: "lstate \<Rightarrow> thread \<Rightarrow> act list \<Rightarrow> bool" for s where
  \<comment> \<open>the operations a thread may begin; only the main thread changes the list. A client whose \<open>running\<close> is
      cleared may still serve the requests \<open>event.wait\<close> has given it\<close>
  receives: "begins s Receiver (recv_locks frame answer)"
| updates: "begins s Updater (update_locks u)"
| accepts: "phase_of s c = Absent \<Longrightarrow> begins s Main (accept_locks c)"
| collects: "event_set s \<Longrightarrow> begins s Main (collect_locks (listed s))"
| serves: "phase_of s c = Started \<Longrightarrow> begins s (Client c) (client_locks x)"
| leaves: "phase_of s c = Started \<Longrightarrow> begins s (Client c) (cleanup_locks c ns)"

inductive lstep :: "lstate \<Rightarrow> lstate \<Rightarrow> bool" where
  begin_op: "rest s t = [] \<Longrightarrow> begins s t p \<Longrightarrow> lstep s (s\<lparr>rest := (rest s)(t := p)\<rparr>)"
| start_thread: "phase_of s c = New \<Longrightarrow> lstep s (s\<lparr>phase_of := (phase_of s)(c := Started)\<rparr>)"
| call: "rest s t = a # p \<Longrightarrow> perform t a s = Some (q, s1) \<Longrightarrow> lstep s (s1\<lparr>rest := (rest s1)(t := q @ p)\<rparr>)"

inductive_cases lstepE: "lstep s t"
inductive_cases beginsE: "begins s t p"

definition timely :: "lstate \<Rightarrow> bool" where
  \<comment> \<open>a client that is looked at has begun to run\<close>
  "timely s \<longleftrightarrow> (\<forall>c p. rest s Main = Reap c # p \<longrightarrow> phase_of s c \<noteq> New)"

definition timely_step :: "lstate \<Rightarrow> lstate \<Rightarrow> bool" where
  "timely_step s t \<longleftrightarrow> lstep s t \<and> timely s"

subsection \<open>The order of the mutexes\<close>

fun rank :: "lock \<Rightarrow> nat" where
  "rank Clients_mtx = 0" | "rank Devices_mtx = 1" | "rank Observers_mtx = 2" | "rank Queue_mtx = 3"
| "rank (Promises_mtx n) = 4" | "rank (Events_mtx n) = 5" | "rank (Async_mtx c) = 6" | "rank Sends_mtx = 7"

fun ordered :: "(lock \<times> bool) set \<Rightarrow> act list \<Rightarrow> bool" where
  \<comment> \<open>from the mutexes held (and whether shared), the operation takes only higher ones, releases what it
      holds, and ends with none\<close>
  "ordered H [] \<longleftrightarrow> H = {}"
| "ordered H (Lock l # p) \<longleftrightarrow> (\<forall>h \<in> H. rank (fst h) < rank l) \<and> ordered (insert (l, False) H) p"
| "ordered H (Lock_shared # p) \<longleftrightarrow> (\<forall>h \<in> H. rank (fst h) < rank Devices_mtx) \<and> ordered (insert (Devices_mtx, True) H) p"
| "ordered H (Unlock l # p) \<longleftrightarrow> (l, False) \<in> H \<and> ordered (H - {(l, False)}) p"
| "ordered H (Unlock_shared # p) \<longleftrightarrow> (Devices_mtx, True) \<in> H \<and> ordered (H - {(Devices_mtx, True)}) p"
| "ordered H (a # p) \<longleftrightarrow> ordered H p"

lemma ordered_section [simp]:
  "ordered H (section_of l @ p) \<longleftrightarrow> (\<forall>h \<in> H. rank (fst h) < rank l) \<and> ordered H p"
proof -
  have "(l, False) \<notin> H" if "\<forall>h \<in> H. rank (fst h) < rank l" using that by fastforce
  then show ?thesis by (auto simp: section_of_def insert_Diff_if)
qed

lemmas ordered_last [simp] = ordered_section [of _ _ "[]", simplified]

lemma ordered_send_frame [simp]:
  "ordered H (send_frame_locks out @ p) \<longleftrightarrow> (\<forall>h \<in> H. rank (fst h) < 7) \<and> ordered H p"
  by (cases out) (auto simp: send_frame_locks_def)

lemma ordered_sections:
  "\<forall>x \<in> set xs. \<forall>h \<in> H. rank (fst h) < rank (l x) \<Longrightarrow>
    ordered H (concat (map (\<lambda>x. section_of (l x)) xs) @ p) \<longleftrightarrow> ordered H p"
  by (induction xs) auto

lemma ordered_notify [simp]:
  "\<forall>h \<in> H. rank (fst h) < 2 \<Longrightarrow> ordered H (notify_locks obs @ p) \<longleftrightarrow> ordered H p"
proof -
  assume H: "\<forall>h \<in> H. rank (fst h) < 2"
  then have fresh: "(Observers_mtx, False) \<notin> H" by fastforce
  let ?l = "\<lambda>ob. case ob of Directory \<Rightarrow> Queue_mtx | Node n \<Rightarrow> Promises_mtx n"
  have "\<forall>ob \<in> set obs. \<forall>h \<in> insert (Observers_mtx, False) H. rank (fst h) < rank (?l ob)"
    using H by (auto split: observer.split)
  from ordered_sections [OF this, of "Unlock Observers_mtx # p"] show ?thesis
    using H fresh by (simp add: notify_locks_def observer_locks_def [abs_def])
qed

lemma ordered_event [simp]:
  "\<forall>h \<in> H. rank (fst h) < 5 \<Longrightarrow> ordered H (notify_event_locks n cs @ p) \<longleftrightarrow> ordered H p"
proof -
  assume H: "\<forall>h \<in> H. rank (fst h) < 5"
  then have fresh: "(Events_mtx n, False) \<notin> H" by fastforce
  have "\<forall>c \<in> set cs. \<forall>h \<in> insert (Events_mtx n, False) H. rank (fst h) < rank (Async_mtx c)"
    using H by auto
  from ordered_sections [OF this, of "Unlock (Events_mtx n) # p"] show ?thesis
    using H fresh by (simp add: notify_event_locks_def)
qed

lemma ordered_client [simp]: "ordered {} (client_locks x @ p) \<longleftrightarrow> ordered {} p"
  by (cases x) (simp_all add: client_locks_def node_request_locks_def)

lemma ordered_cleanup: "ordered {} (cleanup_locks c ns)"
  unfolding cleanup_locks_def by (induction ns) simp_all

lemma ordered_reaps [simp]: "ordered H (map Reap cs @ p) \<longleftrightarrow> ordered H p"
  by (induction cs) simp_all

lemma begins_ordered: "begins s t p \<Longrightarrow> ordered {} p"
proof (induction rule: begins.induct)
  case (receives frame answer)
  show ?case
    using ordered_notify [of "{}" "the frame" "if answer then section_of Sends_mtx else []"]
    by (cases frame) (simp_all add: recv_locks_def)
next
  case (updates u)
  show ?case
    using ordered_send_frame [of "{}" _ "[]"] by (cases u) (simp_all add: update_locks_def)
next
  case (serves c x)
  show ?case using ordered_client [of x "[]"] by simp
next
  case (leaves c ns)
  show ?case by (rule ordered_cleanup)
qed (simp_all add: accept_locks_def collect_locks_def)

subsection \<open>Invariant\<close>

definition holds :: "lstate \<Rightarrow> thread \<Rightarrow> (lock \<times> bool) set" where
  "holds s t = {(l, False) |l. own s l = Some t} \<union> (if t \<in> readers s then {(Devices_mtx, True)} else {})"

fun act_ok :: "lstate \<Rightarrow> thread \<Rightarrow> act \<Rightarrow> bool" where
  \<comment> \<open>who deletes, who ends, and what is known of a client that is deleted\<close>
  "act_ok s t (Reap c) \<longleftrightarrow> t = Main \<and> phase_of s c \<noteq> Absent"
| "act_ok s t (Stop c) \<longleftrightarrow> t = Main \<and> phase_of s c = Ended"
| "act_ok s t (Join c) \<longleftrightarrow> t = Main \<and> phase_of s c = Ended"
| "act_ok s t (Spawn c) \<longleftrightarrow> t = Main \<and> phase_of s c = Absent"
| "act_ok s t (Finish c) \<longleftrightarrow> t = Client c"
| "act_ok s t a \<longleftrightarrow> True"

fun tidy :: "act list \<Rightarrow> bool" where
  "tidy [] \<longleftrightarrow> True"
| "tidy (Finish c # p) \<longleftrightarrow> p = []"
| "tidy (Spawn c # p) \<longleftrightarrow> (\<forall>d. Spawn d \<notin> set p) \<and> tidy p"
| "tidy (a # p) \<longleftrightarrow> tidy p"

definition locks_ok :: "lstate \<Rightarrow> bool" where
  "locks_ok s \<longleftrightarrow> (\<forall>c \<in> set (listed s). phase_of s c \<noteq> Absent) \<and> (\<forall>t. ordered (holds s t) (rest s t) \<and> (\<forall>a \<in> set (rest s t). act_ok s t a) \<and> tidy (rest s t) \<and>
     (\<forall>c. t = Client c \<and> rest s t \<noteq> [] \<longrightarrow> phase_of s c = Started))"

lemma plain_section [simp]:
  "list_all (act_ok s t) (section_of l)" "tidy (section_of l @ p) \<longleftrightarrow> tidy p"
  by (simp_all add: section_of_def)

lemma plain_send_frame [simp]:
  "list_all (act_ok s t) (send_frame_locks out)" "tidy (send_frame_locks out @ p) \<longleftrightarrow> tidy p"
  by (cases out; simp add: send_frame_locks_def)+

lemma plain_sections [simp]:
  "list_all (act_ok s t) (concat (map (\<lambda>x. section_of (l x)) xs))"
  "tidy (concat (map (\<lambda>x. section_of (l x)) xs) @ p) \<longleftrightarrow> tidy p"
  by (induction xs) simp_all

lemma plain_client [simp]:
  "list_all (act_ok s t) (client_locks x)" "tidy (client_locks x @ p) \<longleftrightarrow> tidy p"
  by (cases x; simp add: client_locks_def node_request_locks_def)+

lemma plain_clients:
  "list_all (act_ok s t) (concat (map (\<lambda>n. client_locks (g n)) ns))"
  "tidy (concat (map (\<lambda>n. client_locks (g n)) ns) @ p) \<longleftrightarrow> tidy p"
  by (induction ns) simp_all

lemma tidy_end:
  "tidy (section_of l)" "tidy (send_frame_locks out)" "tidy (client_locks x)"
  using plain_section(2) [of l "[]"] plain_send_frame(2) [of out "[]"] plain_client(2) [of x "[]"] by simp_all

lemma locks_okD:
  assumes "locks_ok s"
  shows "ordered (holds s t) (rest s t)" "a \<in> set (rest s t) \<Longrightarrow> act_ok s t a" "tidy (rest s t)"
    "rest s (Client c) \<noteq> [] \<Longrightarrow> phase_of s c = Started" "c \<in> set (listed s) \<Longrightarrow> phase_of s c \<noteq> Absent"
  using assms by (auto simp: locks_ok_def)

lemma begins_ok:
  assumes "begins s t p" and "locks_ok s"
  shows "list_all (act_ok s t) p \<and> tidy p \<and> (\<forall>c. t = Client c \<longrightarrow> phase_of s c = Started)"
  using assms
proof (induction rule: begins.induct)
  case (receives frame answer)
  show ?case
    by (cases frame) (simp_all add: recv_locks_def notify_locks_def observer_locks_def [abs_def] tidy_end)
next
  case (updates u)
  show ?case by (cases u) (simp_all add: update_locks_def notify_event_locks_def tidy_end)
next
  case collects
  have "tidy (map Reap cs @ [Unlock Clients_mtx])" for cs by (induction cs) simp_all
  moreover have "list_all (act_ok s Main) (map Reap (listed s))" using locks_okD(5) [OF assms(2)] by (simp add: list_all_iff)
  ultimately show ?case by (simp add: collect_locks_def)
next
  case (leaves c ns)
  then show ?case by (simp add: cleanup_locks_def plain_clients)
qed (simp_all add: accept_locks_def tidy_end)

lemma locks_ok_init: "locks_ok threads_init"
  by (simp add: locks_ok_def threads_init_def holds_def)

lemma holds_perform:
  \<comment> \<open>a call changes what its own thread holds, as \<open>ordered\<close> expects it, and nothing else\<close>
  assumes "perform t a s = Some (q, s1)" and "ordered (holds s t) (a # p)"
  shows "ordered (holds s1 t) (q @ p) \<and> (\<forall>u. u \<noteq> t \<longrightarrow> holds s1 u = holds s u) \<and> rest s1 = rest s"
proof (cases a)
  case (Lock l)
  then have "holds s1 t = insert (l, False) (holds s t)" "\<forall>u. u \<noteq> t \<longrightarrow> holds s1 u = holds s u"
    using assms(1) by (auto simp: holds_def split: if_splits)
  then show ?thesis using assms Lock by (auto split: if_splits)
next
  case Lock_shared
  then have "holds s1 t = insert (Devices_mtx, True) (holds s t)" "\<forall>u. u \<noteq> t \<longrightarrow> holds s1 u = holds s u"
    using assms(1) by (auto simp: holds_def split: if_splits)
  then show ?thesis using assms Lock_shared by (auto split: if_splits)
next
  case (Unlock l)
  then have "own s l = Some t" using assms(2) by (auto simp: holds_def split: if_splits)
  then have "holds s1 t = holds s t - {(l, False)}" "\<forall>u. u \<noteq> t \<longrightarrow> holds s1 u = holds s u"
    using assms(1) Unlock by (auto simp: holds_def split: if_splits)
  then show ?thesis using assms Unlock by auto
next
  case Unlock_shared
  then have "holds s1 t = holds s t - {(Devices_mtx, True)}" "\<forall>u. u \<noteq> t \<longrightarrow> holds s1 u = holds s u"
    using assms(1) by (auto simp: holds_def split: if_splits)
  then show ?thesis using assms Unlock_shared by auto
qed (use assms in \<open>auto simp: holds_def split: if_splits\<close>)

lemma act_ok_phases:
  \<comment> \<open>the only moves: absent to new, new to started, started to ended\<close>
  assumes "act_ok s t a" and "\<forall>c. phase_of s c = Ended \<longrightarrow> phase_of s1 c = Ended"
    and "\<forall>c. phase_of s1 c = Absent \<longleftrightarrow> phase_of s c = Absent"
  shows "act_ok s1 t a"
  using assms by (cases a) auto

lemma holds_rest [simp]: "holds (s\<lparr>rest := r\<rparr>) = holds s" "act_ok (s\<lparr>rest := r\<rparr>) = act_ok s"
proof -
  show "holds (s\<lparr>rest := r\<rparr>) = holds s" by (simp add: holds_def fun_eq_iff)
  have "act_ok (s\<lparr>rest := r\<rparr>) t a = act_ok s t a" for t a by (cases a) simp_all
  then show "act_ok (s\<lparr>rest := r\<rparr>) = act_ok s" by (simp add: fun_eq_iff)
qed

lemma locks_ok_call:
  assumes ok: "locks_ok s" and "timely s" and r: "rest s t = a # p" and f: "perform t a s = Some (q, s1)"
  shows "locks_ok (s1\<lparr>rest := (rest s1)(t := q @ p)\<rparr>)"
proof -
  note d = locks_okD [OF ok]
  have o: "ordered (holds s t) (a # p)" and a: "act_ok s t a" and p: "\<forall>b \<in> set p. act_ok s t b" and ti: "tidy (a # p)"
    using d(1,3) [of t] d(2) [of _ t] r by auto
  note h = holds_perform [OF f o]
  have hold: "ordered (holds s1 u) (((rest s1)(t := q @ p)) u)" for u
    using h d(1) [of u] by auto
  have q: "q = [] \<or> (\<exists>c. a = Reap c \<and> phase_of s c = Ended \<and> q = [Stop c, Join c, Erase c])"
  proof (cases a)
    case (Reap c)
    then have "phase_of s c \<noteq> New" "phase_of s c \<noteq> Absent" "t = Main" using assms(2) r a by (auto simp: timely_def)
    then have "phase_of s c = Started \<or> phase_of s c = Ended" by (cases "phase_of s c") simp_all
    then show ?thesis using f Reap by (auto split: if_splits)
  qed (use f in \<open>auto split: if_splits\<close>)
  have tidy: "tidy (q @ p)" using q ti by (cases a) auto
  consider c where "a = Spawn c" | c where "a = Finish c" | "phase_of s1 = phase_of s"
    using f by (cases a) (auto split: if_splits)
  then have acts: "(\<forall>b \<in> set (((rest s1)(t := q @ p)) u). act_ok s1 u b) \<and>
      (\<forall>c. u = Client c \<and> ((rest s1)(t := q @ p)) u \<noteq> [] \<longrightarrow> phase_of s1 c = Started)" for u
  proof cases
    case (1 c)
    then have c: "t = Main" "phase_of s c = Absent" "phase_of s1 = (phase_of s)(c := New)" "q = []" "\<forall>e. Spawn e \<notin> set p"
      using a f ti by auto
    have keep: "act_ok s u b \<Longrightarrow> (\<forall>e. b \<noteq> Spawn e) \<Longrightarrow> act_ok s1 u b" for b u
      using c(2,3) by (cases b) auto
    show ?thesis
    proof (cases "u = Main")
      case True
      then show ?thesis using p c(1,4,5) by (auto intro!: keep)
    next
      case False
      then have u: "((rest s1)(t := q @ p)) u = rest s u" using c(1) h by simp
      have "act_ok s1 u b" if "b \<in> set (rest s u)" for b
        using d(2) [OF that] False by (intro keep) auto
      moreover have "phase_of s1 e = Started" if "u = Client e" "rest s u \<noteq> []" for e
        using d(4) [of e] that c(2,3) by (cases "e = c") simp_all
      ultimately show ?thesis unfolding u by blast
    qed
  next
    case (2 c)
    then have c: "t = Client c" "phase_of s1 = (phase_of s)(c := Ended)" "q = []" "p = []"
      using a f ti by auto
    have "phase_of s c = Started" using d(4) [of c] r c(1) by simp
    then have keep: "act_ok s1 u b" if "act_ok s u b" for b
      by (rule_tac act_ok_phases [OF that]) (auto simp: c(2))
    show ?thesis
    proof (cases "u = Client c")
      case True
      then show ?thesis using c by simp
    next
      case False
      then have u: "((rest s1)(t := q @ p)) u = rest s u" using c(1) h by simp
      have "phase_of s1 e = Started" if "u = Client e" "rest s u \<noteq> []" for e
        using d(4) [of e] that c(2) False by simp
      then show ?thesis unfolding u using keep d(2) [of _ u] by blast
    qed
  next
    case 3
    then have "act_ok s1 u b = act_ok s u b" for b by (cases b) simp_all
    moreover have "\<forall>b \<in> set q. act_ok s t b" using q a by auto
    ultimately show ?thesis using p d(2) [of _ u] d(4) h 3 r by (auto split: if_splits)
  qed
  have list: "\<forall>c \<in> set (listed s1). phase_of s1 c \<noteq> Absent"
    using f d(5) a by (cases a) (auto split: if_splits)
  show ?thesis
    unfolding locks_ok_def
  proof (rule conjI [OF _ allI])
    show "\<forall>c \<in> set (listed (s1\<lparr>rest := (rest s1)(t := q @ p)\<rparr>)).
        phase_of (s1\<lparr>rest := (rest s1)(t := q @ p)\<rparr>) c \<noteq> Absent"
      using list by simp
  next
    fix u
    have "tidy (((rest s1)(t := q @ p)) u)" using tidy d(3) [of u] h by simp
    with hold [of u] acts [of u]
    show "ordered (holds (s1\<lparr>rest := (rest s1)(t := q @ p)\<rparr>) u) (rest (s1\<lparr>rest := (rest s1)(t := q @ p)\<rparr>) u) \<and>
        (\<forall>a \<in> set (rest (s1\<lparr>rest := (rest s1)(t := q @ p)\<rparr>) u). act_ok (s1\<lparr>rest := (rest s1)(t := q @ p)\<rparr>) u a) \<and>
        tidy (rest (s1\<lparr>rest := (rest s1)(t := q @ p)\<rparr>) u) \<and>
        (\<forall>c. u = Client c \<and> rest (s1\<lparr>rest := (rest s1)(t := q @ p)\<rparr>) u \<noteq> [] \<longrightarrow>
          phase_of (s1\<lparr>rest := (rest s1)(t := q @ p)\<rparr>) c = Started)"
      by (simp del: fun_upd_apply) blast
  qed
qed

lemma locks_ok_step:
  assumes "locks_ok s" and "timely_step s s'"
  shows "locks_ok s'"
proof -
  note d = locks_okD [OF assms(1)]
  have "lstep s s'" "timely s" using assms(2) by (auto simp: timely_step_def)
  then show ?thesis
  proof (cases rule: lstep.cases)
    case (begin_op t p)
    have "holds s t = {}" using d(1) [of t] begin_op(2) by simp
    moreover note begins_ordered [OF begin_op(3)] begins_ok [OF begin_op(3) assms(1)]
    ultimately show ?thesis
      using assms(1) unfolding locks_ok_def by (auto simp: begin_op(1) list_all_iff)
  next
    case (start_thread c)
    have "act_ok s' t a" if "act_ok s t a" for t a
      by (rule act_ok_phases [OF that]) (auto simp: start_thread)
    moreover have hr: "holds s' = holds s" "rest s' = rest s" "listed s' = listed s" by (simp_all add: start_thread(1) holds_def fun_eq_iff)
    moreover have "phase_of s' e = Started" if "phase_of s e = Started" for e
      unfolding start_thread(1) using that by simp
    moreover have "\<forall>c \<in> set (listed s). phase_of s' c \<noteq> Absent"
      using d(5) by (simp add: start_thread(1))
    ultimately show ?thesis
      unfolding locks_ok_def hr using d(1-4) by (intro allI conjI impI) blast+
  next
    case (call t a p q s1)
    then show ?thesis using locks_ok_call [OF assms(1) _ call(2,3)] \<open>timely s\<close> by simp
  qed
qed

interpretation mutexes: step_system "\<lambda>s. s = threads_init" timely_step locks_ok
  by unfold_locales (auto intro: locks_ok_step locks_ok_init)

subsection \<open>Progress\<close>

definition proceeds :: "lstate \<Rightarrow> thread \<Rightarrow> bool" where
  \<comment> \<open>the next call of the thread returns, however the shared mutex treats readers and writers\<close>
  "proceeds s t \<longleftrightarrow> (case rest s t of [] \<Rightarrow> False
     | a # p \<Rightarrow> perform t a s \<noteq> None \<and> (a = Lock_shared \<longrightarrow> (\<forall>u r. rest s u \<noteq> Lock Devices_mtx # r)))"

lemma next_of_holder:
  assumes "locks_ok s" and "h \<in> holds s t"
  obtains a p where "rest s t = a # p" and "ordered (holds s t) (a # p)"
    and "\<And>l. a = Lock l \<Longrightarrow> rank (fst h) < rank l" and "a = Lock_shared \<Longrightarrow> rank (fst h) < rank Devices_mtx"
proof -
  note o = locks_okD(1) [OF assms(1), of t]
  then have "rest s t \<noteq> []" using assms(2) by auto
  then obtain a p where "rest s t = a # p" by (cases "rest s t") auto
  moreover have "a = Lock_shared \<Longrightarrow> rank (fst h) < rank Devices_mtx" using o assms(2) calculation by fastforce
  moreover have "a = Lock l \<Longrightarrow> rank (fst h) < rank l" for l using o assms(2) calculation(1) by auto
  ultimately show thesis using that o by metis
qed

lemma holds_iff: "(\<exists>b. (l, b) \<in> holds s t) \<longleftrightarrow> own s l = Some t \<or> l = Devices_mtx \<and> t \<in> readers s"
  by (auto simp: holds_def)

lemma holder_proceeds:
  assumes "locks_ok s" and "(l, b) \<in> holds s t"
  shows "\<exists>u. proceeds s u"
  using assms(2)
proof (induction "8 - rank l" arbitrary: l b t rule: less_induct)
  case less
  obtain a p where n: "rest s t = a # p" "\<And>k. a = Lock k \<Longrightarrow> rank l < rank k" "a = Lock_shared \<Longrightarrow> rank l < rank Devices_mtx"
    using next_of_holder [OF assms(1) less.prems] by (metis fst_conv)
  have higher: "\<exists>u. proceeds s u" if "rank l < rank k" "(k, c) \<in> holds s u" for k c u
  proof (rule less.hyps [OF _ that(2)])
    have "rank k \<le> 7" by (cases k) simp_all
    then show "8 - rank k < 8 - rank l" using that(1) by linarith
  qed
  have ok: "act_ok s t a" using locks_okD(2) [OF assms(1), of a t] n(1) by simp
  show ?case
  proof (cases a)
    case (Lock k)
    show ?thesis
    proof (cases "perform t a s")
      case None
      then obtain u where "own s k = Some u \<or> k = Devices_mtx \<and> u \<in> readers s" using Lock by (auto split: if_splits)
      then obtain c where "(k, c) \<in> holds s u" using holds_iff by blast
      then show ?thesis using higher n(2) [OF Lock] by blast
    qed (use n(1) Lock in \<open>auto simp: proceeds_def intro!: exI [of _ t]\<close>)
  next
    case Lock_shared
    have up: "rank l < rank Devices_mtx" by (rule n(3) [OF Lock_shared])
    show ?thesis
    proof (cases "own s Devices_mtx = None")
      case False
      then obtain u where "own s Devices_mtx = Some u" by blast
      then obtain c where "(Devices_mtx, c) \<in> holds s u" using holds_iff by blast
      then show ?thesis using higher up by blast
    next
      case free: True
      show ?thesis
      proof (cases "\<exists>u r. rest s u = Lock Devices_mtx # r")
        case True
        then obtain u r where u: "rest s u = Lock Devices_mtx # r" by blast
        show ?thesis
        proof (cases "readers s = {}")
          case True
          then show ?thesis using u free by (intro exI [of _ u]) (simp add: proceeds_def)
        next
          case False
          then obtain v where "v \<in> readers s" by blast
          then obtain c where "(Devices_mtx, c) \<in> holds s v" using holds_iff by blast
          then show ?thesis using higher up by blast
        qed
      next
        case False
        then show ?thesis using free n(1) Lock_shared by (intro exI [of _ t]) (simp add: proceeds_def)
      qed
    qed
  qed (use n(1) ok in \<open>auto simp: proceeds_def intro!: exI [of _ t]\<close>)
qed

lemma busy_proceeds:
  assumes "locks_ok s" and "rest s t \<noteq> []"
  shows "\<exists>u. proceeds s u"
proof (cases "\<exists>u l b. (l, b) \<in> holds s u")
  case True
  then show ?thesis using holder_proceeds [OF assms(1)] by blast
next
  case False
  then have free: "own s l = None" "readers s = {}" for l using holds_iff [of l s] holds_iff [of Devices_mtx s] by auto
  obtain a p where n: "rest s t = a # p" using assms(2) by (cases "rest s t") auto
  have ok: "act_ok s t a" using locks_okD(2) [OF assms(1), of a t] n by simp
  show ?thesis
  proof (cases "a = Lock_shared \<and> (\<exists>u r. rest s u = Lock Devices_mtx # r)")
    case True
    then obtain u r where "rest s u = Lock Devices_mtx # r" by blast
    then show ?thesis using free by (intro exI [of _ u]) (simp add: proceeds_def)
  next
    case False
    then show ?thesis using free n ok by (intro exI [of _ t]) (cases a; auto simp: proceeds_def)
  qed
qed

subsection \<open>A client deleted before it runs\<close>

definition stuck :: "nat \<Rightarrow> lstate \<Rightarrow> bool" where
  \<comment> \<open>the main thread joins the client with the list locked, and the client waits for the list\<close>
  "stuck c s \<longleftrightarrow> rest s Main = [Join c, Erase c, Unlock Clients_mtx] \<and> rest s (Client c) = section_of Clients_mtx \<and>
     own s Clients_mtx = Some Main \<and> phase_of s c = Started"

definition orderly :: "nat \<Rightarrow> lstate \<Rightarrow> bool" where
  "orderly c s \<longleftrightarrow> (\<forall>t. ordered (holds s t) (rest s t) \<and> (t \<noteq> Main \<longrightarrow> Spawn c \<notin> set (rest s t)) \<and>
     (t \<noteq> Client c \<longrightarrow> Finish c \<notin> set (rest s t)))"

lemma own_of_sections [simp]:
  "Spawn c \<notin> set (section_of l)" "Finish c \<notin> set (section_of l)"
  "Spawn c \<notin> set (send_frame_locks out)" "Finish c \<notin> set (send_frame_locks out)"
  by (cases out; simp add: section_of_def send_frame_locks_def)+

lemma own_of_client [simp]: "Spawn c \<notin> set (client_locks x)" "Finish c \<notin> set (client_locks x)"
  by (cases x; simp add: client_locks_def node_request_locks_def)+

lemma begins_threads: "begins s t p \<Longrightarrow> (Spawn c \<in> set p \<longrightarrow> t = Main) \<and> (Finish c \<in> set p \<longrightarrow> t = Client c)"
proof (induction rule: begins.induct)
  case (receives frame answer)
  show ?case by (cases frame) (auto simp: recv_locks_def notify_locks_def observer_locks_def)
next
  case (updates u)
  show ?case by (cases u) (auto simp: update_locks_def notify_event_locks_def)
qed (auto simp: accept_locks_def collect_locks_def cleanup_locks_def)

lemma orderly_step:
  assumes "orderly c s" and "lstep s s'"
  shows "orderly c s'"
  using assms(2)
proof (cases rule: lstep.cases)
  case (begin_op t p)
  have "ordered (holds s t) (rest s t)" using assms(1) unfolding orderly_def by blast
  then have "holds s t = {}" using begin_op(2) by simp
  moreover note begins_ordered [OF begin_op(3)] begins_threads [OF begin_op(3)]
  ultimately show ?thesis using assms(1) by (auto simp: begin_op(1) orderly_def)
next
  case (start_thread d)
  have "holds s' = holds s" "rest s' = rest s" by (simp_all add: start_thread(1) holds_def fun_eq_iff)
  then show ?thesis using assms(1) by (simp add: orderly_def)
next
  case (call t a p q s1)
  have o: "ordered (holds s t) (a # p)" using assms(1) call(2) by (metis orderly_def)
  note h = holds_perform [OF call(3) o]
  have q: "Spawn c \<notin> set q" "Finish c \<notin> set q" using call(3) by (cases a; auto split: if_splits)+
  have "set p \<subseteq> set (rest s t)" using call(2) by auto
  then show ?thesis using assms(1) h q by (auto simp: call(1) orderly_def)
qed

lemma stuck_step:
  assumes "stuck c s" and "orderly c s" and "lstep s s'"
  shows "stuck c s'"
  using assms(3)
proof (cases rule: lstep.cases)
  case (begin_op t p)
  then have "t \<noteq> Main" "t \<noteq> Client c" using assms(1) by (auto simp: stuck_def section_of_def)
  then show ?thesis using assms(1) by (simp add: begin_op(1) stuck_def)
next
  case (start_thread d)
  then show ?thesis using assms(1) by (auto simp: stuck_def)
next
  case (call t a p q s1)
  have t: "t \<noteq> Main" "t \<noteq> Client c"
    using call(2,3) assms(1) by (auto simp: stuck_def section_of_def split: if_splits)
  have o: "ordered (holds s t) (a # p)" "a \<noteq> Spawn c" "a \<noteq> Finish c"
    using assms(2) call(2) t unfolding orderly_def by (metis, metis list.set_intros(1), metis list.set_intros(1))
  note h = holds_perform [OF call(3) o(1)]
  have "(Clients_mtx, False) \<in> holds s Main" using assms(1) by (simp add: stuck_def holds_def)
  then have "(Clients_mtx, False) \<in> holds s1 Main" using h t(1) by simp
  then have "own s1 Clients_mtx = Some Main" by (auto simp: holds_def split: if_splits)
  moreover have "phase_of s1 c = Started" using call(3) o(2,3) assms(1) by (cases a) (auto simp: stuck_def split: if_splits)
  ultimately show ?thesis using assms(1) h t by (simp add: call(1) stuck_def)
qed

lemma stuck_for_ever:
  assumes "lstep\<^sup>*\<^sup>* s s'" and "stuck c s" and "orderly c s"
  shows "stuck c s' \<and> orderly c s'"
  using assms by (induction rule: rtranclp_induct) (auto intro: stuck_step orderly_step)

lemma stuck_blocks: "stuck c s \<Longrightarrow> \<not> proceeds s Main \<and> \<not> proceeds s (Client c)"
  by (simp add: stuck_def proceeds_def section_of_def)

lemma orderly_init: "orderly c threads_init"
  by (simp add: orderly_def threads_init_def holds_def)

lemma call_next: "lstep\<^sup>*\<^sup>* s0 s \<Longrightarrow> rest s t = a # p \<Longrightarrow> perform t a s = Some (q, s1) \<Longrightarrow>
    lstep\<^sup>*\<^sup>* s0 (s1\<lparr>rest := (rest s1)(t := q @ p)\<rparr>)"
  by (blast intro: rtranclp.rtrancl_into_rtrancl lstep.call)

lemma begin_next: "lstep\<^sup>*\<^sup>* s0 s \<Longrightarrow> rest s t = [] \<Longrightarrow> begins s t p \<Longrightarrow> lstep\<^sup>*\<^sup>* s0 (s\<lparr>rest := (rest s)(t := p)\<rparr>)"
  by (blast intro: rtranclp.rtrancl_into_rtrancl lstep.begin_op)

lemma start_next: "lstep\<^sup>*\<^sup>* s0 s \<Longrightarrow> phase_of s c = New \<Longrightarrow> lstep\<^sup>*\<^sup>* s0 (s\<lparr>phase_of := (phase_of s)(c := Started)\<rparr>)"
  by (blast intro: rtranclp.rtrancl_into_rtrancl lstep.start_thread)

definition on_the_way ::
  "act list \<Rightarrow> (nat \<Rightarrow> act list) \<Rightarrow> bool \<Rightarrow> (nat \<Rightarrow> phase) \<Rightarrow> nat list \<Rightarrow> bool \<Rightarrow> lstate" where
  \<comment> \<open>the main thread and clients, all others idle\<close>
  "on_the_way m c locked ph ls e = \<lparr>rest = (\<lambda>t. case t of Main \<Rightarrow> m | Client n \<Rightarrow> c n | _ \<Rightarrow> []),
     own = (if locked then [Clients_mtx \<mapsto> Main] else (\<lambda>_. None)), readers = {}, phase_of = ph, listed = ls, event_set = e\<rparr>"

lemma on_the_way_simps [simp]:
  "rest (on_the_way m c locked ph ls e) Main = m" "rest (on_the_way m c locked ph ls e) (Client n) = c n"
  "phase_of (on_the_way m c locked ph ls e) = ph" "listed (on_the_way m c locked ph ls e) = ls"
  "event_set (on_the_way m c locked ph ls e) = e" "readers (on_the_way m c locked ph ls e) = {}"
  "own (on_the_way m c locked ph ls e) Clients_mtx = (if locked then Some Main else None)"
  by (simp_all add: on_the_way_def)

lemma on_the_way_upds:
  "(on_the_way m c locked ph ls e)\<lparr>rest := (rest (on_the_way m c locked ph ls e))(Main := m')\<rparr> = on_the_way m' c locked ph ls e"
  "(on_the_way m c locked ph ls e)\<lparr>rest := (rest (on_the_way m c locked ph ls e))(Client n := q)\<rparr> =
     on_the_way m (c(n := q)) locked ph ls e"
  "(on_the_way m c locked ph ls e)\<lparr>phase_of := ph'\<rparr> = on_the_way m c locked ph' ls e"
  "(on_the_way m c locked ph ls e)\<lparr>phase_of := ph', listed := ls'\<rparr> = on_the_way m c locked ph' ls' e"
  "(on_the_way m c locked ph ls e)\<lparr>own := (own (on_the_way m c locked ph ls e))(Clients_mtx := Some Main)\<rparr> =
     on_the_way m c True ph ls e"
  "(on_the_way m c locked ph ls e)\<lparr>own := (own (on_the_way m c locked ph ls e))(Clients_mtx := None)\<rparr> =
     on_the_way m c False ph ls e"
  "(on_the_way m c locked ph ls e)\<lparr>listed := ls'\<rparr> = on_the_way m c locked ph ls' e"
  "(on_the_way m c locked ph ls e)\<lparr>event_set := e'\<rparr> = on_the_way m c locked ph ls e'"
  by (auto simp: on_the_way_def fun_eq_iff split: thread.split)

lemma on_the_way_begin:
  assumes "lstep\<^sup>*\<^sup>* s0 (on_the_way [] c locked ph ls e)" and "begins (on_the_way [] c locked ph ls e) Main p"
  shows "lstep\<^sup>*\<^sup>* s0 (on_the_way p c locked ph ls e)"
  using begin_next [OF assms(1) _ assms(2)] by (simp only: on_the_way_simps on_the_way_upds)

lemma on_the_way_serve:
  assumes "lstep\<^sup>*\<^sup>* s0 (on_the_way m c locked ph ls e)" and "c n = []" and "ph n = Started"
    and "p = client_locks x \<or> p = cleanup_locks n ns"
  shows "lstep\<^sup>*\<^sup>* s0 (on_the_way m (c(n := p)) locked ph ls e)"
proof -
  have "begins (on_the_way m c locked ph ls e) (Client n) p" using assms(3,4) serves leaves by auto
  from begin_next [OF assms(1) _ this] show ?thesis using assms(2) by (simp only: on_the_way_simps on_the_way_upds)
qed

lemma on_the_way_start:
  assumes "lstep\<^sup>*\<^sup>* s0 (on_the_way m c locked ph ls e)" and "ph n = New"
  shows "lstep\<^sup>*\<^sup>* s0 (on_the_way m c locked (ph(n := Started)) ls e)"
  using start_next [OF assms(1), of n] assms(2) by (simp only: on_the_way_simps on_the_way_upds)

lemma on_the_way_call:
  assumes "lstep\<^sup>*\<^sup>* s0 (on_the_way (a # p) c locked ph ls e)"
    and "perform Main a (on_the_way (a # p) c locked ph ls e) = Some (q, on_the_way (a # p) c locked' ph' ls' e')"
  shows "lstep\<^sup>*\<^sup>* s0 (on_the_way (q @ p) c locked' ph' ls' e')"
  using call_next [OF assms(1) _ assms(2)] by (simp only: on_the_way_upds on_the_way_simps)

lemma on_the_way_client_call:
  assumes "lstep\<^sup>*\<^sup>* s0 (on_the_way m c locked ph ls e)" and "c n = a # p"
    and "perform (Client n) a (on_the_way m c locked ph ls e) = Some ([], on_the_way m c locked ph' ls e')"
  shows "lstep\<^sup>*\<^sup>* s0 (on_the_way m (c(n := p)) locked ph' ls e')"
  using call_next [OF assms(1) _ assms(3)] assms(2) by (simp add: on_the_way_upds)

lemmas on_the_way_quiet = on_the_way_call [where q = "[]", unfolded append.simps]

lemma accepted:
  assumes "lstep\<^sup>*\<^sup>* s0 (on_the_way [] c False ph ls e)" and "ph n = Absent"
  shows "lstep\<^sup>*\<^sup>* s0 (on_the_way [] c False (ph(n := New)) (ls @ [n]) e)"
proof -
  have "lstep\<^sup>*\<^sup>* s0 (on_the_way (accept_locks n) c False ph ls e)"
    by (rule on_the_way_begin [OF assms(1)]) (simp add: accepts assms(2))
  then have "lstep\<^sup>*\<^sup>* s0 (on_the_way [Spawn n, Unlock Clients_mtx] c True ph ls e)"
    unfolding accept_locks_def by (rule on_the_way_quiet) (simp add: on_the_way_upds)
  then have "lstep\<^sup>*\<^sup>* s0 (on_the_way [Unlock Clients_mtx] c True (ph(n := New)) (ls @ [n]) e)"
    by (rule on_the_way_quiet) (simp add: on_the_way_upds)
  then show ?thesis by (rule on_the_way_quiet) (simp add: on_the_way_upds)
qed

lemma left:
  assumes "lstep\<^sup>*\<^sup>* s0 (on_the_way m (\<lambda>_. []) False ph ls e)" and "ph n = New"
  shows "lstep\<^sup>*\<^sup>* s0 (on_the_way m (\<lambda>_. []) False (ph(n := Ended)) ls True)"
proof -
  let ?i = "\<lambda>_. [] :: act list"
  have "lstep\<^sup>*\<^sup>* s0 (on_the_way m (?i(n := cleanup_locks n [])) False (ph(n := Started)) ls e)"
    by (rule on_the_way_serve [OF on_the_way_start [OF assms], where ns = "[]"]) simp_all
  then have "lstep\<^sup>*\<^sup>* s0 (on_the_way m ((?i(n := cleanup_locks n []))(n := [Finish n])) False (ph(n := Started)) ls True)"
    by (rule on_the_way_client_call [where a = Trigger]) (simp_all add: cleanup_locks_def on_the_way_upds)
  then have "lstep\<^sup>*\<^sup>* s0 (on_the_way m (?i(n := [Finish n])) False (ph(n := Started)) ls True)" by simp
  then have "lstep\<^sup>*\<^sup>* s0 (on_the_way m ((?i(n := [Finish n]))(n := [])) False ((ph(n := Started))(n := Ended)) ls True)"
    by (rule on_the_way_client_call [where a = "Finish n"]) (simp_all add: on_the_way_upds)
  then show ?thesis by (simp add: fun_upd_idem)
qed

lemma stuck_reachable: "\<exists>s. lstep\<^sup>*\<^sup>* threads_init s \<and> stuck 1 s"
proof -
  let ?i = "\<lambda>_. [] :: act list"
  let ?ph = "((\<lambda>_. Absent)(0 := Ended))(1 := New)"
  let ?run = "\<lambda>m c locked ph ls e. lstep\<^sup>*\<^sup>* threads_init (on_the_way m c locked ph ls e)"
  have "threads_init = on_the_way [] ?i False (\<lambda>_. Absent) [] False"
    by (simp add: on_the_way_def threads_init_def fun_eq_iff split: thread.split)
  then have "?run [] ?i False (\<lambda>_. Absent) [] False" by simp
  then have "?run [] ?i False ((\<lambda>_. Absent)(0 := New)) ([] @ [0]) False" by (rule accepted) simp
  then have "?run [] ?i False (((\<lambda>_. Absent)(0 := New))(0 := Ended)) ([] @ [0]) True" by (rule left) simp
  then have "?run [] ?i False ((((\<lambda>_. Absent)(0 := New))(0 := Ended))(1 := New)) (([] @ [0]) @ [1]) True" by (rule accepted) simp
  then have "?run [] ?i False ?ph [0, 1] True" by simp
  then have "?run (collect_locks [0, 1]) ?i False ?ph [0, 1] True"
    by (rule on_the_way_begin) (use collects [of "on_the_way [] ?i False ?ph [0, 1] True"] in simp)
  then have "?run [Lock Clients_mtx, Reap 0, Reap 1, Unlock Clients_mtx] ?i False ?ph [0, 1] False"
    unfolding collect_locks_def list.map append.simps by (rule on_the_way_quiet) (simp add: on_the_way_upds)
  then have "?run [Reap 0, Reap 1, Unlock Clients_mtx] ?i True ?ph [0, 1] False"
    by (rule on_the_way_quiet) (simp add: on_the_way_upds)
  then have "?run ([Stop 0, Join 0, Erase 0] @ [Reap 1, Unlock Clients_mtx]) ?i True ?ph [0, 1] False"
    by (rule on_the_way_call) simp
  then have "?run [Join 0, Erase 0, Reap 1, Unlock Clients_mtx] ?i True ?ph [0, 1] False"
    unfolding append.simps by (rule on_the_way_quiet) simp
  then have "?run [Erase 0, Reap 1, Unlock Clients_mtx] ?i True ?ph [0, 1] False"
    by (rule on_the_way_quiet) simp
  then have "?run [Reap 1, Unlock Clients_mtx] ?i True ?ph [1] False"
    by (rule on_the_way_quiet) (simp add: on_the_way_upds)
  then have "?run ([Stop 1, Join 1, Erase 1] @ [Unlock Clients_mtx]) ?i True ?ph [1] False"
    by (rule on_the_way_call) simp
  then have "?run ([Stop 1, Join 1, Erase 1] @ [Unlock Clients_mtx]) ?i True (?ph(1 := Started)) [1] False"
    by (rule on_the_way_start) simp
  then have "?run ([Stop 1, Join 1, Erase 1] @ [Unlock Clients_mtx]) (?i(1 := client_locks Count_clients)) True (?ph(1 := Started)) [1] False"
    by (rule on_the_way_serve [where x = Count_clients]) simp_all
  then have "?run [Join 1, Erase 1, Unlock Clients_mtx] (?i(1 := client_locks Count_clients)) True (?ph(1 := Started)) [1] False"
    unfolding append.simps by (rule on_the_way_quiet) simp
  moreover have "stuck 1 (on_the_way [Join 1, Erase 1, Unlock Clients_mtx] (?i(1 := client_locks Count_clients)) True (?ph(1 := Started)) [1] False)"
    by (simp add: stuck_def client_locks_def)
  ultimately show ?thesis by blast
qed

text \<open>
  C11. The mutexes never bring h9d to a standstill as long as a client has begun to run before the main thread looks
  at it: whatever the threads do and however their calls interleave, while any thread is inside an operation, the
  next call of some thread returns, whether the shared mutex prefers readers or writers. Without that condition
  the main thread and a new client can stop each other: one client leaves, another connects, and the main thread,
  looking for the first, deletes the second too, because its thread has not begun; it joins it with the list locked,
  while the client has begun in between and asks for the number of clients.
  Then neither of the two ever makes another call.
\<close>

theorem mutexes_never_block:
  "(timely_step\<^sup>*\<^sup>* threads_init s \<and> rest s t \<noteq> [] \<longrightarrow> (\<exists>u. proceeds s u)) \<and>
   (\<exists>s. lstep\<^sup>*\<^sup>* threads_init s \<and>
     (\<forall>s'. lstep\<^sup>*\<^sup>* s s' \<longrightarrow> stuck 1 s' \<and> \<not> proceeds s' Main \<and> \<not> proceeds s' (Client 1)))"
proof (intro conjI impI)
  assume "timely_step\<^sup>*\<^sup>* threads_init s \<and> rest s t \<noteq> []"
  then show "\<exists>u. proceeds s u" using busy_proceeds mutexes.reachable_inv [OF refl] by blast
next
  have "orderly 1 s" if "lstep\<^sup>*\<^sup>* threads_init s" for s
    using that by (induction rule: rtranclp_induct) (auto intro: orderly_step orderly_init)
  then show "\<exists>s. lstep\<^sup>*\<^sup>* threads_init s \<and>
     (\<forall>s'. lstep\<^sup>*\<^sup>* s s' \<longrightarrow> stuck 1 s' \<and> \<not> proceeds s' Main \<and> \<not> proceeds s' (Client 1))"
    using stuck_reachable stuck_for_ever stuck_blocks by metis
qed

theorem mutexes_never_block_witness:
  "timely_step\<^sup>*\<^sup>* threads_init (threads_init\<lparr>rest := (rest threads_init)(Updater := update_locks (Event 16 [1, 2]))\<rparr>) \<and>
   (\<exists>u. proceeds (threads_init\<lparr>rest := (rest threads_init)(Updater := update_locks (Event 16 [1, 2]))\<rparr>) u)"
proof -
  let ?s = "threads_init\<lparr>rest := (rest threads_init)(Updater := update_locks (Event 16 [1, 2]))\<rparr>"
  have "lstep threads_init ?s" by (intro begin_op updates) (simp add: threads_init_def)
  then have "timely_step\<^sup>*\<^sup>* threads_init ?s"
    by (intro r_into_rtranclp) (simp add: timely_step_def timely_def threads_init_def)
  then show ?thesis
    using mutexes_never_block [of ?s Updater] by (simp add: update_locks_def section_of_def)
qed

end
