(* ===== verification/H9_Transport.thy ===== *)
theory H9_Transport
  imports H9_Server
begin

text \<open>
  Messages over a connection, from the object at one end to the object at the other: \<open>GenericMsg::serialize\<close>
  (\<open>protocol/genericmsg.cc\<close>), \<open>H9MsgSocket::send\<close> (\<open>h9msgsocket.cc\<close>), the two calls of \<open>::send\<close> in
  \<open>h9socket.cc\<close>, the receive buffers of H9_Socket, and the constructor that parses. The text libxml2 writes and
  reads is a parameter: \<open>dump\<close> and \<open>rd\<close>, with the law that reading what was written gives a document that
  reads the same. The text of an element with children is exempt, since the indentation adds blanks there.
\<close>

subsection \<open>Documents as text\<close>

definition ascii :: "string \<Rightarrow> bool" where
  \<comment> \<open>printable characters, which every encoding of a document keeps\<close>
  "ascii s \<longleftrightarrow> list_all (\<lambda>c. 32 \<le> (of_char c :: nat) \<and> (of_char c :: nat) < 127) s"

definition lower :: "char \<Rightarrow> bool" where
  "lower c \<longleftrightarrow> 97 \<le> (of_char c :: nat) \<and> (of_char c :: nat) \<le> 122"

definition xml_word :: "string \<Rightarrow> bool" where
  \<comment> \<open>the names of elements and attributes of the protocol\<close>
  "xml_word s \<longleftrightarrow> s \<noteq> [] \<and> lower (hd s) \<and> list_all (\<lambda>c. lower c \<or> c = CHR ''-'' \<or> c = CHR ''9'') s"

definition plain_attrs :: "'n libxml \<Rightarrow> 'n \<Rightarrow> bool" where
  "plain_attrs X n \<longleftrightarrow> (\<forall>k v. xget_prop X n k = Some v \<longrightarrow> xml_word k \<and> ascii v)"

inductive plain :: "'n libxml \<Rightarrow> 'n \<Rightarrow> bool" for X where
  plain: "xml_word (xname X n) \<Longrightarrow> plain_attrs X n \<Longrightarrow> \<forall>c \<in> set (xelems X n). plain X c \<Longrightarrow>
     (xelems X n = [] \<longrightarrow> (\<forall>t. xtext X n = Some t \<longrightarrow> ascii t)) \<Longrightarrow> plain X n"

inductive same_node :: "'n libxml \<Rightarrow> 'n \<Rightarrow> 'n \<Rightarrow> bool" for X where
  \<comment> \<open>the same name, attributes and children, and the same text in an element without children\<close>
  same_node: "xname X a = xname X b \<Longrightarrow> \<forall>k. xget_prop X a k = xget_prop X b k \<Longrightarrow>
   list_all2 (same_node X) (xelems X a) (xelems X b) \<Longrightarrow> (xelems X a = [] \<longrightarrow> xtext X a = xtext X b) \<Longrightarrow> same_node X a b"

inductive_simps plain_iff: "plain X n"
inductive_simps same_node_iff: "same_node X a b"

definition dump_laws :: "'n libxml \<Rightarrow> ('n \<Rightarrow> string) \<Rightarrow> (string \<Rightarrow> 'n option) \<Rightarrow> bool" where
  \<comment> \<open>\<open>xmlDocDumpFormatMemory\<close> and \<open>xmlReadMemory\<close>: the text has no zero, and no document is empty\<close>
  "dump_laws X dump rd \<longleftrightarrow> rd [] = None \<and>
     (\<forall>n. plain X n \<longrightarrow> dump n \<noteq> [] \<and> CHR 0x00 \<notin> set (dump n) \<and> (\<exists>n'. rd (dump n) = Some n' \<and> same_node X n n'))"

definition doc_tree :: "'n libxml \<Rightarrow> 'n gmsg \<Rightarrow> 'n" where
  \<comment> \<open>the document of a message made here: its element below the root\<close>
  "doc_tree X m = (case msg_node m of None \<Rightarrow> doc_root m | Some n \<Rightarrow> xadd_child X (doc_root m) n)"

definition serialize :: "'n libxml \<Rightarrow> ('n \<Rightarrow> string) \<Rightarrow> 'n gmsg \<Rightarrow> string" where
  \<comment> \<open>a \<open>std::string\<close> from the pointer: up to the first zero\<close>
  "serialize X dump m = takeWhile (\<lambda>c. c \<noteq> CHR 0x00) (dump (doc_tree X m))"

subsection \<open>Message sockets\<close>

definition accepted_socket :: "int \<Rightarrow> u8 list \<Rightarrow> u8 list \<Rightarrow> h9socket res" where
  \<comment> \<open>\<open>H9MsgSocket(int)\<close>: throws in a \<open>noexcept\<close> constructor when \<open>getpeername\<close> fails\<close>
  "accepted_socket peer h d = (if peer < 0 then Inl Terminate else Inr (new_h9socket h d))"

definition sock_recv_timed :: "int \<Rightarrow> int \<times> int \<Rightarrow> u8 list \<Rightarrow> os_recv \<Rightarrow> os_recv \<Rightarrow> int \<times> h9socket \<Rightarrow>
    recv_result \<times> int \<times> h9socket" where
  \<comment> \<open>\<open>recv\<close> with its second argument: result and \<open>errno\<close> of \<open>setsockopt\<close>; the time set on the socket stays\<close>
  "sock_recv_timed t opt g r1 r2 ts = (if t \<noteq> 0 \<and> fst opt < 0 then (Ret (Os_error (snd opt)), ts)
     else let (r, s) = sock_recv g r1 r2 (snd ts) in (r, if t \<noteq> 0 then t else fst ts, s))"

lemma recv_untimed: "sock_recv_timed 0 opt g r1 r2 (t, s) = (let (r, s1) = sock_recv g r1 r2 s in (r, t, s1))"
  by (simp add: sock_recv_timed_def)

lemma sock_recv_timed_inv:
  assumes "sock_inv s" and "recv_allowed s r1 r2"
  shows "sock_inv (snd (snd (sock_recv_timed t opt g r1 r2 (u, s))))"
proof -
  obtain r s1 where r: "sock_recv g r1 r2 s = (r, s1)" by force
  then have "sock_inv s1" using sock_recv_refines [OF assms r] by blast
  then show ?thesis using assms(1) r by (simp add: sock_recv_timed_def)
qed

subsection \<open>Sending\<close>

definition chunks :: "string \<Rightarrow> u8 list list" where
  \<comment> \<open>what the two calls of \<open>::send\<close> are given\<close>
  "chunks s = [be32_bytes (length s), to_bytes s]"

definition sent_bytes :: "int \<Rightarrow> int \<Rightarrow> string \<Rightarrow> u8 list" where
  \<comment> \<open>what the system took, for the results of the two calls; the second is not made after a failure\<close>
  "sent_bytes n1 n2 s = (if n1 \<le> 0 then [] else take (nat n1) (be32_bytes (length s)) @ take (nat n2) (to_bytes s))"

definition msg_socket_send ::
  "'n libxml \<Rightarrow> ('n \<Rightarrow> string) \<Rightarrow> int \<times> int \<Rightarrow> u64 \<Rightarrow> 'n gmsg \<Rightarrow> int \<times> u8 list" where
  \<comment> \<open>\<open>H9MsgSocket::send(msg, id)\<close>\<close>
  "msg_socket_send X dump r i m = (let s = serialize X dump (set_id X i m)
     in (sock_send (fst r) (snd r) s, sent_bytes (fst r) (snd r) s))"

fun send_messages ::
  "'n libxml \<Rightarrow> ('n \<Rightarrow> string) \<Rightarrow> u64 \<Rightarrow> ('n gmsg \<times> int \<times> int) list \<Rightarrow> (u64 \<times> int) list \<times> u8 list" where
  \<comment> \<open>\<open>H9MsgSocket::send(msg)\<close> for one message after another: the numbers and results, and the bytes\<close>
  "send_messages X dump n [] = ([], [])"
| "send_messages X dump n ((m, r) # ms) = (let i = next_id n; (res, bs) = msg_socket_send X dump r i m;
     (rs, bss) = send_messages X dump i ms in ((i, res) # rs, bs @ bss))"

subsection \<open>What the other end reads\<close>

definition fresh_msg :: "'n libxml \<Rightarrow> 'n gmsg \<Rightarrow> bool" where
  \<comment> \<open>made by a constructor of its type, not by parsing\<close>
  "fresh_msg X m \<longleftrightarrow> msg_node m \<noteq> None \<and> xelems X (doc_root m) = [] \<and> plain X (doc_tree X m)"

definition same_message :: "'n libxml \<Rightarrow> 'n gmsg \<Rightarrow> 'n gmsg \<Rightarrow> bool" where
  "same_message X m g \<longleftrightarrow> rel_option (same_node X) (msg_node m) (msg_node g) \<and>
     xname X (doc_root m) = xname X (doc_root g) \<and> (\<forall>k. xget_prop X (doc_root m) k = xget_prop X (doc_root g) k)"

definition reads :: "'n libxml \<Rightarrow> u64 \<Rightarrow> 'n gmsg \<Rightarrow> 'n msg_recv res \<Rightarrow> bool" where
  \<comment> \<open>the result is the message with the number\<close>
  "reads X i m r \<longleftrightarrow> (\<exists>g. r = Inr (Got_msg g) \<and> same_message X (set_id X i m) g \<and> get_id X g = Inr i \<and>
     get_request_id X g = get_request_id X m \<and> get_type X g = get_type X m \<and> get_frame X g = get_frame X m \<and>
     get_method_name X g = get_method_name X m)"


subsection \<open>Lemmas\<close>

lemma same_messageD:
  assumes "same_message X m g"
  shows "msg_prop X g k = msg_prop X m k" "get_type X g = get_type X m"
    "get_id X g = get_id X m" "get_request_id X g = get_request_id X m"
proof -
  have "rel_option (same_node X) (msg_node m) (msg_node g)"
    and r: "xget_prop X (doc_root m) k = xget_prop X (doc_root g) k" for k
    using assms by (auto simp: same_message_def)
  then consider "msg_node m = None" "msg_node g = None"
    | n n' where "msg_node m = Some n" "msg_node g = Some n'" "same_node X n n'"
    by (cases "msg_node m"; cases "msg_node g") simp_all
  then show "msg_prop X g k = msg_prop X m k" "get_type X g = get_type X m"
    by (cases, simp_all add: msg_prop_def get_type_def same_node_iff)+
  show "get_id X g = get_id X m" "get_request_id X g = get_request_id X m"
    using r by (simp_all add: get_id_def get_request_id_def)
qed

lemma same_message_reads:
  assumes "same_message X m g"
  shows "get_frame X g = get_frame X m" "get_method_name X g = get_method_name X m"
  using same_messageD(1) [OF assms] by (simp_all add: get_frame_def get_method_name_def)

lemma ascii_dec [simp]: "ascii (dec_string n)"
  unfolding ascii_def list_all_iff
proof
  fix c assume "c \<in> set (dec_string n)"
  then obtain d where "d < 10" "c = digit_char False d" using dec_string_chars by blast
  then show "32 \<le> (of_char c :: nat) \<and> (of_char c :: nat) < 127"
    by (auto simp: digit_char_def)
qed

lemma plain_set_id:
  assumes "xml_laws X" and "msg_node m \<noteq> None" and "plain X (doc_tree X m)"
  shows "plain X (doc_tree X (set_id X i m))"
proof -
  obtain n where n: "msg_node m = Some n" using assms(2) by blast
  have "xml_word ''id''" by (simp add: xml_word_def lower_def)
  then show ?thesis
    using assms(3) assms(1)
    unfolding plain_iff [of X "doc_tree X m"] plain_iff [of X "doc_tree X (set_id X i m)"]
    by (auto simp: doc_tree_def n set_id_def plain_attrs_def)
qed

lemma fresh_msg_set_id: "xml_laws X \<Longrightarrow> fresh_msg X m \<Longrightarrow> fresh_msg X (set_id X i m)"
  using plain_set_id by (auto simp: fresh_msg_def set_id_def)

lemma parsed_reads:
  assumes "xml_laws X" and "dump_laws X dump rd" and "fresh_msg X m"
  shows "\<exists>g. parsed_msg X (rd (serialize X dump m)) = Inr g \<and> same_message X m g"
proof -
  obtain n where n: "msg_node m = Some n" "xelems X (doc_root m) = []" "plain X (doc_tree X m)"
    using assms(3) by (auto simp: fresh_msg_def)
  then obtain d where d: "rd (dump (doc_tree X m)) = Some d" "same_node X (doc_tree X m) d" "CHR 0x00 \<notin> set (dump (doc_tree X m))"
    using assms(2) by (auto simp: dump_laws_def)
  have "\<forall>c \<in> set (dump (doc_tree X m)). c \<noteq> CHR 0x00" using d(3) by metis
  then have "serialize X dump m = dump (doc_tree X m)"
    unfolding serialize_def by (simp only: takeWhile_eq_all_conv)
  moreover obtain n' where "xelems X d = [n']" "same_node X n n'"
    using d(2) unfolding same_node_iff [of X "doc_tree X m" d]
    by (auto simp: doc_tree_def n(1,2) list_all2_Cons1 assms(1))
  moreover have "xname X d = xname X (doc_root m)" "xget_prop X d k = xget_prop X (doc_root m) k" for k
    using d(2) unfolding same_node_iff [of X "doc_tree X m" d] by (simp_all add: doc_tree_def n(1) assms(1))
  ultimately show ?thesis using d(1) n(1) by (simp add: parsed_msg_def same_message_def)
qed

lemma read_back:
  assumes "xml_laws X" and "dump_laws X dump rd" and "fresh_msg X m"
  shows "reads X i m (msg_socket_recv X rd (Msg (serialize X dump (set_id X i m))))"
proof -
  obtain g where g: "parsed_msg X (rd (serialize X dump (set_id X i m))) = Inr g" "same_message X (set_id X i m) g"
    using parsed_reads [OF assms(1,2) fresh_msg_set_id [OF assms(1,3)]] by blast
  have "msg_prop X (set_id X i m) k = msg_prop X m k" "get_type X (set_id X i m) = get_type X m" for k
    by (simp_all add: msg_prop_def get_type_def)
  moreover have "get_frame X (set_id X i m) = get_frame X m" "get_method_name X (set_id X i m) = get_method_name X m"
    using calculation(1) by (simp_all add: get_frame_def get_method_name_def)
  moreover have "get_id X (set_id X i m) = Inr i" "get_request_id X (set_id X i m) = get_request_id X m"
    using assms(1) by (simp_all add: set_id_def get_id_def get_request_id_def)
  ultimately show ?thesis
    using g same_messageD [OF g(2)] same_message_reads [OF g(2)] by (simp add: reads_def msg_socket_recv_def)
qed

definition raw_ok :: "string \<Rightarrow> bool" where
  "raw_ok s \<longleftrightarrow> s \<noteq> [] \<and> length s < 2 ^ 32 \<and> CHR 0x00 \<notin> set s"

subsection \<open>Frame messages\<close>

lemma plain_attrs_simps:
  assumes "xml_laws X"
  shows "plain_attrs X (xnew X t)"
    and "plain_attrs X n \<Longrightarrow> xml_word k \<Longrightarrow> ascii v \<Longrightarrow> plain_attrs X (xnew_prop X n k v)"
    and "plain_attrs X n \<Longrightarrow> xml_word k \<Longrightarrow> ascii v \<Longrightarrow> plain_attrs X (xset_prop X n k v)"
  using assms by (auto simp: plain_attrs_def split: if_splits)

lemma frame_words:
  "xml_word ''endpoint''" "xml_word ''priority''" "xml_word ''type''" "xml_word ''seqnum''" "xml_word ''source''"
  "xml_word ''destination''" "xml_word ''dlc''" "xml_word ''data''" "xml_word ''origin''" "xml_word ''version''" "xml_word ''id''"
  "xml_word ''request-id''" "xml_word ''h9''" "xml_word ''frame''" "xml_word ''sendframe''" "ascii ''0.0''" "ascii ''0''" "ascii ''H''" "ascii ''L''"
  by (simp_all add: xml_word_def lower_def ascii_def)

lemma ascii_hex: "ascii (concat (map (hex_byte up) bs))"
proof -
  have "ascii (hex_byte up b)" for b
  proof -
    have "32 \<le> (of_char (digit_char up d) :: nat) \<and> (of_char (digit_char up d) :: nat) < 127" if "d < 16" for d
      using that by (auto simp: digit_char_def)
    moreover have "32 \<le> (of_char CHR ''0'' :: nat) \<and> (of_char CHR ''0'' :: nat) < 127" by simp
    moreover have "c = CHR ''0'' \<or> (\<exists>d < 16. c = digit_char up d)" if "c \<in> set (hex_byte up b)" for c
      using that by (auto simp: hex_byte_def setw_def hex_string_def dest: digits_of_less [rotated])
    ultimately show ?thesis unfolding ascii_def list_all_iff by blast
  qed
  then show ?thesis by (induction bs) (simp_all add: ascii_def)
qed

lemma plain_frame_node:
  assumes "xml_laws X" and "frame_node X f endpoint n = Inr n'" and "plain_attrs X n" and "ascii endpoint"
  shows "plain_attrs X n' \<and> xname X n' = xname X n \<and> xelems X n' = xelems X n \<and> xtext X n' = xtext X n"
  using assms
  by (auto simp: frame_node_def rbind_Inr_iff Let_def frame_words ascii_hex intro!: plain_attrs_simps)

lemma fresh_made:
  assumes "xml_laws X" and "xelems X (doc_root m) = []" and "xml_word (xname X (doc_root m))" and "plain_attrs X (doc_root m)"
    and "msg_node m = Some n" and "xelems X n = []" and "xtext X n = None" and "xml_word (xname X n)" and "plain_attrs X n"
  shows "fresh_msg X m"
proof -
  have "plain X n" using assms(6-9) by (simp add: plain_iff [of X n])
  then have "plain X (xadd_child X (doc_root m) n)"
    using assms(1-4) by (simp add: plain_iff [of X "xadd_child X (doc_root m) n"] plain_attrs_def)
  then show ?thesis using assms(2,5) by (simp add: fresh_msg_def doc_tree_def)
qed

lemma frame_messages_fresh:
  assumes "xml_laws X" and "wf_frame f" and "unat (dlc f) \<le> 8" and "ascii origin" and "ascii endpoint"
  shows "send_frame_msg X f = Inr m \<Longrightarrow> fresh_msg X m"
    and "frame_msg X f origin endpoint = Inr r \<Longrightarrow> fresh_msg X (set_request_id X i r)"
proof -
  have root: "xelems X (doc_root (get_msg X t)) = []" "xname X (doc_root (get_msg X t)) = ''h9''" "plain_attrs X (doc_root (get_msg X t))"
    for t using assms(1) by (auto simp: get_msg_def new_msg_def frame_words intro!: plain_attrs_simps split: if_splits)
  have node: "plain_attrs X n \<and> xname X n = type_element t \<and> xelems X n = [] \<and> xtext X n = None"
    if "frame_node X f ep (xnew X (type_element t)) = Inr n" "ascii ep" for t n ep
    using plain_frame_node [OF assms(1) that(1) plain_attrs_simps(1) [OF assms(1)] that(2)] assms(1) by simp
  show "fresh_msg X m" if sf: "send_frame_msg X f = Inr m"
  proof -
    obtain n where n: "frame_node X f [] (xnew X (type_element SEND_FRAME)) = Inr n" "m = (get_msg X SEND_FRAME)\<lparr>msg_node := Some n\<rparr>"
      using new_frame_msg_ok [OF assms(1) _ assms(2,3), of SEND_FRAME "[]"] sf by (auto simp: send_frame_msg_def)
    have "ascii []" by (simp add: ascii_def)
    then show ?thesis using node [OF n(1)] root n(2) by (intro fresh_made [OF assms(1), where n = n]) (simp_all add: frame_words)
  qed
  show "fresh_msg X (set_request_id X i r)" if fm: "frame_msg X f origin endpoint = Inr r"
  proof -
    obtain n where n: "frame_node X f endpoint (xnew X (type_element FRAME)) = Inr n"
        "r = with_node (\<lambda>n. xnew_prop X n ''origin'' origin) ((get_msg X FRAME)\<lparr>msg_node := Some n\<rparr>)"
      using new_frame_msg_ok [OF assms(1) _ assms(2,3), of FRAME endpoint] fm by (auto simp: frame_msg_def)
    have "plain_attrs X (xnew_prop X n ''origin'' origin)"
      using node [OF n(1) assms(5)] assms(1,4) by (auto simp: frame_words intro!: plain_attrs_simps)
    moreover have "plain_attrs X (xset_prop X (doc_root (get_msg X FRAME)) ''request-id'' v)" if "ascii v" for v
      using root assms(1) that by (auto simp: frame_words intro!: plain_attrs_simps)
    ultimately show ?thesis
      using node [OF n(1) assms(5)] root assms(1) n(2) by (intro fresh_made [OF assms(1), where n = "xnew_prop X n ''origin'' origin"]) (simp_all add: set_request_id_def frame_words)
  qed
qed

lemma read_in_chunks:
  assumes "raw_ok t" and "length h = 4" and "d \<noteq> []" and "run_allowed rs (new_h9socket h d)"
    and "run_bytes rs (new_h9socket h d) = sock_wire t"
  shows "fst (sock_run rs (new_h9socket h d)) = [t]"
proof -
  obtain ms s where r: "sock_run rs (new_h9socket h d) = (ms, s)" by force
  have "sock_feed [] (sock_wire t) = (received s, ms)"
    using sock_run_refines [OF new_socket_inv [OF assms(2,3)] assms(4) r] assms(5) by simp
  then show ?thesis using feed_message [of t] assms(1) r by (simp add: raw_ok_def)
qed

definition sent_whole :: "int \<times> int \<Rightarrow> string \<Rightarrow> bool" where
  \<comment> \<open>the system took the four bytes of the length and the whole text\<close>
  "sent_whole r s \<longleftrightarrow> fst r = 4 \<and> snd r = int (length s)"

fun numbered :: "u64 \<Rightarrow> 'a list \<Rightarrow> (u64 \<times> 'a) list" where
  "numbered n [] = []"
| "numbered n (m # ms) = (next_id n, m) # numbered (next_id n) ms"

lemma raw_serialized:
  assumes "dump_laws X dump rd" and "fresh_msg X m" and "xml_laws X" and "length (dump (doc_tree X (set_id X i m))) < 2 ^ 32"
  shows "raw_ok (serialize X dump (set_id X i m))"
proof -
  let ?t = "dump (doc_tree X (set_id X i m))"
  have p: "plain X (doc_tree X (set_id X i m))" using fresh_msg_set_id [OF assms(3,2)] by (simp add: fresh_msg_def)
  then have z: "?t \<noteq> []" "CHR 0x00 \<notin> set ?t" using assms(1) unfolding dump_laws_def by blast+
  then have "\<forall>c \<in> set ?t. c \<noteq> CHR 0x00" by metis
  then have "serialize X dump (set_id X i m) = ?t"
    unfolding serialize_def by (simp only: takeWhile_eq_all_conv)
  then show ?thesis using z assms(4) by (simp add: raw_ok_def)
qed

lemma sent_whole_bytes: "sent_whole r s \<Longrightarrow> sent_bytes (fst r) (snd r) s = sock_wire s"
  by (simp add: sent_whole_def sent_bytes_def sock_wire_def)

lemma send_messages_wire:
  assumes "\<forall>(i, m, r) \<in> set (numbered n ms). sent_whole r (serialize X dump (set_id X i m))"
  shows "snd (send_messages X dump n ms) =
    concat (map sock_wire (map (\<lambda>(i, m, r). serialize X dump (set_id X i m)) (numbered n ms)))"
  using assms
proof (induction ms arbitrary: n)
  case (Cons a ms)
  obtain m r where a: "a = (m, r)" by (cases a) simp
  have "sent_whole r (serialize X dump (set_id X (next_id n) m))" using Cons.prems a by simp
  then show ?case
    using Cons.IH [of "next_id n"] Cons.prems
    by (simp add: a msg_socket_send_def Let_def sent_whole_bytes case_prod_beta)
qed simp

lemma concat_member_length: "x \<in> set xs \<Longrightarrow> length x \<le> length (concat xs)"
  by (induction xs) auto

lemma feed_two:
  "sock_feed [] h = (h, []) \<Longrightarrow> sock_feed h d = ([], [m]) \<Longrightarrow> snd (sock_feed [] (h @ d @ r)) = m # snd (sock_feed [] r)"
  by (simp add: sock_feed_append case_prod_beta)

lemma shuffles_two:
  "w \<in> shuffles [x, y] [u, v] \<Longrightarrow>
    w = [x, y, u, v] \<or> w = [u, v, x, y] \<or> (\<exists>t. w = x # u # t \<and> set t = {y, v}) \<or> (\<exists>t. w = u # x # t \<and> set t = {y, v})"
  by auto

lemma mixed_feed:
  assumes "0 < n" and "n < 2 ^ 32" and "n \<le> Suc (length bs)"
  shows "\<exists>ms. snd (sock_feed [] (be32_bytes n @ 0 # bs)) = [] # ms"
proof -
  let ?d = "take n (0 # bs)" and ?r = "drop n (0 # bs)"
  have "sock_feed [] (be32_bytes n) = (be32_bytes n, [])" by (subst feed_header) simp_all
  moreover have "c_string ?d = []" using assms(1) by (cases n) (simp_all add: c_string_def of_bytes_def)
  then have "sock_feed (be32_bytes n) ?d = ([], [[]])"
    using assms by (subst feed_data [where L = n]) auto
  ultimately have "snd (sock_feed [] (be32_bytes n @ ?d @ ?r)) = [] # snd (sock_feed [] ?r)" by (rule feed_two)
  then show ?thesis unfolding append_take_drop_id by blast
qed

lemma mixed_chunks:
  assumes "raw_ok a" and "length b < 2 ^ 24" and "length a \<le> 4 + length bs"
  shows "\<exists>ms. snd (sock_feed [] (be32_bytes (length a) @ be32_bytes (length b) @ bs)) = [] # ms"
proof -
  obtain r where r: "be32_bytes (length b) = 0 # r" "length r = 3"
    using assms(2) by (simp add: be32_bytes_def)
  have "\<exists>ms. snd (sock_feed [] (be32_bytes (length a) @ 0 # (r @ bs))) = [] # ms"
    using assms(1,3) r(2) by (intro mixed_feed) (auto simp: raw_ok_def)
  then show ?thesis by (simp add: r(1))
qed

lemma chunks_feed:
  assumes "w \<in> shuffles (chunks a) (chunks b)" and "raw_ok a" and "raw_ok b" and "length a < 2 ^ 24" and "length b < 2 ^ 24"
  shows "sock_feed [] (concat w) = ([], [a, b]) \<and> w = chunks a @ chunks b \<or>
    sock_feed [] (concat w) = ([], [b, a]) \<and> w = chunks b @ chunks a \<or>
    (\<exists>ms. snd (sock_feed [] (concat w)) = [] # ms) \<and> w \<noteq> chunks a @ chunks b \<and> w \<noteq> chunks b @ chunks a"
proof -
  have whole: "sock_feed [] (concat (chunks a @ chunks b)) = ([], [a, b])" if "raw_ok a" "raw_ok b" for a b
    using feed_messages [of "[a, b]"] that by (simp add: chunks_def sock_wire_def raw_ok_def)
  have mixed: "\<exists>ms. snd (sock_feed [] (concat (be32_bytes (length a) # be32_bytes (length b) # t))) = [] # ms"
    if "raw_ok a" "length b < 2 ^ 24" "set t = {to_bytes a, to_bytes b}" for a b t
  proof -
    have "length a \<le> length (concat t)"
      using that(3) by (metis insertI1 length_to_bytes concat_member_length)
    then show ?thesis using mixed_chunks [OF that(1,2), of "concat t"] by simp
  qed
  let ?ha = "be32_bytes (length a)" and ?hb = "be32_bytes (length b)"
  have "\<exists>t. w = ?ha # ?hb # t \<and> set t = {to_bytes a, to_bytes b}" if "w \<noteq> chunks a @ chunks b" "w \<noteq> chunks b @ chunks a"
    "\<not> (\<exists>t. w = ?hb # ?ha # t \<and> set t = {to_bytes a, to_bytes b})"
    using shuffles_two [OF assms(1) [unfolded chunks_def]] that by (simp add: chunks_def)
  then consider "w = chunks a @ chunks b" | "w = chunks b @ chunks a"
    | t where "w = ?ha # ?hb # t" "set t = {to_bytes a, to_bytes b}" "w \<noteq> chunks a @ chunks b" "w \<noteq> chunks b @ chunks a"
    | t where "w = ?hb # ?ha # t" "set t = {to_bytes b, to_bytes a}" "w \<noteq> chunks a @ chunks b" "w \<noteq> chunks b @ chunks a"
    by (metis insert_commute)
  then show ?thesis
  proof cases
    case 1
    then show ?thesis using whole assms(2,3) by blast
  next
    case 2
    then show ?thesis using whole assms(2,3) by blast
  next
    case 3
    then show ?thesis using mixed [OF assms(2,5)] by blast
  next
    case 4
    then show ?thesis using mixed [OF assms(3,4)] by blast
  qed
qed

subsection \<open>Properties\<close>

lemma numbered_map: "map fst (numbered n ms) = map (\<lambda>k. n + of_nat (Suc k)) [0..<length ms]"
proof (induction ms arbitrary: n)
  case (Cons m ms)
  have "[0..<length (m # ms)] = 0 # map Suc [0..<length ms]" by (simp only: list.size upt_conv_Cons map_Suc_upt) simp
  then have "map (\<lambda>k. n + of_nat (Suc k)) [0..<length (m # ms)] =
      next_id n # map (\<lambda>k. next_id n + of_nat (Suc k)) [0..<length ms]"
    by (simp add: next_id_def comp_def add.assoc)
  then show ?case using Cons.IH [of "next_id n"] by simp
qed simp

lemma send_messages_numbers: "map fst (fst (send_messages X dump n ms)) = map fst (numbered n ms)"
  by (induction ms arbitrary: n) (auto simp: Let_def case_prod_beta)

lemma send_messages_results:
  "\<forall>(i, m, r) \<in> set (numbered n ms). sent_whole r (serialize X dump (set_id X i m)) \<and> raw_ok (serialize X dump (set_id X i m)) \<Longrightarrow>
    (i, res) \<in> set (fst (send_messages X dump n ms)) \<Longrightarrow> 0 < res"
proof (induction n ms rule: send_messages.induct)
  case (2 X dump n m r ms)
  have "0 < sock_send (fst r) (snd r) (serialize X dump (set_id X (next_id n) m))"
    using "2.prems"(1) by (cases r) (simp add: sent_whole_def sock_send_def raw_ok_def)
  then show ?case
    using 2 by (auto simp: Let_def case_prod_beta msg_socket_send_def)
qed simp


text \<open>
  C13. Two threads that send over one connection at once: \<open>send\<close> hands the length and the text to the system in two
  calls, without a mutex. If the calls of one message are not separated, the other end reads both messages;
  in every other order the other end takes the length that follows for the beginning of the text, reads an empty
  message, and its program terminates, whatever the two messages are.
\<close>

theorem concurrent_sends:
  assumes "w \<in> shuffles (chunks a) (chunks b)" and "raw_ok a" and "raw_ok b" and "length a < 2 ^ 24" and "length b < 2 ^ 24"
    and "rd [] = None" and "length h = 4" and "d \<noteq> []" and "run_allowed rs (new_h9socket h d)"
    and "run_bytes rs (new_h9socket h d) = concat w"
  shows "if w = chunks a @ chunks b \<or> w = chunks b @ chunks a
    then fst (sock_run rs (new_h9socket h d)) \<in> {[a, b], [b, a]}
    else \<exists>ms. fst (sock_run rs (new_h9socket h d)) = [] # ms \<and> msg_socket_recv X rd (Msg []) = Inl Terminate"
proof -
  obtain ms' s' where r: "sock_run rs (new_h9socket h d) = (ms', s')" by force
  have "sock_feed [] (concat w) = (received s', ms')"
    using sock_run_refines [OF new_socket_inv [OF assms(7,8)] assms(9) r] assms(10) by simp
  moreover have "msg_socket_recv X rd (Msg []) = Inl Terminate"
    by (simp add: msg_socket_recv_def parsed_msg_def assms(6))
  ultimately show ?thesis using chunks_feed [OF assms(1-5)] r by auto
qed

subsection \<open>A text for the trees\<close>

text \<open>
  A writer and a reader that have the laws: strings as pairs of letters, lists with a mark before each item.
\<close>

definition enc_char :: "char \<Rightarrow> string" where
  "enc_char c = [char_of (65 + of_char c div 16 :: nat), char_of (65 + of_char c mod 16 :: nat)]"

fun enc_str :: "string \<Rightarrow> string" where
  "enc_str [] = ''.''"
| "enc_str (c # s) = CHR ''+'' # enc_char c @ enc_str s"

fun dec_str :: "string \<Rightarrow> (string \<times> string) option" where
  "dec_str (m # a # b # r) = (if m = CHR ''.'' then Some ([], a # b # r)
     else map_option (map_prod ((#) (char_of ((of_char a - 65) * 16 + (of_char b - 65) :: nat))) id) (dec_str r))"
| "dec_str (m # r) = (if m = CHR ''.'' then Some ([], r) else None)"
| "dec_str [] = None"

fun enc_attrs :: "(string \<times> string) list \<Rightarrow> string" where
  "enc_attrs [] = ''.''"
| "enc_attrs ((k, v) # ps) = CHR ''+'' # enc_str k @ enc_str v @ enc_attrs ps"

fun dec_attrs :: "nat \<Rightarrow> string \<Rightarrow> ((string \<times> string) list \<times> string) option" where
  "dec_attrs (Suc k) (m # r) = (if m = CHR ''.'' then Some ([], r) else
     Option.bind (dec_str r) (\<lambda>(a, r1). Option.bind (dec_str r1) (\<lambda>(v, r2).
       map_option (map_prod ((#) (a, v)) id) (dec_attrs k r2))))"
| "dec_attrs _ _ = None"

fun enc_text :: "string option \<Rightarrow> string" where
  "enc_text None = ''.''" | "enc_text (Some t) = CHR ''+'' # enc_str t"

fun dec_text :: "string \<Rightarrow> (string option \<times> string) option" where
  "dec_text (m # r) = (if m = CHR ''.'' then Some (None, r) else map_option (map_prod Some id) (dec_str r))"
| "dec_text [] = None"

fun enc_tree :: "xtree \<Rightarrow> string" where
  "enc_tree (XT n ps t es) = enc_str n @ enc_attrs ps @ enc_text t @ concat (map (\<lambda>e. CHR ''+'' # enc_tree e) es) @ ''.''"

fun dec_tree :: "nat \<Rightarrow> string \<Rightarrow> (xtree \<times> string) option"
  and dec_trees :: "nat \<Rightarrow> string \<Rightarrow> (xtree list \<times> string) option" where
  "dec_tree (Suc k) s = Option.bind (dec_str s) (\<lambda>(n, s1). Option.bind (dec_attrs k s1) (\<lambda>(ps, s2).
     Option.bind (dec_text s2) (\<lambda>(t, s3). map_option (map_prod (XT n ps t) id) (dec_trees k s3))))"
| "dec_trees (Suc k) (m # r) = (if m = CHR ''.'' then Some ([], r) else
     Option.bind (dec_tree k r) (\<lambda>(e, r1). map_option (map_prod ((#) e) id) (dec_trees k r1)))"
| "dec_tree _ _ = None"
| "dec_trees _ _ = None"

definition tree_text :: "string \<Rightarrow> xtree option" where
  "tree_text s = (case dec_tree (length s) s of Some (t, []) \<Rightarrow> Some t | _ \<Rightarrow> None)"

lemma nibbles: "(of_char c :: nat) div 16 < 16" "(of_char c :: nat) mod 16 < 16"
  using nat_of_char_less_256 [of c] by linarith+

lemma enc_char_dec:
  "enc_char c = [a, b] \<Longrightarrow> char_of ((of_char a - 65) * 16 + (of_char b - 65) :: nat) = c"
proof -
  assume "enc_char c = [a, b]"
  then have "(of_char a :: nat) = 65 + of_char c div 16" "(of_char b :: nat) = 65 + of_char c mod 16"
    using nibbles [of c] by (auto simp: enc_char_def)
  then show ?thesis by simp
qed

lemma dec_enc_str [simp]: "dec_str (enc_str s @ r) = Some (s, r)"
proof (induction s)
  case Nil
  then show ?case by (cases r; cases "tl r") auto
next
  case (Cons c s)
  obtain a b where "enc_char c = [a, b]" by (simp add: enc_char_def)
  with Cons show ?case using enc_char_dec by simp
qed

lemma dec_enc_attrs: "length ps < k \<Longrightarrow> dec_attrs k (enc_attrs ps @ r) = Some (ps, r)"
  by (induction ps arbitrary: k) (auto simp: less_Suc_eq_0_disj gr0_conv_Suc Suc_less_eq2)

lemma dec_enc_text [simp]: "dec_text (enc_text t @ r) = Some (t, r)"
  by (cases t) simp_all

lemma length_enc: "0 < length (enc_str s)" "0 < length (enc_text t)"
  by (cases s; simp) (cases t; simp)

lemma length_enc_attrs: "length ps < length (enc_attrs ps)"
  by (induction ps rule: enc_attrs.induct) simp_all

lemma dec_enc_tree: "length (enc_tree t) \<le> k \<Longrightarrow> dec_tree k (enc_tree t @ r) = Some (t, r)"
proof (induction t arbitrary: k r)
  case (XT n ps t es)
  have list: "length (concat (map (\<lambda>e. CHR ''+'' # enc_tree e) fs)) < k' \<Longrightarrow>
      dec_trees k' (concat (map (\<lambda>e. CHR ''+'' # enc_tree e) fs) @ CHR ''.'' # r) = Some (fs, r)"
    if "set fs \<subseteq> set es" for fs k'
    using that
  proof (induction fs arbitrary: k')
    case Nil
    then show ?case by (cases k') simp_all
  next
    case (Cons f fs)
    obtain j where j: "k' = Suc j" using Cons.prems(1) by (cases k') simp_all
    then show ?case using Cons.prems Cons.IH [of j] XT.IH [of f j] by simp
  qed
  obtain j where j: "k = Suc j" using XT.prems by (cases k) simp_all
  have "length (enc_str n) + length (enc_attrs ps) + length (enc_text t) +
      length (concat (map (\<lambda>e. CHR ''+'' # enc_tree e) es)) \<le> j"
    using XT.prems by (simp add: j)
  then have "length ps < j" "length (concat (map (\<lambda>e. CHR ''+'' # enc_tree e) es)) < j"
    using length_enc(1) [of n] length_enc_attrs [of ps] length_enc(2) [of t] by linarith+
  then show ?case using list [of es j] by (simp add: j dec_enc_attrs)
qed

lemma of_char_zero: "(of_char CHR 0x00 :: nat) = 0"
  by simp

lemma enc_zero: "CHR 0x00 \<notin> set (enc_tree t)"
proof -
  have c: "CHR 0x00 \<notin> set (enc_char c)" for c
  proof -
    have "of_char (char_of n :: char) \<noteq> (0 :: nat)" if "0 < n" "n < 256" for n :: nat using that by simp
    then have "char_of n \<noteq> CHR 0x00" if "0 < n" "n < 256" for n :: nat using that by (metis of_char_zero)
    from this [of "65 + of_char c div 16"] this [of "65 + of_char c mod 16"] show ?thesis
      using nibbles [of c] by (auto simp: enc_char_def)
  qed
  then have s: "CHR 0x00 \<notin> set (enc_str s)" for s by (induction s) simp_all
  then have "CHR 0x00 \<notin> set (enc_attrs ps)" "CHR 0x00 \<notin> set (enc_text x)" for ps x
    by (induction ps rule: enc_attrs.induct; simp) (cases x; simp add: s)
  then show ?thesis using s by (induction t) auto
qed

lemma same_node_refl: "same_node xtree_ops t t"
proof (induction t)
  case (XT n ps x es)
  then show ?case by (intro same_node) (simp_all add: xtree_ops_def list.rel_refl_strong)
qed

lemma tree_text_laws: "dump_laws xtree_ops enc_tree tree_text"
proof -
  have "tree_text (enc_tree t) = Some t" for t
    using dec_enc_tree [of t "length (enc_tree t)" "[]"] by (simp add: tree_text_def)
  moreover have "enc_tree t \<noteq> []" for t by (cases t) simp
  ultimately show ?thesis
    using enc_zero same_node_refl by (simp add: dump_laws_def) (simp add: tree_text_def)
qed

subsection \<open>Witnesses\<close>

definition whole_reads :: "string list \<Rightarrow> (u8 list \<times> os_recv \<times> os_recv) list" where
  "whole_reads raws = map (\<lambda>s. ([], Got (be32_bytes (length s)), Got (to_bytes s))) raws"

lemma whole_read:
  assumes "sock_inv s" and "recv_bytes s = 0" and "raw_ok t"
    and "s' = snd (sock_recv [] (Got (be32_bytes (length t))) (Got (to_bytes t)) s)"
  shows "recv_allowed s (Got (be32_bytes (length t))) (Got (to_bytes t))"
    and "consumed (Got (be32_bytes (length t))) (Got (to_bytes t)) s = sock_wire t" and "sock_inv s'" and "recv_bytes s' = 0"
proof -
  let ?r1 = "Got (be32_bytes (length t))" and ?r2 = "Got (to_bytes t)"
  have h: "length (header_buf s) = 4" using assms(1) by (simp add: sock_inv_def)
  then have "overwrite 0 (be32_bytes (length t)) (header_buf s) = be32_bytes (length t)" by (simp add: overwrite_def)
  then show al: "recv_allowed s ?r1 ?r2"
    using assms(2,3) by (simp add: recv_allowed_def os_ok_def got_def raw_ok_def)
  show c: "consumed ?r1 ?r2 s = sock_wire t" using assms(2) by (simp add: consumed_def got_def sock_wire_def)
  obtain res where r: "sock_recv [] ?r1 ?r2 s = (res, s')" using assms(4) by (metis prod.collapse)
  note ref = sock_recv_refines [OF assms(1) al r]
  then show i: "sock_inv s'" by blast
  have "received s = []" using assms(2) by (simp add: received_def)
  then have "received s' = []"
    using ref c feed_message [of t] assms(3) by (simp add: raw_ok_def)
  then show "recv_bytes s' = 0" using i by (auto simp: received_def sock_inv_def)
qed

lemma whole_reads_run:
  "sock_inv s \<Longrightarrow> recv_bytes s = 0 \<Longrightarrow> list_all raw_ok raws \<Longrightarrow>
    run_allowed (whole_reads raws) s \<and> run_bytes (whole_reads raws) s = concat (map sock_wire raws)"
proof (induction raws arbitrary: s)
  case Nil
  then show ?case by (simp add: whole_reads_def)
next
  case (Cons t raws)
  define s' where "s' = snd (sock_recv [] (Got (be32_bytes (length t))) (Got (to_bytes t)) s)"
  note w = whole_read [OF Cons.prems(1,2) _ s'_def]
  have "run_allowed (whole_reads raws) s' \<and> run_bytes (whole_reads raws) s' = concat (map sock_wire raws)"
    using Cons.prems w by (intro Cons.IH) simp_all
  then show ?case using Cons.prems(3) w(1,2) by (simp add: whole_reads_def s'_def)
qed

lemma length_enc_str: "length (enc_str s) = 3 * length s + 1"
  by (induction s) (simp_all add: enc_char_def)

definition sample_calls :: "xtree gmsg list" where
  "sample_calls = [execute_method_msg xtree_ops ''subscribe'', subscribe_msg xtree_ops]"

lemmas sample_call_defs = sample_calls_def execute_method_msg_def subscribe_msg_def set_method_name_def with_node_def
  get_msg_def new_msg_def doc_tree_def set_id_def xtree_ops_def

lemma plain_tree:
  assumes "xml_word n" and "list_all (\<lambda>(k, v). xml_word k \<and> ascii v) ps" and "list_all (plain xtree_ops) es"
    and "es = [] \<longrightarrow> (case t of None \<Rightarrow> True | Some v \<Rightarrow> ascii v)"
  shows "plain xtree_ops (XT n ps t es)"
proof (rule plain)
  have "xml_word k \<and> ascii v" if "map_of ps k = Some v" for k v
    using map_of_SomeD [OF that] assms(2) by (auto simp: list_all_iff)
  then show "plain_attrs xtree_ops (XT n ps t es)" by (simp add: plain_attrs_def xtree_ops_def)
qed (use assms in \<open>auto simp: xtree_ops_def list_all_iff\<close>)

lemma sample_calls_eq:
  "sample_calls = [\<lparr>doc_root = XT ''h9'' [(''version'', ''0.0''), (''id'', ''0'')] None [],
       msg_node = Some (XT ''execute'' [(''method'', ''subscribe'')] None [])\<rparr>,
     \<lparr>doc_root = XT ''h9'' [(''version'', ''0.0''), (''id'', ''0'')] None [],
       msg_node = Some (XT ''subscribe'' [(''content'', ''FRAME'')] None [])\<rparr>]"
  by (simp add: sample_call_defs)

lemma fresh_tree:
  assumes "plain xtree_ops n"
  shows "fresh_msg xtree_ops \<lparr>doc_root = XT ''h9'' [(''version'', ''0.0''), (''id'', ''0'')] None [], msg_node = Some n\<rparr>"
proof -
  have "plain xtree_ops (XT ''h9'' [(''version'', ''0.0''), (''id'', ''0'')] None [n])"
    using assms by (intro plain_tree) (simp_all add: xml_word_def lower_def ascii_def)
  then show ?thesis by (simp add: fresh_msg_def doc_tree_def xtree_ops_def)
qed

lemma sample_calls_fresh: "m \<in> set sample_calls \<Longrightarrow> fresh_msg xtree_ops m"
proof -
  have "plain xtree_ops (XT ''execute'' [(''method'', ''subscribe'')] None [])"
    "plain xtree_ops (XT ''subscribe'' [(''content'', ''FRAME'')] None [])"
    by (intro plain_tree; simp add: xml_word_def lower_def ascii_def)+
  then have "list_all (fresh_msg xtree_ops) sample_calls"
    unfolding sample_calls_eq by (simp add: fresh_tree)
  then show "m \<in> set sample_calls \<Longrightarrow> fresh_msg xtree_ops m" by (simp add: list_all_iff)
qed

lemma length_enc_char: "length (enc_char c) = 2"
  by (simp add: enc_char_def)

lemma sample_calls_short: "(i, m) \<in> set (numbered 0 sample_calls) \<Longrightarrow> length (enc_tree (doc_tree xtree_ops (set_id xtree_ops i m))) < 2 ^ 32"
  by (auto simp: sample_call_defs next_id_def length_enc_char dec_string_def digits_of.simps)


theorem concurrent_sends_witness:
  "fst (sock_run [([], Got [0, 0, 0, 2], Got [0, 0]), ([], Got [0, 2, 97, 98], Got [99, 100])] (new_h9socket [1, 2, 3, 4] [7]))
    = [[]] \<and> msg_socket_recv xtree_ops tree_text (Msg []) = Inl Terminate"
proof -
  let ?rs = "[([], Got [0, 0, 0, 2], Got [0, 0]), ([], Got [0, 2, 97, 98], Got [99, 100])]"
    and ?s = "new_h9socket [1, 2, 3, 4] [7]" and ?w = "[be32_bytes 2, be32_bytes 2, to_bytes ''ab'', to_bytes ''cd'']"
  have w: "?w \<in> shuffles (chunks ''ab'') (chunks ''cd'')" by (simp add: chunks_def numeral_2_eq_2)
  have bytes: "be32_bytes 2 = [0, 0, 0, 2]" "to_bytes ''ab'' = [97, 98]" "to_bytes ''cd'' = [99, 100]"
    by (simp_all add: be32_bytes_def to_bytes_def)
  have "run_allowed ?rs ?s" by (simp add: run_defs)
  moreover have "run_bytes ?rs ?s = concat ?w" by (simp add: run_defs bytes)
  moreover have "raw_ok ''ab''" "raw_ok ''cd''" by (simp_all add: raw_ok_def)
  moreover have "?w \<noteq> chunks ''ab'' @ chunks ''cd''" "?w \<noteq> chunks ''cd'' @ chunks ''ab''"
    by (simp_all add: chunks_def bytes)
  moreover have "tree_text [] = None" by (simp add: tree_text_def)
  ultimately have "\<exists>ms. fst (sock_run ?rs ?s) = [] # ms \<and> msg_socket_recv xtree_ops tree_text (Msg []) = Inl Terminate"
    using concurrent_sends [OF w, of tree_text "[1, 2, 3, 4]" "[7]" ?rs xtree_ops] by simp
  moreover have "length (fst (sock_run ?rs ?s)) = 1" by (simp add: run_defs messages_def)
  ultimately show ?thesis by auto
qed

end
