(* ===== verification/H9_Values.thy ===== *)
theory H9_Values
  imports H9_Msg
begin

text \<open>
  Values as handles: \<open>protocol/value.{h,cc}\<close> and the members of \<open>protocol/genericmethod.h\<close>. A \<open>Value\<close> is a pointer to
  a node of the document; \<open>add_array\<close> and \<open>add_dict\<close> return pointers through which the document goes on being
  changed, and the iterator walks the list of siblings. Elsewhere (H9_Msg) messages are values and the calls on an
  array follow one another; here the calls on all handles may alternate. The functions and the node structure of
  libxml2 are the parameter \<open>dom\<close> with the laws \<open>dom_laws\<close>. At the end \<open>GenericMsg::validate_msg\<close> with its static
  validation context.
\<close>

subsection \<open>Nodes of libxml2\<close>

datatype node_kind = Element_node | Text_node | Other_node

record 'p nview =
  nv_kind :: node_kind
  nv_name :: string
  nv_get :: "string \<Rightarrow> string option"
  nv_kids :: "'p list"
  nv_text :: string

record ('s, 'p) dom =
  d_view :: "'s \<Rightarrow> 'p \<Rightarrow> 'p nview option" \<comment> \<open>what a node is, \<open>None\<close> when it does not exist; not called by the code\<close>
  d_ok :: "'s \<Rightarrow> bool" \<comment> \<open>the lists of siblings are well formed\<close>
  d_new :: "string \<Rightarrow> 's \<Rightarrow> 'p \<times> 's" \<comment> \<open>\<open>xmlNewNode\<close>\<close>
  d_text_child :: "'p \<Rightarrow> string \<Rightarrow> string \<Rightarrow> 's \<Rightarrow> 'p \<times> 's" \<comment> \<open>\<open>xmlNewTextChild\<close>\<close>
  d_new_prop :: "'p \<Rightarrow> string \<Rightarrow> string \<Rightarrow> 's \<Rightarrow> 's" \<comment> \<open>\<open>xmlNewProp\<close>\<close>
  d_add :: "'p \<Rightarrow> 'p \<Rightarrow> 's \<Rightarrow> 's" \<comment> \<open>\<open>xmlAddChild\<close>\<close>
  d_children :: "'s \<Rightarrow> 'p \<Rightarrow> 'p option" \<comment> \<open>the fields \<open>children\<close>, \<open>next\<close> and \<open>type\<close>\<close>
  d_next :: "'s \<Rightarrow> 'p \<Rightarrow> 'p option"
  d_kind :: "'s \<Rightarrow> 'p \<Rightarrow> node_kind"
  d_get :: "'s \<Rightarrow> 'p \<Rightarrow> string \<Rightarrow> string option" \<comment> \<open>\<open>xmlGetProp\<close>\<close>
  d_content :: "'s \<Rightarrow> 'p \<Rightarrow> string" \<comment> \<open>\<open>xmlNodeGetContent\<close> of a text node\<close>

fun first :: "'a list \<Rightarrow> 'a option" where
  "first [] = None" | "first (x # xs) = Some x"

definition element_view :: "string \<Rightarrow> 'p nview" where
  "element_view t = \<lparr>nv_kind = Element_node, nv_name = t, nv_get = (\<lambda>_. None), nv_kids = [], nv_text = []\<rparr>"

definition text_view :: "string \<Rightarrow> 'p nview" where
  "text_view x = \<lparr>nv_kind = Text_node, nv_name = ''text'', nv_get = (\<lambda>_. None), nv_kids = [], nv_text = x\<rparr>"

definition unlinked :: "('s, 'p) dom \<Rightarrow> 's \<Rightarrow> 'p \<Rightarrow> bool" where
  "unlinked D s c \<longleftrightarrow> (\<forall>p v. d_view D s p = Some v \<longrightarrow> c \<notin> set (nv_kids v))"

definition reader_laws :: "('s, 'p) dom \<Rightarrow> bool" where
  "reader_laws D \<longleftrightarrow> (\<forall>s p v. d_ok D s \<and> d_view D s p = Some v \<longrightarrow>
     d_kind D s p = nv_kind v \<and> d_get D s p = nv_get v \<and> d_content D s p = nv_text v \<and>
     d_children D s p = first (nv_kids v) \<and> (\<forall>c \<in> set (nv_kids v). d_view D s c \<noteq> None) \<and>
     (\<forall>xs x ys. nv_kids v = xs @ x # ys \<longrightarrow> d_next D s x = first ys))"

definition new_law :: "('s, 'p) dom \<Rightarrow> bool" where
  "new_law D \<longleftrightarrow> (\<forall>s t q s1. d_ok D s \<and> d_new D t s = (q, s1) \<longrightarrow>
     d_ok D s1 \<and> d_view D s q = None \<and> d_view D s1 = (d_view D s)(q \<mapsto> element_view t))"

definition prop_law :: "('s, 'p) dom \<Rightarrow> bool" where
  "prop_law D \<longleftrightarrow> (\<forall>s p v k x. d_ok D s \<and> d_view D s p = Some v \<longrightarrow> d_ok D (d_new_prop D p k x s) \<and>
     d_view D (d_new_prop D p k x s) = (d_view D s)(p \<mapsto>
       v\<lparr>nv_get := (if nv_get v k = None then (nv_get v)(k \<mapsto> x) else nv_get v)\<rparr>))"

definition add_law :: "('s, 'p) dom \<Rightarrow> bool" where
  "add_law D \<longleftrightarrow> (\<forall>s p c v w. d_ok D s \<and> d_view D s p = Some v \<and> d_view D s c = Some w \<and> nv_kids w = [] \<and>
     unlinked D s c \<and> c \<noteq> p \<longrightarrow>
     d_ok D (d_add D p c s) \<and> d_view D (d_add D p c s) = (d_view D s)(p \<mapsto> v\<lparr>nv_kids := nv_kids v @ [c]\<rparr>))"

definition with_text :: "('s, 'p) dom \<Rightarrow> 's \<Rightarrow> 'p \<Rightarrow> 'p nview \<Rightarrow> string \<Rightarrow> string \<Rightarrow> 'p \<Rightarrow> 's \<Rightarrow> bool" where
  \<comment> \<open>a new last child with a text node, which an empty text does not get\<close>
  "with_text D s p v t x q s1 \<longleftrightarrow> d_ok D s1 \<and> d_view D s q = None \<and>
     (if x = [] then d_view D s1 = (d_view D s)(p \<mapsto> v\<lparr>nv_kids := nv_kids v @ [q]\<rparr>, q \<mapsto> element_view t)
      else \<exists>y. y \<noteq> q \<and> d_view D s y = None \<and> d_view D s1 = (d_view D s)(p \<mapsto> v\<lparr>nv_kids := nv_kids v @ [q]\<rparr>,
        q \<mapsto> (element_view t)\<lparr>nv_kids := [y]\<rparr>, y \<mapsto> text_view x))"

definition text_law :: "('s, 'p) dom \<Rightarrow> bool" where
  "text_law D \<longleftrightarrow> (\<forall>s p v t x q s1. d_ok D s \<and> d_view D s p = Some v \<and> d_text_child D p t x s = (q, s1) \<longrightarrow>
     with_text D s p v t x q s1)"

definition dom_laws :: "('s, 'p) dom \<Rightarrow> bool" where
  "dom_laws D \<longleftrightarrow> reader_laws D \<and> new_law D \<and> prop_law D \<and> add_law D \<and> text_law D"

subsection \<open>Reading a value\<close>

definition node_name :: "('s, 'p) dom \<Rightarrow> 's \<Rightarrow> 'p \<Rightarrow> string" where
  \<comment> \<open>\<open>Value::get_name\<close>\<close>
  "node_name D s p = (case d_get D s p ''name'' of None \<Rightarrow> [] | Some x \<Rightarrow> x)"

definition node_str :: "('s, 'p) dom \<Rightarrow> 's \<Rightarrow> 'p \<Rightarrow> string res" where
  \<comment> \<open>\<open>Value::get_value_as_str\<close>\<close>
  "node_str D s p = (case d_children D s p of None \<Rightarrow> Inl Invalid_argument
     | Some c \<Rightarrow> if d_kind D s c = Text_node then Inr (d_content D s c) else Inl Invalid_argument)"

definition node_int :: "('s, 'p) dom \<Rightarrow> 's \<Rightarrow> 'p \<Rightarrow> int res" where
  \<comment> \<open>\<open>Value::get_value_as_int\<close>\<close>
  "node_int D s p = (case d_children D s p of None \<Rightarrow> Inl Invalid_argument
     | Some c \<Rightarrow> if d_kind D s c = Text_node then stoi 10 (d_content D s c) else Inl Invalid_argument)"

partial_function (option) node_at :: "('s, 'p) dom \<Rightarrow> 's \<Rightarrow> string \<Rightarrow> 'p option \<Rightarrow> 'p res option" where
  \<comment> \<open>the loop of \<open>operator[]\<close>, from a child on; a loop that does not end is \<open>None\<close>\<close>
  "node_at D s k c = (case c of None \<Rightarrow> Some (Inl Out_of_range)
     | Some q \<Rightarrow> if d_kind D s q = Element_node \<and> d_get D s q ''name'' = Some k then Some (Inr q)
         else node_at D s k (d_next D s q))"

definition value_index :: "('s, 'p) dom \<Rightarrow> 's \<Rightarrow> 'p \<Rightarrow> string \<Rightarrow> 'p res option" where
  "value_index D s p k = node_at D s k (d_children D s p)"

partial_function (option) to_element :: "('s, 'p) dom \<Rightarrow> 's \<Rightarrow> 'p option \<Rightarrow> 'p option option" where
  \<comment> \<open>the loops of \<open>begin\<close> and \<open>operator++\<close>: the first element of the list, or null\<close>
  "to_element D s c = (case c of None \<Rightarrow> Some None
     | Some q \<Rightarrow> if d_kind D s q = Element_node then Some (Some q) else to_element D s (d_next D s q))"

definition value_begin :: "('s, 'p) dom \<Rightarrow> 's \<Rightarrow> 'p \<Rightarrow> 'p option option" where
  "value_begin D s p = to_element D s (d_children D s p)"

definition iterator_next :: "('s, 'p) dom \<Rightarrow> 's \<Rightarrow> 'p \<Rightarrow> 'p option option" where
  "iterator_next D s q = to_element D s (d_next D s q)"

partial_function (option) for_each :: "('s, 'p) dom \<Rightarrow> 's \<Rightarrow> 'p option \<Rightarrow> 'p list option" where
  \<comment> \<open>a range-based loop from an iterator to \<open>end()\<close>, which is null: the nodes visited\<close>
  "for_each D s it = (case it of None \<Rightarrow> Some []
     | Some q \<Rightarrow> Option.bind (iterator_next D s q) (\<lambda>n. Option.bind (for_each D s n) (\<lambda>qs. Some (q # qs))))"

definition visited :: "('s, 'p) dom \<Rightarrow> 's \<Rightarrow> 'p \<Rightarrow> 'p list option" where
  "visited D s p = Option.bind (value_begin D s p) (for_each D s)"

subsection \<open>Adding to a value\<close>

definition array_array :: "('s, 'p) dom \<Rightarrow> 'p \<Rightarrow> 's \<Rightarrow> 'p \<times> 's" where
  \<comment> \<open>\<open>ArrayValue::add_array\<close>, \<open>add_dict\<close> and \<open>add_value\<close>\<close>
  "array_array D p s = (let (q, s1) = d_new D ''array'' s in (q, d_add D p q s1))"

definition array_dict :: "('s, 'p) dom \<Rightarrow> 'p \<Rightarrow> 's \<Rightarrow> 'p \<times> 's" where
  "array_dict D p s = (let (q, s1) = d_new D ''dict'' s in (q, d_add D p q s1))"

definition array_value :: "('s, 'p) dom \<Rightarrow> string \<Rightarrow> 'p \<Rightarrow> 's \<Rightarrow> 'p \<times> 's" where
  "array_value D x p s = d_text_child D p ''value'' x s"

definition dict_array :: "('s, 'p) dom \<Rightarrow> string \<Rightarrow> 'p \<Rightarrow> 's \<Rightarrow> 'p \<times> 's" where
  \<comment> \<open>\<open>DictValue::add_array\<close>, \<open>add_dict\<close> and \<open>add_value\<close>\<close>
  "dict_array D k p s = (let (q, s1) = d_new D ''array'' s in (q, d_add D p q (d_new_prop D q ''name'' k s1)))"

definition dict_dict :: "('s, 'p) dom \<Rightarrow> string \<Rightarrow> 'p \<Rightarrow> 's \<Rightarrow> 'p \<times> 's" where
  "dict_dict D k p s = (let (q, s1) = d_new D ''dict'' s in (q, d_add D p q (d_new_prop D q ''name'' k s1)))"

definition dict_value :: "('s, 'p) dom \<Rightarrow> string \<Rightarrow> string \<Rightarrow> 'p \<Rightarrow> 's \<Rightarrow> 'p \<times> 's" where
  "dict_value D k x p s = (let (q, s1) = d_text_child D p ''value'' x s in (q, d_new_prop D q ''name'' k s1))"

subsection \<open>Programs on handles\<close>

datatype addition = Add_array | Add_dict | Add_value string

type_synonym call = "nat \<times> string option \<times> addition"
  \<comment> \<open>the handle by number, the name for a \<open>DictValue\<close> and none for an \<open>ArrayValue\<close>, what is added\<close>

fun add_call :: "('s, 'p) dom \<Rightarrow> string option \<Rightarrow> addition \<Rightarrow> 'p \<Rightarrow> 's \<Rightarrow> 'p \<times> 's" where
  "add_call D None Add_array = array_array D"
| "add_call D None Add_dict = array_dict D"
| "add_call D None (Add_value x) = array_value D x"
| "add_call D (Some k) Add_array = dict_array D k"
| "add_call D (Some k) Add_dict = dict_dict D k"
| "add_call D (Some k) (Add_value x) = dict_value D k x"

fun run_calls :: "('s, 'p) dom \<Rightarrow> call list \<Rightarrow> 'p list \<times> (call \<times> 'p) list \<times> 's \<Rightarrow> 'p list \<times> (call \<times> 'p) list \<times> 's" where
  \<comment> \<open>the handles the program has, each call with the node it made, the document\<close>
  "run_calls D [] st = st"
| "run_calls D ((h, nm, a) # cs) (hs, log, s) = (let (q, s1) = add_call D nm a (hs ! h) s in
     run_calls D cs (if a = Add_array \<or> a = Add_dict then hs @ [q] else hs, log @ [((h, nm, a), q)], s1))"

fun scoped_calls :: "nat \<Rightarrow> call list \<Rightarrow> bool" where
  "scoped_calls n [] \<longleftrightarrow> True"
| "scoped_calls n ((h, nm, a) # cs) \<longleftrightarrow> h < n \<and> scoped_calls (if a = Add_array \<or> a = Add_dict then Suc n else n) cs"

definition added_to :: "nat \<Rightarrow> (call \<times> 'p) list \<Rightarrow> (call \<times> 'p) list" where
  "added_to h log = filter (\<lambda>e. fst (fst e) = h) log"

definition entry_name :: "call \<times> 'p \<Rightarrow> string option" where
  "entry_name e = fst (snd (fst e))"

subsection \<open>Lemmas: reading\<close>

lemma reader_lawsD:
  assumes "dom_laws D" and "d_ok D s" and "d_view D s p = Some v"
  shows "d_kind D s p = nv_kind v" "d_get D s p = nv_get v" "d_content D s p = nv_text v" "d_children D s p = first (nv_kids v)"
    "c \<in> set (nv_kids v) \<Longrightarrow> \<exists>w. d_view D s c = Some w" "nv_kids v = xs @ x # ys \<Longrightarrow> d_next D s x = first ys"
  using assms unfolding dom_laws_def reader_laws_def by blast+

lemma to_element_chain:
  assumes "dom_laws D" and "d_ok D s" and "d_view D s p = Some v" and "nv_kids v = xs @ ys"
  shows "to_element D s (first ys) = Some (first (filter (\<lambda>q. d_kind D s q = Element_node) ys))"
  using assms(4)
proof (induction ys arbitrary: xs)
  case Nil
  then show ?case by (simp add: to_element.simps)
next
  case (Cons y ys)
  have "d_next D s y = first ys" by (rule reader_lawsD(6) [OF assms(1-3) Cons.prems])
  then show ?case using Cons.IH [of "xs @ [y]"] Cons.prems by (simp add: to_element.simps [of D s "Some y"])
qed

lemma for_each_chain:
  assumes "dom_laws D" and "d_ok D s" and "d_view D s p = Some v" and "nv_kids v = xs @ ys"
  shows "Option.bind (to_element D s (first ys)) (for_each D s) = Some (filter (\<lambda>q. d_kind D s q = Element_node) ys)"
  using assms(4)
proof (induction ys arbitrary: xs)
  case Nil
  then show ?case by (simp add: to_element.simps for_each.simps)
next
  case (Cons y ys)
  have n: "d_next D s y = first ys" by (rule reader_lawsD(6) [OF assms(1-3) Cons.prems])
  have IH: "Option.bind (to_element D s (first ys)) (for_each D s) = Some (filter (\<lambda>q. d_kind D s q = Element_node) ys)"
    using Cons.IH [of "xs @ [y]"] Cons.prems by simp
  show ?case
  proof (cases "d_kind D s y = Element_node")
    case True
    have "Option.bind (to_element D s (first ys)) (\<lambda>n. Option.bind (for_each D s n) (\<lambda>qs. Some (y # qs))) =
        Option.bind (Option.bind (to_element D s (first ys)) (for_each D s)) (\<lambda>qs. Some (y # qs))"
      by (cases "to_element D s (first ys)") simp_all
    then show ?thesis
      using True n IH by (simp add: to_element.simps [of D s "Some y"] for_each.simps [of D s "Some y"] iterator_next_def)
  next
    case False
    then show ?thesis using n IH by (simp add: to_element.simps [of D s "Some y"])
  qed
qed

lemma node_at_chain:
  assumes "dom_laws D" and "d_ok D s" and "d_view D s p = Some v" and "nv_kids v = xs @ ys"
  shows "node_at D s k (first ys) = Some (case find (\<lambda>q. d_kind D s q = Element_node \<and> d_get D s q ''name'' = Some k) ys of
    None \<Rightarrow> Inl Out_of_range | Some q \<Rightarrow> Inr q)"
  using assms(4)
proof (induction ys arbitrary: xs)
  case Nil
  then show ?case by (simp add: node_at.simps)
next
  case (Cons y ys)
  have "d_next D s y = first ys" by (rule reader_lawsD(6) [OF assms(1-3) Cons.prems])
  then show ?case using Cons.IH [of "xs @ [y]"] Cons.prems by (simp add: node_at.simps [of D s k "Some y"])
qed

lemma visited_kids:
  assumes "dom_laws D" and "d_ok D s" and "d_view D s p = Some v"
  shows "visited D s p = Some (filter (\<lambda>q. d_kind D s q = Element_node) (nv_kids v))"
  using for_each_chain [OF assms, of "[]" "nv_kids v"] reader_lawsD(4) [OF assms]
  by (simp add: visited_def value_begin_def)

lemma value_index_kids:
  assumes "dom_laws D" and "d_ok D s" and "d_view D s p = Some v"
  shows "value_index D s p k = Some (case find (\<lambda>q. d_kind D s q = Element_node \<and> d_get D s q ''name'' = Some k) (nv_kids v) of
    None \<Rightarrow> Inl Out_of_range | Some q \<Rightarrow> Inr q)"
  using node_at_chain [OF assms, of "[]" "nv_kids v"] reader_lawsD(4) [OF assms] by (simp add: value_index_def)

subsection \<open>Lemmas: adding\<close>

lemma writer_lawsD:
  assumes "dom_laws D" and "d_ok D s"
  shows "d_new D t s = (q, s1) \<Longrightarrow> d_ok D s1 \<and> d_view D s q = None \<and> d_view D s1 = (d_view D s)(q \<mapsto> element_view t)"
    and "d_view D s p = Some v \<Longrightarrow> d_ok D (d_new_prop D p k x s) \<and> d_view D (d_new_prop D p k x s) =
      (d_view D s)(p \<mapsto> v\<lparr>nv_get := (if nv_get v k = None then (nv_get v)(k \<mapsto> x) else nv_get v)\<rparr>)"
    and "d_view D s p = Some v \<Longrightarrow> d_view D s c = Some w \<Longrightarrow> nv_kids w = [] \<Longrightarrow> unlinked D s c \<Longrightarrow> c \<noteq> p \<Longrightarrow>
      d_ok D (d_add D p c s) \<and> d_view D (d_add D p c s) = (d_view D s)(p \<mapsto> v\<lparr>nv_kids := nv_kids v @ [c]\<rparr>)"
    and "d_view D s p = Some v \<Longrightarrow> d_text_child D p t x s = (q, s1) \<Longrightarrow> with_text D s p v t x q s1"
proof -
  note laws = assms(1) [unfolded dom_laws_def]
  show "d_new D t s = (q, s1) \<Longrightarrow> d_ok D s1 \<and> d_view D s q = None \<and> d_view D s1 = (d_view D s)(q \<mapsto> element_view t)"
    using laws assms(2) unfolding new_law_def by blast
  show "d_view D s p = Some v \<Longrightarrow> d_ok D (d_new_prop D p k x s) \<and> d_view D (d_new_prop D p k x s) =
      (d_view D s)(p \<mapsto> v\<lparr>nv_get := (if nv_get v k = None then (nv_get v)(k \<mapsto> x) else nv_get v)\<rparr>)"
    using laws assms(2) unfolding prop_law_def by blast
  show "d_view D s p = Some v \<Longrightarrow> d_view D s c = Some w \<Longrightarrow> nv_kids w = [] \<Longrightarrow> unlinked D s c \<Longrightarrow> c \<noteq> p \<Longrightarrow>
      d_ok D (d_add D p c s) \<and> d_view D (d_add D p c s) = (d_view D s)(p \<mapsto> v\<lparr>nv_kids := nv_kids v @ [c]\<rparr>)"
    using laws assms(2) unfolding add_law_def by blast
  show "d_view D s p = Some v \<Longrightarrow> d_text_child D p t x s = (q, s1) \<Longrightarrow> with_text D s p v t x q s1"
    using laws assms(2) unfolding text_law_def by blast
qed

definition contents :: "('s, 'p) dom \<Rightarrow> 's \<Rightarrow> addition \<Rightarrow> 'p nview \<Rightarrow> bool" where
  \<comment> \<open>the text node below a value, for a text that is not empty\<close>
  "contents D s a w \<longleftrightarrow> (case a of
       Add_value x \<Rightarrow> if x = [] then nv_kids w = [] else \<exists>y. nv_kids w = [y] \<and> d_view D s y = Some (text_view x)
     | _ \<Rightarrow> True)"

definition extends :: "('s, 'p) dom \<Rightarrow> 's \<Rightarrow> 'p \<Rightarrow> 'p nview \<Rightarrow> string option \<Rightarrow> addition \<Rightarrow> 'p \<Rightarrow> 's \<Rightarrow> bool" where
  \<comment> \<open>a new last child with its name and contents, nothing else changed\<close>
  "extends D s p v nm a q s1 \<longleftrightarrow> d_ok D s1 \<and> d_view D s q = None \<and>
     d_view D s1 p = Some (v\<lparr>nv_kids := nv_kids v @ [q]\<rparr>) \<and> (\<forall>x. x \<noteq> p \<and> d_view D s x \<noteq> None \<longrightarrow> d_view D s1 x = d_view D s x) \<and>
     (\<exists>w. d_view D s1 q = Some w \<and> nv_kind w = Element_node \<and> nv_get w ''name'' = nm \<and> contents D s1 a w \<and>
        (a = Add_array \<or> a = Add_dict \<longrightarrow> nv_kids w = []))"

lemma new_unlinked:
  assumes "dom_laws D" and "d_ok D s" and "d_view D s q = None"
  shows "unlinked D s q"
  using reader_lawsD(5) [OF assms(1,2)] assms(3) by (fastforce simp: unlinked_def)

lemma new_child_extends:
  assumes "dom_laws D" and "d_ok D s" and "d_view D s p = Some v" and "d_new D t s = (q, s1)" and "a = Add_array \<or> a = Add_dict"
  shows "extends D s p v None a q (d_add D p q s1)" and "extends D s p v (Some k) a q (d_add D p q (d_new_prop D q ''name'' k s1))"
proof -
  note n = writer_lawsD(1) [OF assms(1,2,4)]
  then have qp: "q \<noteq> p" and v: "d_view D s1 p = Some v" and q: "d_view D s1 q = Some (element_view t)"
    and ok: "d_ok D s1" using assms(3) by auto
  have u: "unlinked D s1 q" using new_unlinked [OF assms(1,2), of q] n by (auto simp: unlinked_def element_view_def)
  show "extends D s p v None a q (d_add D p q s1)"
    using writer_lawsD(3) [OF assms(1) ok v q _ u qp] n qp q assms(3,5) by (auto simp: extends_def element_view_def contents_def)
  let ?w = "(element_view t)\<lparr>nv_get := [''name'' \<mapsto> k]\<rparr>"
  have m: "d_ok D (d_new_prop D q ''name'' k s1)" "d_view D (d_new_prop D q ''name'' k s1) = (d_view D s1)(q \<mapsto> ?w)"
    using writer_lawsD(2) [OF assms(1) ok q, of "''name''" k] by (simp_all add: element_view_def)
  have "unlinked D (d_new_prop D q ''name'' k s1) q" using u by (auto simp: unlinked_def m(2) element_view_def)
  then show "extends D s p v (Some k) a q (d_add D p q (d_new_prop D q ''name'' k s1))"
    using writer_lawsD(3) [OF assms(1) m(1), of p v q ?w] m n qp v assms(3,5)
    by (auto simp: extends_def element_view_def contents_def)
qed

lemma text_child_extends:
  assumes "dom_laws D" and "d_ok D s" and "d_view D s p = Some v" and "d_text_child D p t x s = (q, s1)"
  shows "extends D s p v None (Add_value x) q s1" and "extends D s p v (Some k) (Add_value x) q (d_new_prop D q ''name'' k s1)"
proof -
  note n = writer_lawsD(4) [OF assms, unfolded with_text_def]
  then have qp: "q \<noteq> p" and ok: "d_ok D s1" using assms(3) by auto
  show e: "extends D s p v None (Add_value x) q s1"
  proof (cases "x = []")
    case False
    then obtain y where "y \<noteq> q" "d_view D s y = None" "d_view D s1 = (d_view D s)(p \<mapsto> v\<lparr>nv_kids := nv_kids v @ [q]\<rparr>,
           q \<mapsto> (element_view t)\<lparr>nv_kids := [y]\<rparr>, y \<mapsto> text_view x)"
      using n by auto
    then show ?thesis using n qp assms(3) False by (auto simp: extends_def element_view_def contents_def)
  qed (use n qp assms(3) in \<open>auto simp: extends_def element_view_def contents_def\<close>)
  then obtain w where w: "d_view D s1 q = Some w" "nv_kind w = Element_node" "nv_get w ''name'' = None" "contents D s1 (Add_value x) w"
    unfolding extends_def by blast
  let ?w = "w\<lparr>nv_get := (nv_get w)(''name'' \<mapsto> k)\<rparr>"
  have m: "d_ok D (d_new_prop D q ''name'' k s1)" "d_view D (d_new_prop D q ''name'' k s1) = (d_view D s1)(q \<mapsto> ?w)"
    using writer_lawsD(2) [OF assms(1) ok w(1), of "''name''" k] w(3) by simp_all
  have "contents D (d_new_prop D q ''name'' k s1) (Add_value x) ?w"
  proof (cases "x = []")
    case False
    then obtain y where y: "nv_kids w = [y]" "d_view D s1 y = Some (text_view x)" using w(4) by (auto simp: contents_def)
    then have "y \<noteq> q" using w(1,2) by (auto simp: text_view_def)
    then show ?thesis using y m(2) False by (simp add: contents_def)
  qed (use w(4) in \<open>simp add: contents_def\<close>)
  then show "extends D s p v (Some k) (Add_value x) q (d_new_prop D q ''name'' k s1)"
    using e m w qp n by (auto simp: extends_def)
qed

lemma add_call_extends:
  assumes "dom_laws D" and "d_ok D s" and "d_view D s p = Some v" and "add_call D nm a p s = (q, s1)"
  shows "extends D s p v nm a q s1"
  using assms new_child_extends [OF assms(1-3)] text_child_extends [OF assms(1-3)]
  by (cases nm; cases a) (auto simp: array_array_def array_dict_def array_value_def dict_array_def dict_dict_def
      dict_value_def split: prod.splits)

subsection \<open>The handles stay valid\<close>

definition entry_ok :: "('s, 'p) dom \<Rightarrow> 'p list \<Rightarrow> 's \<Rightarrow> call \<times> 'p \<Rightarrow> bool" where
  "entry_ok D hs s e \<longleftrightarrow> (case e of ((h, nm, a), q) \<Rightarrow> h < length hs \<and>
     (\<exists>w. d_view D s q = Some w \<and> nv_kind w = Element_node \<and> nv_get w ''name'' = nm \<and> contents D s a w) \<and>
     (q \<in> set hs \<longleftrightarrow> a = Add_array \<or> a = Add_dict))"

definition handles_ok :: "('s, 'p) dom \<Rightarrow> 'p list \<times> (call \<times> 'p) list \<times> 's \<Rightarrow> bool" where
  "handles_ok D st \<longleftrightarrow> (case st of (hs, log, s) \<Rightarrow> d_ok D s \<and> distinct hs \<and> list_all (entry_ok D hs s) log \<and>
     (\<forall>h < length hs. \<exists>v. d_view D s (hs ! h) = Some v \<and> nv_kind v = Element_node \<and> nv_kids v = map snd (added_to h log)))"

lemma added_to_snoc [simp]: "added_to g (log @ [((h, nm, a), q)]) = added_to g log @ (if g = h then [((h, nm, a), q)] else [])"
  by (simp add: added_to_def)

lemma entry_ok_extends:
  assumes "entry_ok D hs s e" and "extends D s p v nm a q s1" and "d_view D s p = Some v" and "nv_kind v = Element_node" and "p \<in> set hs"
    and "set gs = set hs \<or> (a = Add_array \<or> a = Add_dict) \<and> set gs = insert q (set hs)" and "length hs \<le> length gs"
  shows "entry_ok D gs s1 e"
proof -
  obtain h nm' a' r where e: "e = ((h, nm', a'), r)" by (cases e) auto
  from assms(1) obtain w where w: "d_view D s r = Some w" "nv_kind w = Element_node" "nv_get w ''name'' = nm'" "contents D s a' w"
    "h < length hs" "r \<in> set hs \<longleftrightarrow> a' = Add_array \<or> a' = Add_dict"
    by (auto simp: entry_ok_def e)
  have x: "d_view D s q = None" "d_view D s1 p = Some (v\<lparr>nv_kids := nv_kids v @ [q]\<rparr>)"
    "\<And>z. z \<noteq> p \<Longrightarrow> d_view D s z \<noteq> None \<Longrightarrow> d_view D s1 z = d_view D s z"
    using assms(2) by (auto simp: extends_def)
  have rq: "r \<noteq> q" using w(1) x(1) by auto
  then have set: "r \<in> set gs \<longleftrightarrow> a' = Add_array \<or> a' = Add_dict" using assms(6) w(6) by auto
  have "\<exists>u. d_view D s1 r = Some u \<and> nv_kind u = Element_node \<and> nv_get u ''name'' = nm' \<and> contents D s1 a' u"
  proof (cases "r = p")
    case True
    then have "a' = Add_array \<or> a' = Add_dict" "w = v" using assms(3,5) w(1,6) by auto
    then show ?thesis using x(2) w(2,3) True by (auto simp: contents_def)
  next
    case False
    have "d_view D s1 y = Some (text_view z)" if "d_view D s y = Some (text_view z)" for y z
    proof -
      have "y \<noteq> p" using that assms(3,4) by (auto simp: text_view_def)
      then show ?thesis using x(3) [of y] that by simp
    qed
    then have "contents D s1 a' w" using w(4) by (auto simp: contents_def split: addition.splits if_splits)
    then show ?thesis using x(3) [OF False] w by simp
  qed
  then show ?thesis using set w(5) assms(7) by (simp add: entry_ok_def e)
qed

lemma handles_ok_call:
  assumes "dom_laws D" and "handles_ok D (hs, log, s)" and "h < length hs" and "add_call D nm a (hs ! h) s = (q, s1)"
  shows "handles_ok D (if a = Add_array \<or> a = Add_dict then hs @ [q] else hs, log @ [((h, nm, a), q)], s1)"
proof -
  let ?c = "a = Add_array \<or> a = Add_dict" and ?log = "log @ [((h, nm, a), q)]"
  let ?hs = "if ?c then hs @ [q] else hs"
  have i: "d_ok D s" "distinct hs" "list_all (entry_ok D hs s) log"
    "\<And>g. g < length hs \<Longrightarrow> \<exists>v. d_view D s (hs ! g) = Some v \<and> nv_kind v = Element_node \<and> nv_kids v = map snd (added_to g log)"
    using assms(2) by (auto simp: handles_ok_def)
  obtain v where v: "d_view D s (hs ! h) = Some v" "nv_kind v = Element_node" "nv_kids v = map snd (added_to h log)"
    using i(4) [OF assms(3)] by blast
  have ext: "extends D s (hs ! h) v nm a q s1" by (rule add_call_extends [OF assms(1) i(1) v(1) assms(4)])
  then obtain w where w: "d_view D s1 q = Some w" "nv_kind w = Element_node" "nv_get w ''name'' = nm" "contents D s1 a w"
    "?c \<longrightarrow> nv_kids w = []" and x: "d_ok D s1" "d_view D s q = None" "d_view D s1 (hs ! h) = Some (v\<lparr>nv_kids := nv_kids v @ [q]\<rparr>)"
    "\<And>z. z \<noteq> hs ! h \<Longrightarrow> d_view D s z \<noteq> None \<Longrightarrow> d_view D s1 z = d_view D s z"
    unfolding extends_def by blast
  have qn: "q \<notin> set hs"
  proof
    assume "q \<in> set hs"
    then obtain g where "g < length hs" "hs ! g = q" by (auto simp: in_set_conv_nth)
    then show False using i(4) [of g] x(2) by auto
  qed
  have "list_all (entry_ok D ?hs s1) log"
    using i(3) entry_ok_extends [OF _ ext v(1,2) nth_mem [OF assms(3)], where gs = ?hs] by (auto simp: list_all_iff)
  moreover have "entry_ok D ?hs s1 ((h, nm, a), q)" using w assms(3) qn by (auto simp: entry_ok_def)
  moreover have "\<exists>u. d_view D s1 (?hs ! g) = Some u \<and> nv_kind u = Element_node \<and> nv_kids u = map snd (added_to g ?log)"
    if "g < length ?hs" for g
  proof (cases "g < length hs")
    case True
    then have g: "?hs ! g = hs ! g" by (simp add: nth_append)
    show ?thesis
    proof (cases "g = h")
      case True
      then show ?thesis using x(3) v unfolding g by simp
    next
      case False
      then have "hs ! g \<noteq> hs ! h" using nth_eq_iff_index_eq [OF i(2) \<open>g < length hs\<close> assms(3)] by simp
      then show ?thesis using x(4) [of "hs ! g"] i(4) [OF True] False unfolding g by auto
    qed
  next
    case False
    then have c: "?c" "g = length hs" using that by (auto split: if_splits)
    have "added_to (length hs) log = []"
      using i(3) by (auto simp: added_to_def filter_empty_conv list_all_iff entry_ok_def)
    then show ?thesis using c w assms(3) by auto
  qed
  ultimately show ?thesis using i(2) x(1) qn unfolding handles_ok_def by (simp add: distinct_append)
qed

lemma handles_ok_run:
  "dom_laws D \<Longrightarrow> handles_ok D (hs, log, s) \<Longrightarrow> scoped_calls (length hs) cs \<Longrightarrow>
    handles_ok D (run_calls D cs (hs, log, s)) \<and> map fst (fst (snd (run_calls D cs (hs, log, s)))) = map fst log @ cs"
proof (induction cs arbitrary: hs log s)
  case (Cons c cs)
  obtain h nm a where c: "c = (h, nm, a)" by (cases c) auto
  obtain q s1 where r: "add_call D nm a (hs ! h) s = (q, s1)" by force
  let ?hs = "if a = Add_array \<or> a = Add_dict then hs @ [q] else hs"
  have "handles_ok D (?hs, log @ [((h, nm, a), q)], s1)"
    using handles_ok_call [OF Cons.prems(1,2) _ r] Cons.prems(3) c by simp
  moreover have "scoped_calls (length ?hs) cs" using Cons.prems(3) c by (auto split: if_splits)
  ultimately show ?case using Cons.IH [OF Cons.prems(1), of ?hs] by (simp add: c r)
qed simp

subsection \<open>What the handles read\<close>

lemma entry_reads:
  assumes "dom_laws D" and "handles_ok D (hs, log, s)" and "((h, nm, a), q) \<in> set log"
  shows "d_kind D s q = Element_node" and "d_get D s q ''name'' = nm"
    and "a = Add_value x \<Longrightarrow> node_str D s q = (if x = [] then Inl Invalid_argument else Inr x)"
    and "a = Add_value x \<Longrightarrow> node_int D s q = (if x = [] then Inl Invalid_argument else stoi 10 x)"
    and "a = Add_array \<or> a = Add_dict \<Longrightarrow> node_str D s q = Inl Invalid_argument \<and> q \<in> set hs"
proof -
  have "entry_ok D hs s ((h, nm, a), q)" and ok: "d_ok D s"
    using assms(2,3) by (auto simp: handles_ok_def list_all_iff)
  then obtain w where w: "d_view D s q = Some w" "nv_kind w = Element_node" "nv_get w ''name'' = nm" "contents D s a w"
    "q \<in> set hs \<longleftrightarrow> a = Add_array \<or> a = Add_dict"
    by (auto simp: entry_ok_def)
  note r = reader_lawsD [OF assms(1) ok w(1)]
  show "d_kind D s q = Element_node" "d_get D s q ''name'' = nm" using r(1,2) w(2,3) by simp_all
  have tn: "d_kind D s y = Text_node \<and> d_content D s y = x" if "d_view D s y = Some (text_view x)" for y x
    using reader_lawsD(1,3) [OF assms(1) ok that] by (simp add: text_view_def)
  show "node_str D s q = (if x = [] then Inl Invalid_argument else Inr x)" if "a = Add_value x"
    using w(4) r(4) tn that by (cases "x = []") (auto simp: node_str_def contents_def)
  show "node_int D s q = (if x = [] then Inl Invalid_argument else stoi 10 x)" if "a = Add_value x"
    using w(4) r(4) tn that by (cases "x = []") (auto simp: node_int_def contents_def)
  show "node_str D s q = Inl Invalid_argument \<and> q \<in> set hs" if a: "a = Add_array \<or> a = Add_dict"
  proof -
    have q: "q \<in> set hs" using a w(5) by blast
    then obtain g where g: "g < length hs" "hs ! g = q" by (auto simp: in_set_conv_nth)
    then have "nv_kids w = map snd (added_to g log)" using assms(2) w(1) by (auto simp: handles_ok_def)
    moreover have "d_kind D s z = Element_node" if z: "z \<in> set (map snd (added_to g log))" for z
    proof -
      obtain h' nm' a' where "((h', nm', a'), z) \<in> set log" using z by (auto simp: added_to_def)
      then have "entry_ok D hs s ((h', nm', a'), z)" using assms(2) by (auto simp: handles_ok_def list_all_iff)
      then obtain u where "d_view D s z = Some u" "nv_kind u = Element_node" by (auto simp: entry_ok_def)
      then show ?thesis using reader_lawsD(1) [OF assms(1) ok] by simp
    qed
    ultimately show ?thesis
      using q r(4) by (cases "nv_kids w") (auto simp: node_str_def)
  qed
qed

lemma find_map: "find P (map f xs) = map_option f (find (\<lambda>x. P (f x)) xs)"
  by (induction xs) simp_all

lemma find_cong_set: "(\<And>x. x \<in> set xs \<Longrightarrow> P x = Q x) \<Longrightarrow> find P xs = find Q xs"
  by (induction xs) simp_all

lemma handle_reads:
  assumes "dom_laws D" and "handles_ok D (hs, log, s)" and "h < length hs"
  shows "visited D s (hs ! h) = Some (map snd (added_to h log))"
    and "value_index D s (hs ! h) k = Some (case find (\<lambda>e. entry_name e = Some k) (added_to h log) of
      None \<Rightarrow> Inl Out_of_range | Some e \<Rightarrow> Inr (snd e))"
proof -
  obtain v where v: "d_view D s (hs ! h) = Some v" "nv_kids v = map snd (added_to h log)" and ok: "d_ok D s"
    using assms(2,3) by (auto simp: handles_ok_def)
  have e: "d_kind D s (snd e) = Element_node \<and> d_get D s (snd e) ''name'' = entry_name e" if "e \<in> set (added_to h log)" for e
  proof -
    obtain t nm a q where q: "e = ((t, nm, a), q)" by (metis prod.collapse)
    then have "((t, nm, a), q) \<in> set log" using that by (auto simp: added_to_def)
    then show ?thesis using entry_reads(1,2) [OF assms(1,2)] q by (auto simp: entry_name_def)
  qed
  then have "filter (\<lambda>q. d_kind D s q = Element_node) (map snd (added_to h log)) = map snd (added_to h log)"
    by (auto intro: filter_True)
  then show "visited D s (hs ! h) = Some (map snd (added_to h log))"
    using visited_kids [OF assms(1) ok v(1)] v(2) by simp
  have "find (\<lambda>q. d_kind D s q = Element_node \<and> d_get D s q ''name'' = Some k) (map snd (added_to h log)) =
      map_option snd (find (\<lambda>e. entry_name e = Some k) (added_to h log))"
    unfolding find_map using e by (intro arg_cong [where f = "map_option snd"] find_cong_set) auto
  then show "value_index D s (hs ! h) k = Some (case find (\<lambda>e. entry_name e = Some k) (added_to h log) of
      None \<Rightarrow> Inl Out_of_range | Some e \<Rightarrow> Inr (snd e))"
    using value_index_kids [OF assms(1) ok v(1), of k] v(2) by (simp split: option.split)
qed


subsection \<open>A heap of nodes\<close>

text \<open>
  Nodes by number, with linked siblings: an instance of the laws.
\<close>

record heap =
  hp_view :: "nat \<Rightarrow> nat nview option"
  hp_next :: "nat \<Rightarrow> nat option"
  hp_free :: nat

fun chained :: "('p \<Rightarrow> 'p option) \<Rightarrow> 'p list \<Rightarrow> bool" where
  "chained nx [] \<longleftrightarrow> True" | "chained nx (x # ys) \<longleftrightarrow> nx x = first ys \<and> chained nx ys"

definition heap_ok :: "heap \<Rightarrow> bool" where
  "heap_ok s \<longleftrightarrow> (\<forall>p v. hp_view s p = Some v \<longrightarrow> p < hp_free s \<and> distinct (nv_kids v) \<and> chained (hp_next s) (nv_kids v) \<and>
       (\<forall>c \<in> set (nv_kids v). hp_view s c \<noteq> None)) \<and>
     (\<forall>p v p' v' c. hp_view s p = Some v \<and> hp_view s p' = Some v' \<and> c \<in> set (nv_kids v) \<and> c \<in> set (nv_kids v') \<longrightarrow> p = p') \<and>
     (\<forall>c. (\<forall>p v. hp_view s p = Some v \<longrightarrow> c \<notin> set (nv_kids v)) \<longrightarrow> hp_next s c = None)"

definition heap_new :: "string \<Rightarrow> heap \<Rightarrow> nat \<times> heap" where
  "heap_new t s = (hp_free s, s\<lparr>hp_view := (hp_view s)(hp_free s \<mapsto> element_view t), hp_free := Suc (hp_free s)\<rparr>)"

definition heap_prop :: "nat \<Rightarrow> string \<Rightarrow> string \<Rightarrow> heap \<Rightarrow> heap" where
  "heap_prop p k x s = (case hp_view s p of None \<Rightarrow> s
     | Some v \<Rightarrow> s\<lparr>hp_view := (hp_view s)(p \<mapsto> v\<lparr>nv_get := (if nv_get v k = None then (nv_get v)(k \<mapsto> x) else nv_get v)\<rparr>)\<rparr>)"

definition heap_add :: "nat \<Rightarrow> nat \<Rightarrow> heap \<Rightarrow> heap" where
  "heap_add p c s = (case hp_view s p of None \<Rightarrow> s
     | Some v \<Rightarrow> s\<lparr>hp_view := (hp_view s)(p \<mapsto> v\<lparr>nv_kids := nv_kids v @ [c]\<rparr>),
         hp_next := (if nv_kids v = [] then hp_next s else (hp_next s)(last (nv_kids v) \<mapsto> c))\<rparr>)"

definition heap_text :: "nat \<Rightarrow> string \<Rightarrow> heap \<Rightarrow> heap" where
  \<comment> \<open>a text node below a node without children\<close>
  "heap_text q x s = (if x = [] then s
     else heap_add q (hp_free s) (s\<lparr>hp_view := (hp_view s)(hp_free s \<mapsto> text_view x), hp_free := Suc (hp_free s)\<rparr>))"

definition heap_dom :: "(heap, nat) dom" where
  "heap_dom = \<lparr>d_view = hp_view, d_ok = heap_ok, d_new = heap_new,
     d_text_child = (\<lambda>p t x s. let (q, s1) = heap_new t s in (q, heap_add p q (heap_text q x s1))),
     d_new_prop = heap_prop, d_add = heap_add,
     d_children = (\<lambda>s p. Option.bind (hp_view s p) (\<lambda>v. first (nv_kids v))), d_next = hp_next,
     d_kind = (\<lambda>s p. case hp_view s p of None \<Rightarrow> Other_node | Some v \<Rightarrow> nv_kind v),
     d_get = (\<lambda>s p. case hp_view s p of None \<Rightarrow> (\<lambda>_. None) | Some v \<Rightarrow> nv_get v),
     d_content = (\<lambda>s p. case hp_view s p of None \<Rightarrow> [] | Some v \<Rightarrow> nv_text v)\<rparr>"

lemma chained_next: "chained nx (xs @ x # ys) \<Longrightarrow> nx x = first ys"
  by (induction xs) simp_all

lemma chained_other: "z \<notin> set ks \<Longrightarrow> chained (nx(z := w)) ks = chained nx ks"
  by (induction ks) auto

lemma chained_snoc: "ks \<noteq> [] \<Longrightarrow> chained nx ks \<Longrightarrow> distinct (ks @ [c]) \<Longrightarrow> nx c = None \<Longrightarrow> chained (nx(last ks \<mapsto> c)) (ks @ [c])"
proof (induction ks rule: list_nonempty_induct)
  case (cons x ks)
  have l: "last ks \<noteq> x" using cons.prems(2) last_in_set [OF cons.hyps] by auto
  have "chained (nx(last ks \<mapsto> c)) (ks @ [c])" by (rule cons.IH) (use cons.prems in auto)
  moreover have "first (ks @ [c]) = first ks" using cons.hyps by (cases ks) simp_all
  moreover have "last (x # ks) = last ks" using cons.hyps by simp
  ultimately show ?case using cons.prems(1) l by (simp only: append_Cons chained.simps fun_upd_other [OF l [symmetric]] simp_thms)
qed auto

lemma heap_okD:
  assumes "heap_ok s"
  shows "hp_view s p = Some v \<Longrightarrow> p < hp_free s" "hp_view s p = Some v \<Longrightarrow> distinct (nv_kids v)"
    "hp_view s p = Some v \<Longrightarrow> chained (hp_next s) (nv_kids v)"
    "hp_view s p = Some v \<Longrightarrow> c \<in> set (nv_kids v) \<Longrightarrow> hp_view s c \<noteq> None"
    "hp_view s p = Some v \<Longrightarrow> hp_view s p' = Some v' \<Longrightarrow> c \<in> set (nv_kids v) \<Longrightarrow> c \<in> set (nv_kids v') \<Longrightarrow> p = p'"
    "unlinked heap_dom s c \<Longrightarrow> hp_next s c = None" "hp_view s (hp_free s) = None"
proof -
  note ok = assms [unfolded heap_ok_def]
  show "hp_view s p = Some v \<Longrightarrow> p < hp_free s" "hp_view s p = Some v \<Longrightarrow> distinct (nv_kids v)"
    "hp_view s p = Some v \<Longrightarrow> chained (hp_next s) (nv_kids v)"
    "hp_view s p = Some v \<Longrightarrow> c \<in> set (nv_kids v) \<Longrightarrow> hp_view s c \<noteq> None"
    using ok by blast+
  show "hp_view s p = Some v \<Longrightarrow> hp_view s p' = Some v' \<Longrightarrow> c \<in> set (nv_kids v) \<Longrightarrow> c \<in> set (nv_kids v') \<Longrightarrow> p = p'"
    using ok by blast
  show "unlinked heap_dom s c \<Longrightarrow> hp_next s c = None" using ok by (simp add: unlinked_def heap_dom_def)
  show "hp_view s (hp_free s) = None" using ok by (metis not_None_eq less_irrefl)
qed

lemma heap_ok_node:
  assumes "heap_ok s" and "nv_kids u = []"
  shows "heap_ok (s\<lparr>hp_view := (hp_view s)(hp_free s \<mapsto> u), hp_free := Suc (hp_free s)\<rparr>)"
proof -
  note d = heap_okD [OF assms(1)]
  have "hp_next s c = None" if "\<forall>p v. ((hp_view s)(hp_free s \<mapsto> u)) p = Some v \<longrightarrow> c \<notin> set (nv_kids v)" for c
  proof (rule d(6), unfold unlinked_def, intro allI impI)
    fix p v assume "d_view heap_dom s p = Some v"
    then have "hp_view s p = Some v" by (simp add: heap_dom_def)
    moreover from this have "p \<noteq> hp_free s" using d(7) by auto
    ultimately have "((hp_view s)(hp_free s \<mapsto> u)) p = Some v" by simp
    then show "c \<notin> set (nv_kids v)" using that by blast
  qed
  then show ?thesis
    using d(1-5) assms(2) unfolding heap_ok_def by (auto simp: less_Suc_eq split: if_splits)
qed

lemma heap_ok_add:
  assumes "heap_ok s" and "hp_view s p = Some v" and "hp_view s c \<noteq> None" and "unlinked heap_dom s c"
  shows "heap_ok (heap_add p c s)"
proof -
  note d = heap_okD [OF assms(1)]
  let ?v = "v\<lparr>nv_kids := nv_kids v @ [c]\<rparr>"
  let ?nx = "if nv_kids v = [] then hp_next s else (hp_next s)(last (nv_kids v) \<mapsto> c)"
  have e: "heap_add p c s = s\<lparr>hp_view := (hp_view s)(p \<mapsto> ?v), hp_next := ?nx\<rparr>"
    using assms(2) by (simp add: heap_add_def)
  have c: "c \<notin> set (nv_kids w)" if "hp_view s x = Some w" for x w
    using assms(4) that by (auto simp: unlinked_def heap_dom_def)
  have nc: "hp_next s c = None" by (rule d(6) [OF assms(4)])
  have cp: "chained ?nx (nv_kids ?v)"
  proof (cases "nv_kids v = []")
    case False
    have "distinct (nv_kids v @ [c])" using d(2) [OF assms(2)] c [OF assms(2)] by simp
    then have "chained ((hp_next s)(last (nv_kids v) \<mapsto> c)) (nv_kids v @ [c])"
      by (rule chained_snoc [OF False d(3) [OF assms(2)] _ nc])
    then show ?thesis using False by simp
  qed (use nc in simp)
  have co: "chained ?nx (nv_kids w)" if "hp_view s x = Some w" "x \<noteq> p" for x w
  proof (cases "nv_kids v = []")
    case False
    then have "last (nv_kids v) \<notin> set (nv_kids w)" using d(5) [OF that(1) assms(2)] that(2) last_in_set by blast
    then show ?thesis using d(3) [OF that(1)] False by (simp add: chained_other)
  qed (use d(3) [OF that(1)] in simp)
  have un: "?nx x = None" if "\<forall>q w. ((hp_view s)(p \<mapsto> ?v)) q = Some w \<longrightarrow> x \<notin> set (nv_kids w)" for x
  proof -
    have xv: "x \<notin> set (nv_kids ?v)" using that by (metis fun_upd_same)
    have "unlinked heap_dom s x"
      unfolding unlinked_def
    proof (intro allI impI)
      fix q w assume "d_view heap_dom s q = Some w"
      then have w: "hp_view s q = Some w" by (simp add: heap_dom_def)
      show "x \<notin> set (nv_kids w)"
      proof (cases "q = p")
        case True
        then show ?thesis using w assms(2) xv by simp
      next
        case False
        then have "((hp_view s)(p \<mapsto> ?v)) q = Some w" using w by simp
        then show ?thesis using that by blast
      qed
    qed
    then have "hp_next s x = None" by (rule d(6))
    moreover have "nv_kids v \<noteq> [] \<Longrightarrow> x \<noteq> last (nv_kids v)" using xv last_in_set [of "nv_kids v"] by auto
    ultimately show ?thesis by simp
  qed
  show ?thesis
    unfolding heap_ok_def e
  proof (intro conjI allI impI)
    fix q w assume "hp_view (s\<lparr>hp_view := (hp_view s)(p \<mapsto> ?v), hp_next := ?nx\<rparr>) q = Some w"
    then consider "q = p" "w = ?v" | "q \<noteq> p" "hp_view s q = Some w" by (auto split: if_splits)
    then have "q < hp_free s \<and> distinct (nv_kids w) \<and> chained ?nx (nv_kids w) \<and>
        (\<forall>c \<in> set (nv_kids w). ((hp_view s)(p \<mapsto> ?v)) c \<noteq> None)"
      by cases (use d(1,2,4) cp co assms(2,3) c [OF assms(2)] in auto)
    then show "q < hp_free (s\<lparr>hp_view := (hp_view s)(p \<mapsto> ?v), hp_next := ?nx\<rparr>)" "distinct (nv_kids w)"
      "chained (hp_next (s\<lparr>hp_view := (hp_view s)(p \<mapsto> ?v), hp_next := ?nx\<rparr>)) (nv_kids w)"
      "\<forall>c \<in> set (nv_kids w). hp_view (s\<lparr>hp_view := (hp_view s)(p \<mapsto> ?v), hp_next := ?nx\<rparr>) c \<noteq> None"
      by simp_all
  next
    fix q w q' w' z
    assume "hp_view (s\<lparr>hp_view := (hp_view s)(p \<mapsto> ?v), hp_next := ?nx\<rparr>) q = Some w \<and>
      hp_view (s\<lparr>hp_view := (hp_view s)(p \<mapsto> ?v), hp_next := ?nx\<rparr>) q' = Some w' \<and> z \<in> set (nv_kids w) \<and> z \<in> set (nv_kids w')"
    then show "q = q'" using d(5) assms(2) c by (auto split: if_splits)
  next
    fix x assume "\<forall>q w. hp_view (s\<lparr>hp_view := (hp_view s)(p \<mapsto> ?v), hp_next := ?nx\<rparr>) q = Some w \<longrightarrow> x \<notin> set (nv_kids w)"
    then show "hp_next (s\<lparr>hp_view := (hp_view s)(p \<mapsto> ?v), hp_next := ?nx\<rparr>) x = None" using un [of x] by simp
  qed
qed

lemma heap_dom_simps [simp]:
  "d_view heap_dom = hp_view" "d_ok heap_dom = heap_ok" "d_new heap_dom = heap_new" "d_new_prop heap_dom = heap_prop"
  "d_add heap_dom = heap_add" "d_next heap_dom = hp_next"
  by (simp_all add: heap_dom_def)

lemma heap_new_ok: "heap_ok s \<Longrightarrow> heap_ok (snd (heap_new t s))"
  using heap_ok_node [of s "element_view t"] by (simp add: heap_new_def element_view_def)

lemma heap_fresh_unlinked: "heap_ok s \<Longrightarrow> hp_view s q = None \<Longrightarrow> unlinked heap_dom s q"
  using heap_okD(4) by (fastforce simp: unlinked_def)

lemma heap_text_ok:
  assumes "heap_ok s" and "hp_view s q = Some w" and "nv_kids w = []" and "x \<noteq> []"
  shows "heap_ok (heap_text q x s)" and "hp_view (heap_text q x s) = (hp_view s)(q \<mapsto> w\<lparr>nv_kids := [hp_free s]\<rparr>, hp_free s \<mapsto> text_view x)"
proof -
  let ?s = "s\<lparr>hp_view := (hp_view s)(hp_free s \<mapsto> text_view x), hp_free := Suc (hp_free s)\<rparr>"
  have q: "q \<noteq> hp_free s" using assms(2) heap_okD(7) [OF assms(1)] by auto
  have ok: "heap_ok ?s" using heap_ok_node [OF assms(1), of "text_view x"] by (simp add: text_view_def)
  have "unlinked heap_dom s (hp_free s)" by (rule heap_fresh_unlinked [OF assms(1) heap_okD(7) [OF assms(1)]])
  then have "unlinked heap_dom ?s (hp_free s)" by (auto simp: unlinked_def text_view_def)
  then show "heap_ok (heap_text q x s)"
    using heap_ok_add [OF ok, of q w "hp_free s"] assms(2,4) q by (simp add: heap_text_def)
  show "hp_view (heap_text q x s) = (hp_view s)(q \<mapsto> w\<lparr>nv_kids := [hp_free s]\<rparr>, hp_free s \<mapsto> text_view x)"
    using assms(2,3,4) q by (simp add: heap_text_def heap_add_def fun_upd_twist)
qed

lemma heap_text_law: "text_law heap_dom"
  unfolding text_law_def heap_dom_simps
proof (intro allI impI)
  fix s p v t x q s1
  assume a: "heap_ok s \<and> hp_view s p = Some v \<and> d_text_child heap_dom p t x s = (q, s1)"
  let ?n = "snd (heap_new t s)"
  have n: "heap_ok ?n" "q = hp_free s" "s1 = heap_add p q (heap_text q x ?n)" "hp_view ?n = (hp_view s)(q \<mapsto> element_view t)"
    "hp_free ?n = Suc q"
    using a heap_new_ok [of s t] by (auto simp: heap_dom_def heap_new_def)
  have q: "hp_view s q = None" "q \<noteq> p" using a heap_okD(7) [of s] n(2) by auto
  have "hp_view s (Suc q) = None" using a heap_okD(1) [of s "Suc q"] n(2) by (cases "hp_view s (Suc q)") auto
  moreover have "Suc q \<noteq> p" using calculation a by auto
  moreover have "unlinked heap_dom s q" using heap_fresh_unlinked a q(1) by blast
  ultimately show "with_text heap_dom s p v t x q s1"
  proof (cases "x = []")
    case True
    have "unlinked heap_dom ?n q" using \<open>unlinked heap_dom s q\<close> n(4) by (auto simp: unlinked_def element_view_def)
    then have "heap_ok s1" using heap_ok_add [OF n(1), of p v q] a n True q by (simp add: heap_text_def)
    then show ?thesis using a n True q by (simp add: with_text_def heap_text_def heap_add_def fun_upd_twist)
  next
    case False
    note k = heap_text_ok [OF n(1), of q "element_view t" x, unfolded n(4,5)]
    have k': "heap_ok (heap_text q x ?n)" "hp_view (heap_text q x ?n) =
        (hp_view s)(q \<mapsto> (element_view t)\<lparr>nv_kids := [Suc q]\<rparr>, Suc q \<mapsto> text_view x)"
      using k False by (simp_all add: element_view_def)
    have "unlinked heap_dom (heap_text q x ?n) q"
      using \<open>unlinked heap_dom s q\<close> k'(2) by (auto simp: unlinked_def text_view_def)
    then have "heap_ok s1" using heap_ok_add [OF k'(1), of p v q] a n(3) k'(2) q \<open>Suc q \<noteq> p\<close> by simp
    moreover have "hp_view s1 = (hp_view s)(p \<mapsto> v\<lparr>nv_kids := nv_kids v @ [q]\<rparr>,
        q \<mapsto> (element_view t)\<lparr>nv_kids := [Suc q]\<rparr>, Suc q \<mapsto> text_view x)"
      using a n(3) k'(2) q \<open>Suc q \<noteq> p\<close> by (auto simp: heap_add_def fun_eq_iff)
    ultimately show ?thesis
      using False q \<open>hp_view s (Suc q) = None\<close> by (auto simp: with_text_def intro!: exI [of _ "Suc q"])
  qed
qed

lemma heap_ok_same:
  assumes "heap_ok s" and "\<And>q. (hp_view s q = None) = (hp_view t q = None)"
    and "\<And>q v w. hp_view s q = Some v \<Longrightarrow> hp_view t q = Some w \<Longrightarrow> nv_kids w = nv_kids v"
    and "hp_next t = hp_next s" and "hp_free t = hp_free s"
  shows "heap_ok t"
proof -
  note d = heap_okD [OF assms(1)]
  have old: "\<exists>v. hp_view s q = Some v \<and> nv_kids v = nv_kids w" if "hp_view t q = Some w" for q w
    using assms(2) [of q] assms(3) [OF _ that] that by (cases "hp_view s q") auto
  have new: "\<exists>w. hp_view t q = Some w \<and> nv_kids w = nv_kids v" if "hp_view s q = Some v" for q v
    using assms(2) [of q] assms(3) [OF that] that by (cases "hp_view t q") auto
  show ?thesis
    unfolding heap_ok_def assms(4,5)
  proof (intro conjI allI impI)
    fix q w assume "hp_view t q = Some w"
    then obtain v where v: "hp_view s q = Some v" "nv_kids v = nv_kids w" using old by blast
    show "q < hp_free s" "distinct (nv_kids w)" "chained (hp_next s) (nv_kids w)"
      using d(1-3) [OF v(1)] v(2) by simp_all
    show "\<forall>c \<in> set (nv_kids w). hp_view t c \<noteq> None" using d(4) [OF v(1)] v(2) assms(2) by metis
  next
    fix q w q' w' c
    assume "hp_view t q = Some w \<and> hp_view t q' = Some w' \<and> c \<in> set (nv_kids w) \<and> c \<in> set (nv_kids w')"
    then show "q = q'" using old d(5) by metis
  next
    fix c assume "\<forall>q w. hp_view t q = Some w \<longrightarrow> c \<notin> set (nv_kids w)"
    then have "unlinked heap_dom s c" using new by (fastforce simp: unlinked_def)
    then show "hp_next s c = None" by (rule d(6))
  qed
qed

lemma heap_prop_law: "prop_law heap_dom"
  unfolding prop_law_def heap_dom_simps
proof (intro allI impI)
  fix s p v k x
  assume a: "heap_ok s \<and> hp_view s p = Some v"
  let ?w = "v\<lparr>nv_get := (if nv_get v k = None then (nv_get v)(k \<mapsto> x) else nv_get v)\<rparr>"
  have e: "heap_prop p k x s = s\<lparr>hp_view := (hp_view s)(p \<mapsto> ?w)\<rparr>" using a by (simp add: heap_prop_def)
  have "heap_ok (s\<lparr>hp_view := (hp_view s)(p \<mapsto> ?w)\<rparr>)"
    by (rule heap_ok_same [of s]) (use a in \<open>auto split: if_splits\<close>)
  then show "heap_ok (heap_prop p k x s) \<and> hp_view (heap_prop p k x s) = (hp_view s)(p \<mapsto> ?w)" by (simp add: e)
qed

lemma heap_laws: "dom_laws heap_dom"
proof -
  have "reader_laws heap_dom"
    unfolding reader_laws_def heap_dom_simps
  proof (intro allI impI)
    fix s p v assume a: "heap_ok s \<and> hp_view s p = Some v"
    then have "hp_next s x = first ys" if "nv_kids v = xs @ x # ys" for xs x ys
      using heap_okD(3) [of s p v] that chained_next by metis
    then show "d_kind heap_dom s p = nv_kind v \<and> d_get heap_dom s p = nv_get v \<and> d_content heap_dom s p = nv_text v \<and>
        d_children heap_dom s p = first (nv_kids v) \<and> (\<forall>c \<in> set (nv_kids v). hp_view s c \<noteq> None) \<and>
        (\<forall>xs x ys. nv_kids v = xs @ x # ys \<longrightarrow> hp_next s x = first ys)"
      using a heap_okD(4) [of s p v] by (simp add: heap_dom_def)
  qed
  moreover have "new_law heap_dom"
    using heap_new_ok heap_okD(7) by (auto simp: new_law_def heap_new_def)
  moreover have "add_law heap_dom"
    unfolding add_law_def heap_dom_simps using heap_ok_add by (auto simp: heap_add_def)
  ultimately show ?thesis using heap_text_law heap_prop_law by (simp add: dom_laws_def)
qed

definition empty_heap :: heap where
  "empty_heap = \<lparr>hp_view = Map.empty, hp_next = Map.empty, hp_free = 0\<rparr>"

definition sample_program :: "call list" where
  \<comment> \<open>an array and a value of the message, a dictionary of the array and its value, in turns\<close>
  "sample_program = [(0, Some ''devices'', Add_array), (1, None, Add_dict), (0, Some ''count'', Add_value ''1''),
     (2, Some ''id'', Add_value ''32'')]"

lemma run_calls_grows: "length hs \<le> length (fst (run_calls D cs (hs, log, s)))"
proof (induction cs arbitrary: hs log s)
  case (Cons c cs)
  obtain h nm a where c: "c = (h, nm, a)" by (cases c) auto
  obtain q s1 where r: "add_call D nm a (hs ! h) s = (q, s1)" by force
  show ?case
    using Cons.IH [of "if a = Add_array \<or> a = Add_dict then hs @ [q] else hs" "log @ [((h, nm, a), q)]" s1]
    by (auto simp: c r split: if_splits)
qed simp


subsection \<open>Validation\<close>

record 'n schema_lib =
  sl_parser :: bool \<comment> \<open>whether \<open>xmlSchemaNewMemParserCtxt\<close>, \<open>xmlSchemaParse\<close>, \<open>xmlSchemaNewValidCtxt\<close> succeed\<close>
  sl_schema :: bool
  sl_ctxt :: bool
  sl_validate :: "'n \<Rightarrow> int" \<comment> \<open>\<open>xmlSchemaValidateDoc\<close>, and the message of \<open>xmlGetLastError\<close>\<close>
  sl_error :: "'n \<Rightarrow> string option"

definition right_trim :: "string \<Rightarrow> string" where
  "right_trim e = rev (dropWhile is_space (rev e))"

definition valid_context :: "'n schema_lib \<Rightarrow> bool \<Rightarrow> bool option" where
  \<comment> \<open>the static \<open>valid_ctxt\<close>, made by the first call; \<open>None\<close>: the program exits\<close>
  "valid_context L have_ctxt = (if have_ctxt then Some True
     else if \<not> sl_parser L then None
     else if \<not> sl_schema L then None
     else if \<not> sl_ctxt L then None
     else Some True)"

definition validate_msg :: "'n schema_lib \<Rightarrow> bool \<Rightarrow> 'n \<Rightarrow> bool \<Rightarrow> ((bool \<times> string option) res \<times> bool) option" where
  \<comment> \<open>\<open>GenericMsg::validate_msg\<close>: true for an invalid document; the text only when it is asked for\<close>
  "validate_msg L want n have_ctxt = (case valid_context L have_ctxt of None \<Rightarrow> None
     | Some c \<Rightarrow> Some (let res = sl_validate L n in
         if want then
           if res \<noteq> 0 then (case sl_error L n of None \<Rightarrow> Inl Undefined_behaviour | Some e \<Rightarrow> Inr (True, Some (right_trim e)))
           else Inr (False, Some [])
         else Inr (res \<noteq> 0, None), c))"

definition schema_check :: "'n schema_lib \<Rightarrow> 'n \<Rightarrow> string option" where
  \<comment> \<open>the validation as \<open>TcpClient::recv_msg\<close> uses it\<close>
  "schema_check L n = (if sl_validate L n \<noteq> 0 then Some (right_trim (the (sl_error L n))) else None)"

lemma right_trim_end: "right_trim e = [] \<or> \<not> is_space (last (right_trim e))"
proof (cases "dropWhile is_space (rev e)")
  case (Cons c cs)
  then have "\<not> is_space c" using dropWhile_eq_Cons_conv by metis
  then show ?thesis using Cons by (simp add: right_trim_def)
qed (simp add: right_trim_def)

lemma validate_after_first:
  \<comment> \<open>once a call has returned, no later call exits, and the result is that of the validation alone\<close>
  assumes "validate_msg L w n b = Some (r, c)" and "sl_validate L m \<noteq> 0 \<longrightarrow> sl_error L m \<noteq> None"
  shows "validate_msg L True m c = Some (Inr (schema_check L m \<noteq> None, Some (case schema_check L m of None \<Rightarrow> [] | Some e \<Rightarrow> e)), True)"
  using assms
  by (auto simp: validate_msg_def valid_context_def schema_check_def split: if_splits option.splits)

end
