(* ===== verification/Spec2Isabelle.thy ===== *)
theory Spec2Isabelle
  imports H9_Wire H9_Driver H9_SocketMgr H9_Comparator H9_Socket H9_Msg H9_Server H9_Bus H9_Node
    H9_Device H9_DevMgr H9_Executor H9_Client H9_Fwu H9_Cli H9_Session
    H9_Tools H9_Log H9_Net H9_Start H9_Events H9_Doc H9_Schema H9_Open H9_Config H9_Parse H9_Answers H9_Loop H9_Mains H9_Locks H9_Transport H9_Values
begin

text \<open>
  Verification of the h9 project: the daemons and clients of the H9 home automation bus.

  The program. Nodes (microcontrollers) talk over a CAN bus in frames of at most eight bytes. The
  daemon \<open>h9bus\<close> owns the adapters of the bus (SocketCAN, a serial line, a loop, a dummy) and
  serves TCP clients that send frames and subscribe to them. The daemon \<open>h9d\<close> is such a client: it
  follows the nodes, keeps a directory of devices, and serves TCP clients of its own with method
  calls on devices. The tools \<open>h9cli\<close> (commands for registers), \<open>h9fwu\<close> (firmware upload), \<open>h9send\<close>,
  \<open>h9sniffer\<close> and \<open>h9stat\<close> are clients of \<open>h9bus\<close>. All clients speak one protocol: XML messages, each behind a length of
  four bytes.

  The theories, from the bottom up (paths under \<open>src/\<close>):
  \<^item> H9_Prelude: machine integers, the exceptions of the C++ code as values (\<open>cxx_error\<close>; a
    function that can fail returns \<open>Inl\<close>, and \<open>Terminate\<close>, \<open>Assertion_failed\<close> and
    \<open>Undefined_behaviour\<close> are the ends of the process), the locales \<open>codec\<close>, \<open>chunked\<close>,
    \<open>registry\<close> and \<open>step_system\<close>.
  \<^item> H9_Text: number formatting and parsing of the standard library.
  \<^item> H9_Frame (\<open>bus/h9frame\<close>): frames at the width of their bit fields.
  \<^item> H9_Wire (\<open>drivers/socketcan.cc\<close>, \<open>drivers/slcan.cc\<close>): the identifier, both wire formats and the
    receiver of the serial line.
  \<^item> H9_Comparator (\<open>bus/h9framecomparator\<close>, \<open>h9d/framesubject.cc\<close>): filters and observers.
  \<^item> H9_SocketMgr (\<open>h9bus/socketmgr\<close>): the set watched by \<open>select\<close>.
  \<^item> H9_Driver (\<open>h9bus/driver\<close>, \<open>h9bus/busframe\<close>, \<open>h9bus/busmgr\<close>): send queues, the shared frames
    with their manual deletion as an explicit heap, reconnection.
  \<^item> H9_Socket (\<open>protocol/h9socket\<close>): framing of messages in the byte stream.
  \<^item> H9_Msg (\<open>protocol/*msg\<close>, \<open>genericmethod.h\<close>, \<open>value\<close>): all messages; the tree of libxml2 is
    the parameter \<open>libxml\<close> with the laws \<open>xml_laws\<close>, which the tree \<open>xtree\<close> satisfies.
  \<^item> H9_Server (\<open>protocol/h9msgsocket\<close>, \<open>h9bus/tcpclient\<close>, \<open>servermgr\<close>, \<open>eventmgr\<close>): the clients of h9bus.
  \<^item> H9_Bus (\<open>h9d/bus\<close>): requests and the table of promises, as steps of concurrent calls.
  \<^item> H9_Node (\<open>h9d/node\<close>): the register protocol with its deadlines.
  \<^item> H9_Device (\<open>common/devicedescloader\<close>, \<open>h9d/device\<close>, \<open>devices/antennaswitch\<close>): devices.
  \<^item> H9_DevMgr (\<open>h9d/devmgr\<close>): the directory of devices.
  \<^item> H9_Executor (\<open>h9d/executor\<close>, \<open>h9d/executoradapter\<close>): the method calls.
  \<^item> H9_Client (\<open>h9d/tcpclientthread\<close>, \<open>tcpserver\<close>, \<open>epoll\<close>, \<open>sharedmutex\<close>): threads and locks as
    step relations.
  \<^item> H9_Session (\<open>h9d/tcpclientthread.cc\<close>, \<open>protocol/h9connector.cc\<close>): a connection of h9d from the
    message to the answer, and the client's side of a connection.
  \<^item> H9_Fwu (\<open>h9fwu/h9fwu.cc\<close>): Intel HEX and the dialogue with the boot loader.
  \<^item> H9_Cli (\<open>h9cli/expression\<close>, \<open>h9cli/h9cli.cc\<close>): commands, their answers, completion.
  \<^item> H9_Tools (\<open>h9send\<close>, \<open>h9sniffer\<close>, \<open>h9stat\<close>, \<open>h9bus/framelogger.cc\<close>): the frame sent, the text printed
    for a frame, the report made of the statistics of h9bus.
  \<^item> H9_Log (\<open>common/log\<close>), H9_Net (\<open>protocol/h9socket.cc\<close>, both \<open>tcpserver.cc\<close>) and H9_Start (\<open>clientctx\<close>,
    \<open>busctx\<close>, \<open>dctx\<close>, the \<open>main\<close> of both daemons): log messages and their buffer, connecting and
    listening with the descriptors they open and close, settings and the order of start-up.
  \<^item> H9_Events (\<open>h9d/epoll.cc\<close>, \<open>h9d/kqueue.cc\<close>, \<open>h9d/tcpserver.cc\<close>): the two event queues behind one locale
    \<open>event_queue\<close>, the loop of the server over them, and the progress of the threads of the clients.
  \<^item> H9_Doc (\<open>protocol/genericmsg.cc\<close>, \<open>genericmethod.h\<close>): the documents of messages as a store of pointers,
    with every constructor, assignment and the destructor.
  \<^item> H9_Schema (\<open>protocol/h9msg.xsd\<close>): the schema of the messages, and h9bus behind it.
  \<^item> H9_Open (\<open>drivers/*.cc\<close>, \<open>h9bus/busmgr.cc\<close>): opening the drivers, the settings of the serial line, and the
    descriptors over repeated attempts.
  \<^item> H9_Config (\<open>h9bus/busctx.cc\<close>, \<open>h9d/dctx.cc\<close>, \<open>common/daemonctx.cc\<close>, \<open>clientctx.cc\<close>, \<open>ctx.cc\<close>, \<open>log.cc\<close>): the
    tables of options, the getters, the command lines, the members of the log per level.
  \<^item> H9_Parse (\<open>h9cli/lexer.l\<close>, \<open>parser.yy\<close>, \<open>cliparser.cc\<close>, \<open>h9cli.cc\<close>): tokens, grammar and precedences of the
    language of h9cli, the objects of a line, and the loops over lines.
  \<^item> H9_Answers: which answers, events and statistics of the daemons that schema allows.
  \<^item> H9_Loop (\<open>h9bus/socketmgr.cc\<close>, \<open>tcpserver.cc\<close>, \<open>servermgr.cc\<close>, \<open>tcpclient.cc\<close>): the turns of the main loop of
    h9bus, with the identities of the connections and the numbers of their descriptors.
  \<^item> H9_Mains (\<open>h9send\<close>, \<open>h9sniffer\<close>, \<open>h9stat\<close>, \<open>h9fwu\<close>): the \<open>main\<close> functions, from the options to the exit status.
  \<^item> H9_Locks (\<open>h9d\<close>): the calls on mutexes of all threads of h9d, the order of the mutexes, and the deletion of clients.
  \<^item> H9_Transport (\<open>protocol/genericmsg.cc\<close>, \<open>h9msgsocket.cc\<close>, \<open>h9socket.cc\<close>): messages from the object at one end
    of a connection to the object at the other; the text libxml2 writes is a parameter with the law \<open>dump_laws\<close>,
    which a writer and a reader of \<open>xtree\<close> satisfy. Two threads that send at once.
  \<^item> H9_Values (\<open>protocol/value\<close>, \<open>genericmethod.h\<close>, \<open>genericmsg.cc\<close>): values as pointers into the document, with libxml2's
    nodes as the parameter \<open>dom\<close> under the laws \<open>dom_laws\<close>, which a heap of nodes satisfies; the validation context.
  This theory holds the property that spans both daemons: a request of an h9d thread through the
  messages and the bytes on the connection, the schema, h9bus and a driver, back over the connection
  to the confirmation that ends its wait.

  What the lemmas show. Round trips: the wire formats, the messages and the byte stream under any
  chunking. Invariants of the step relations: the serial driver, the promises, the queue of a
  client, the lock, the watched sockets and the connections of h9bus, the directory. Refinements: the receive buffers against a
  byte machine, the directory against the last announcement of each node, notification against the
  registered filters, the HEX reader against a loader of records, the program h9fwu against its dialogue. Answers: every call of a client
  gets exactly one, on every branch. Liveness: what is queued for a client is sent under a fair scheduler.
  Languages: what the schema lets in h9bus handles, what h9cli reads is what was meant. Errors: what
  terminates a daemon. The defects found are stated
  as theorems about the code as it is.

  Inputs. Results of system calls, times, the order in which a priority queue breaks ties, the
  frames and messages that arrive, the configuration file as libconfuse reads it, and whether a
  document is valid for the schema (in the theories below H9_Schema) are arguments of the definitions; properties hold for all of
  them or state what they need (\<open>sends_or_closes\<close>, \<open>write_ok\<close>, \<open>quiet\<close>).

  Bounds. Message numbers have 64 bits: the properties of the promises hold for fewer than
  \<open>2 ^ 64 - 3\<close> calls, before a number can come twice. Messages are shorter than \<open>2 ^ 32\<close> bytes, the
  length field. The firmware buffer has 128 kB; a write outside it is \<open>Undefined_behaviour\<close>. No fuel
  is used: loops are structural over what arrives, or come with a measure.

  Not modelled. The text of options and configuration files (cxxopts, libconfuse), of which the results are
  used: the options counted, the assignments in order. The conversion of addresses to text, readline and its
  history file, the terminal of h9stat and its floating point rates. In the other theories the
  sections under a mutex are single steps; H9_Locks treats the mutexes.
  \<open>common/h9tuple.cc\<close> has only empty bodies and \<open>h9bus/cfg.cc\<close> only includes its header.
  Log messages in modelled functions are left out, their arguments that can throw are kept.
\<close>

lemma map_of_clients: "map_of (map (\<lambda>(k, c). (k, g k c)) cs) fd = map_option (g fd) (map_of cs fd)"
  by (induction cs) auto

lemma send_frame_processed:
  assumes "get_type (he_xml env) m = Inr SEND_FRAME" and "get_frame (he_xml env) m = Inr f"
    and "get_id (he_xml env) m = Inr i" and "map_of (hb_clients h) fd = Some c"
    and "bm_dev (hb_bus h) = [(n, d)]" and "is_sync (dr_kind d)" and "dr_queue d = []" and "dr_socket d \<noteq> 0"
    and "write_ok (he_bus env) (bm_store (hb_bus h))" and "length (data f) = 8"
    and "sends_or_closes (he_send env)"
    and "frame_msg (he_xml env) f (client_idstring c) (dr_name d) = Inr r"
  shows "\<exists>h'. process_msg env fd m h = (None, h') \<and>
    hb_clients h' = map (\<lambda>(k, c). (k, delivered (he_xml env) (he_send env) r (word_of_int fd) i k c)) (hb_clients h) \<and>
    written (bm_store (hb_bus h')) = written (bm_store (hb_bus h)) @ (if dr_kind d = Dummy then [] else [(dr_name d, f)])"
proof -
  obtain b' where b: "bus_send_frame (he_bus env) f (client_idstring c) (word_of_int fd) i [] (hb_bus h) = (None, b')"
    "events (bm_store b') = events (bm_store (hb_bus h)) @ [Sent_event (dr_name d)
        ((new_busframe f (client_idstring c) (word_of_int fd) i)\<lparr>bf_total := 1, bf_completed := 1\<rparr>)]"
    "written (bm_store b') = written (bm_store (hb_bus h)) @ (if dr_kind d = Dummy then [] else [(dr_name d, f)])"
    using bus_send_one [OF assms(5-10), of "client_idstring c" "word_of_int fd" i] by blast
  let ?cs = "map (\<lambda>(k, c). (k, delivered (he_xml env) (he_send env) r (word_of_int fd) i k c)) (hb_clients h)"
  have "process_msg env fd m h = (None, h\<lparr>hb_bus := b', hb_clients := ?cs\<rparr>)"
    using assms(1-4,12) b
    by (simp add: process_msg_def deliver_event_def Let_def new_busframe_def send_msg_to_subscriber_eq [OF assms(11)])
  then show ?thesis using b(3) by auto
qed

definition reaches :: "string \<Rightarrow> bool" where
  \<comment> \<open>however the bytes of the message are cut on their way, the receiver has the message\<close>
  "reaches t \<longleftrightarrow> (\<forall>rs h d. length h = 4 \<and> d \<noteq> [] \<and> length t < 2 ^ 32 \<and> run_allowed rs (new_h9socket h d) \<and>
     run_bytes rs (new_h9socket h d) = sock_wire t \<longrightarrow> fst (sock_run rs (new_h9socket h d)) = [t])"

lemma serialized_reaches:
  assumes "xml_laws X" and "dump_laws X dump rd" and "fresh_msg X m"
  shows "reaches (serialize X dump (set_id X i m))"
proof -
  let ?t = "serialize X dump (set_id X i m)"
  have f: "fresh_msg X (set_id X i m)" by (rule fresh_msg_set_id [OF assms(1,3)])
  then have z: "dump (doc_tree X (set_id X i m)) \<noteq> []" "CHR 0x00 \<notin> set (dump (doc_tree X (set_id X i m)))"
    using assms(2) by (auto simp: dump_laws_def fresh_msg_def)
  then have "\<forall>c \<in> set (dump (doc_tree X (set_id X i m))). c \<noteq> CHR 0x00" by metis
  then have "?t = dump (doc_tree X (set_id X i m))" unfolding serialize_def by (simp only: takeWhile_eq_all_conv)
  then have "raw_ok ?t" if "length ?t < 2 ^ 32" using that z by (simp add: raw_ok_def)
  then show ?thesis unfolding reaches_def using read_in_chunks by blast
qed

lemma same_message_schema:
  assumes "same_message X m g" and "schema_valid X m" and "get_type X m = Inr SEND_FRAME"
  shows "schema_valid X g"
proof -
  obtain n where n: "msg_node m = Some n" "h9_choice X n" and r: "h9_attrs X (doc_root m)"
    using assms(2) by (auto simp: schema_valid_def split: option.splits)
  obtain n' where n': "msg_node g = Some n'" "same_node X n n'"
    using assms(1) n(1) by (auto simp: same_message_def rel_option_iff split: option.splits)
  have "xname X n = ''sendframe''"
    using assms(3) n(1) by (auto simp: get_type_def split: if_splits)
  then have "h9sendframe_t [] X n" using n(2) by (simp add: h9_choice_def)
  then have "h9sendframe_t [] X n'" and "xname X n' = ''sendframe''"
    using n'(2) \<open>xname X n = ''sendframe''\<close> unfolding same_node_iff [of X n n']
    by (auto simp: h9sendframe_t_def required_attr_def optional_attr_def only_attrs_def)
  then have "h9_choice X n'" by (simp add: h9_choice_def)
  moreover have "h9_attrs X (doc_root g)"
    using assms(1) r by (simp add: same_message_def h9_attrs_def required_attr_def optional_attr_def only_attrs_def)
  ultimately show ?thesis using n'(1) by (simp add: schema_valid_def)
qed



end
